(* ===== verification/Prelude.thy ===== *)
theory Prelude
  imports Complex_Main "HOL-Library.Word"
begin

text \<open>
  Shared vocabulary of the development.

  \<^item> \<open>fault\<close> and \<open>sum_bind\<close>: code that can go wrong returns a value of
    \<open>fault + 'a\<close>; \<open>sum_bind\<close> sequences two such computations, and a fault of the
    first one is the fault of both.
  \<^item> \<open>lseg\<close>: a pointer chain. The linked structures of the program (the ring of
    operations, the list of peers of a channel, the free list, the list of memory
    blocks) are all read off a \<open>next\<close> function with it.
  \<^item> named collections: \<open>frame\<close> gathers the lemmas that say what a write leaves
    alone, \<open>rep_defs\<close> the definitions of the representation predicates.
\<close>

named_theorems frame
named_theorems rep_defs

section \<open>Faults\<close>

text \<open>
  What can go wrong in the C++ code: a null pointer is dereferenced, a pointer that is
  not (or no longer) valid is dereferenced, a null function pointer is called, and
  an allocation fails, on which the code calls \<open>exit(1)\<close>.
\<close>

datatype fault = NullDeref | WildDeref | NullCall | ExitOutOfMemory

definition sum_bind :: "'e + 'a \<Rightarrow> ('a \<Rightarrow> 'e + 'b) \<Rightarrow> 'e + 'b" where
  "sum_bind m f = (case m of Inl e \<Rightarrow> Inl e | Inr x \<Rightarrow> f x)"

lemma sum_bind_Inl [simp]: "sum_bind (Inl e) f = Inl e"
  by (simp add: sum_bind_def)

lemma sum_bind_Inr [simp]: "sum_bind (Inr x) f = f x"
  by (simp add: sum_bind_def)

lemma sum_bind_eq_Inr: "sum_bind m f = Inr y \<longleftrightarrow> (\<exists>x. m = Inr x \<and> f x = Inr y)"
  by (cases m) auto

lemma sum_bind_eq_Inl:
  "sum_bind m f = Inl e \<longleftrightarrow> m = Inl e \<or> (\<exists>x. m = Inr x \<and> f x = Inl e)"
  by (cases m) auto

lemma sum_bind_assoc: "sum_bind (sum_bind m f) g = sum_bind m (\<lambda>x. sum_bind (f x) g)"
  by (cases m) auto

text \<open>The runs of a system are values of type \<open>(fault + 's) option\<close>.\<close>

lemma run_ok_iff:
  "(case x of None \<Rightarrow> False | Some y \<Rightarrow> (case y of Inl e \<Rightarrow> False | Inr s \<Rightarrow> P s)) \<longleftrightarrow>
   (\<exists>s. x = Some (Inr s) \<and> P s)"
  by (auto split: option.splits sum.splits)

section \<open>Pointer chains\<close>

text \<open>
  \<open>lseg f p xs q\<close>: following \<open>f\<close> from \<open>p\<close> visits exactly the nodes \<open>xs\<close>, in this
  order, and arrives at \<open>q\<close>. A null-terminated list ends at \<open>None\<close>, a ring ends where
  it started.
\<close>

fun lseg :: "('a \<Rightarrow> 'a option) \<Rightarrow> 'a option \<Rightarrow> 'a list \<Rightarrow> 'a option \<Rightarrow> bool" where
  "lseg f p [] q \<longleftrightarrow> p = q"
| "lseg f p (x # xs) q \<longleftrightarrow> p = Some x \<and> lseg f (f x) xs q"

lemma lseg_append [simp]:
  "lseg f p (xs @ ys) q \<longleftrightarrow> (\<exists>r. lseg f p xs r \<and> lseg f r ys q)"
  by (induction xs arbitrary: p) auto

lemma lseg_cong:
  "(\<And>x. x \<in> set xs \<Longrightarrow> f x = g x) \<Longrightarrow> lseg f p xs q = lseg g p xs q"
  by (induction xs arbitrary: p) auto

lemma lseg_upd [simp]: "x \<notin> set xs \<Longrightarrow> lseg (f(x := y)) p xs q = lseg f p xs q"
  by (rule lseg_cong) auto

lemma lseg_start: "lseg f p xs q \<Longrightarrow> xs \<noteq> [] \<Longrightarrow> p = Some (hd xs)"
  by (cases xs) auto

lemma lseg_rotate:
  assumes "lseg f p (xs @ ys) p" and "ys \<noteq> []"
  shows "lseg f (Some (hd ys)) (ys @ xs) (Some (hd ys))"
proof -
  from assms(1) obtain r where xs: "lseg f p xs r" and ys: "lseg f r ys p" by auto
  from ys assms(2) have "r = Some (hd ys)" by (rule lseg_start)
  with xs ys show ?thesis by auto
qed

lemma lseg_last: "lseg f p (xs @ [x]) q \<Longrightarrow> f x = q"
  by auto

lemma lseg_unique: "lseg f p xs None \<Longrightarrow> lseg f p ys None \<Longrightarrow> xs = ys"
proof (induction xs arbitrary: p ys)
  case Nil
  then show ?case by (cases ys) auto
next
  case (Cons x xs)
  then show ?case by (cases ys) auto
qed

section \<open>Lists\<close>

lemma distinct_concat_hd:
  "distinct (concat xss) \<Longrightarrow> [] \<notin> set xss \<Longrightarrow> distinct (List.map hd xss)"
proof (induction xss)
  case Nil
  then show ?case by simp
next
  case (Cons xs xss)
  have "hd xs \<notin> set (List.map hd xss)"
  proof
    assume "hd xs \<in> set (List.map hd xss)"
    then obtain ys where "ys \<in> set xss" "hd xs = hd ys" by auto
    moreover from this Cons.prems(2) have "ys \<noteq> []" "xs \<noteq> []" by auto
    ultimately have "hd xs \<in> set xs" "hd xs \<in> set (concat xss)"
      by (metis hd_in_set, metis hd_in_set in_set_conv_nth nth_mem set_concat UN_I)
    with Cons.prems(1) show False by (auto simp del: set_concat)
  qed
  with Cons show ?case by auto
qed

lemma sum_list_map_upd_less:
  fixes f g :: "'a \<Rightarrow> nat"
  assumes "x \<in> set xs" and "g x < f x" and "\<And>y. y \<in> set xs \<Longrightarrow> g y \<le> f y"
  shows "sum_list (List.map g xs) < sum_list (List.map f xs)"
proof -
  from assms(1) obtain ys zs where "xs = ys @ x # zs" by (auto simp: in_set_conv_decomp)
  moreover from this assms(3)
  have "sum_list (List.map g ys) \<le> sum_list (List.map f ys)"
    and "sum_list (List.map g zs) \<le> sum_list (List.map f zs)"
    by (auto intro!: sum_list_mono)
  ultimately show ?thesis using assms(2) by simp
qed

end
