(* ===== verification/Proxy_Types.thy ===== *)
theory Proxy_Types
  imports Prelude
begin

text \<open>
  The data of the proxy module (\<^verbatim>\<open>csrc/proxy.h\<close>, the pool structure of
  \<^verbatim>\<open>csrc/proxy.cc\<close>) and the memory it lives in.

  A \<open>ProxyArgs*\<close> is an \<open>argref option\<close>: \<open>None\<close> is the null pointer, and
  \<open>Elem b i\<close> is the address of \<open>elems[i]\<close> in the \<open>ProxyPool\<close> block \<open>b\<close>, so that
  \<open>newElems + i + 1\<close> is \<open>Elem b (i + 1)\<close>. A \<open>ProxyArgs**\<close> (the field
  \<open>proxyTail\<close>) is the number of a cell that belongs to the client, one per channel.
  Memory is a map from addresses to objects; an address outside its domain is not
  allocated or has been freed, and reading or writing there is a fault.
\<close>

section \<open>The RDMA end point of an operation\<close>

text \<open>
  Of the verbs structures the program embeds in an operation, the fields it uses: queue
  handles are numbers, the work requests are records.
\<close>

record ibv_sge =
  sge_addr :: "64 word"
  sge_length :: "32 word"
  sge_lkey :: "32 word"

record ibv_recv_wr =
  rwr_id :: "64 word"
  rwr_num_sge :: int

datatype ibv_wr_opcode = IBV_WR_RDMA_WRITE | IBV_WR_RDMA_WRITE_WITH_IMM

record ibv_send_wr =
  swr_id :: "64 word"
  swr_num_sge :: int
  swr_opcode :: ibv_wr_opcode
  swr_signaled :: bool
  swr_remote_addr :: "64 word"
  swr_rkey :: "32 word"
  swr_imm_data :: "32 word"

record RDMAEndpoint =
  ep_cq :: nat
  ep_available_wqes :: int
  ep_qp :: nat
  ep_recv_wr :: ibv_recv_wr
  ep_sge :: ibv_sge
  ep_send_wr :: ibv_send_wr

section \<open>Operations\<close>

datatype ProxyOpState = ProxyOpNone | ProxyOpReady | ProxyOpProgress

datatype argref = Elem nat nat

type_synonym argptr = "argref option"
type_synonym tailptr = "nat option"

text \<open>
  The \<open>progress\<close> function pointer is a name of type \<open>'f\<close> (\<open>None\<close> is the null
  pointer); what the named functions do is a parameter of the thread model. A
  \<open>cycles_t\<close> is \<open>unsigned long long\<close>; the \<open>int\<close> counters are mathematical integers, and
  the theory of the benchmark functions bounds them inside 32 bits.
\<close>

record 'f ProxyArgs =
  pa_idle :: bool
  pa_state :: ProxyOpState
  pa_progress :: "'f option"
  pa_proxyTail :: tailptr
  pa_next :: argptr
  pa_nextPeer :: argptr
  pa_endpoint :: RDMAEndpoint
  pa_iterations :: int
  pa_startTick :: "64 word"
  pa_endTick :: "64 word"
  pa_first_completion :: int
  pa_count :: int

text \<open>What \<open>memset(p, 0, ...)\<close> of \<open>CALLOC\<close> leaves in an operation.\<close>

definition zero_endpoint :: RDMAEndpoint where
  "zero_endpoint =
     \<lparr>ep_cq = 0, ep_available_wqes = 0, ep_qp = 0,
      ep_recv_wr = \<lparr>rwr_id = 0, rwr_num_sge = 0\<rparr>,
      ep_sge = \<lparr>sge_addr = 0, sge_length = 0, sge_lkey = 0\<rparr>,
      ep_send_wr = \<lparr>swr_id = 0, swr_num_sge = 0, swr_opcode = IBV_WR_RDMA_WRITE,
        swr_signaled = False, swr_remote_addr = 0, swr_rkey = 0, swr_imm_data = 0\<rparr>\<rparr>"

definition zero_args :: "'f ProxyArgs" where
  "zero_args =
     \<lparr>pa_idle = False, pa_state = ProxyOpNone, pa_progress = None, pa_proxyTail = None,
      pa_next = None, pa_nextPeer = None, pa_endpoint = zero_endpoint, pa_iterations = 0,
      pa_startTick = 0, pa_endTick = 0, pa_first_completion = 0, pa_count = 0\<rparr>"

section \<open>The handler and the memory\<close>

text \<open>
  \<open>ProxyHandler\<close> without its mutex and condition variable: every critical section is
  one atomic operation of the model, and waiting on the condition is a control state of
  the thread (theory \<open>Proxy_Thread\<close>). \<open>ph_abortFlag\<close> is the value of the flag the
  handler points to, \<open>ph_proxyThread\<close> says that the thread handle is not zero, \<open>ph_pools\<close>
  is the address of the first \<open>ProxyPool\<close> block.
\<close>

record ProxyHandler =
  ph_proxyThread :: bool
  ph_ops :: argptr
  ph_stop :: bool
  ph_abortFlag :: "32 word"
  ph_pool :: argptr
  ph_pools :: "nat option"

text \<open>
  Memory: the operations, the client's tail cells, and the live pool blocks with their
  \<open>next\<close> fields.
\<close>

record 'f proxy =
  handler :: ProxyHandler
  heap :: "argref \<rightharpoonup> 'f ProxyArgs"
  tails :: "nat \<rightharpoonup> argptr"
  blocks :: "nat \<rightharpoonup> nat option"

definition load :: "argptr \<Rightarrow> 'f proxy \<Rightarrow> fault + 'f ProxyArgs" where
  "load p s =
     (case p of
        None \<Rightarrow> Inl NullDeref
      | Some r \<Rightarrow> (case heap s r of None \<Rightarrow> Inl WildDeref | Some a \<Rightarrow> Inr a))"

definition store ::
  "argptr \<Rightarrow> ('f ProxyArgs \<Rightarrow> 'f ProxyArgs) \<Rightarrow> 'f proxy \<Rightarrow> fault + 'f proxy" where
  "store p u s =
     (case p of
        None \<Rightarrow> Inl NullDeref
      | Some r \<Rightarrow>
          (case heap s r of
             None \<Rightarrow> Inl WildDeref
           | Some a \<Rightarrow> Inr (s\<lparr>heap := (heap s)(r \<mapsto> u a)\<rparr>)))"

definition load_tail :: "tailptr \<Rightarrow> 'f proxy \<Rightarrow> fault + argptr" where
  "load_tail t s =
     (case t of
        None \<Rightarrow> Inl NullDeref
      | Some c \<Rightarrow> (case tails s c of None \<Rightarrow> Inl WildDeref | Some p \<Rightarrow> Inr p))"

definition store_tail :: "tailptr \<Rightarrow> argptr \<Rightarrow> 'f proxy \<Rightarrow> fault + 'f proxy" where
  "store_tail t p s =
     (case t of
        None \<Rightarrow> Inl NullDeref
      | Some c \<Rightarrow>
          (case tails s c of
             None \<Rightarrow> Inl WildDeref
           | Some _ \<Rightarrow> Inr (s\<lparr>tails := (tails s)(c \<mapsto> p)\<rparr>)))"

definition set_ops :: "argptr \<Rightarrow> 'f proxy \<Rightarrow> 'f proxy" where
  "set_ops p s = s\<lparr>handler := (handler s)\<lparr>ph_ops := p\<rparr>\<rparr>"

definition set_pool :: "argptr \<Rightarrow> 'f proxy \<Rightarrow> 'f proxy" where
  "set_pool p s = s\<lparr>handler := (handler s)\<lparr>ph_pool := p\<rparr>\<rparr>"

abbreviation ops :: "'f proxy \<Rightarrow> argptr" where
  "ops s \<equiv> ph_ops (handler s)"

abbreviation pool :: "'f proxy \<Rightarrow> argptr" where
  "pool s \<equiv> ph_pool (handler s)"

abbreviation pools :: "'f proxy \<Rightarrow> nat option" where
  "pools s \<equiv> ph_pools (handler s)"

text \<open>Access at a valid address, as rewrite rules.\<close>

lemma load_Some [simp]: "heap s r = Some a \<Longrightarrow> load (Some r) s = Inr a"
  by (simp add: load_def)

lemma load_None [simp]: "load None s = Inl NullDeref"
  by (simp add: load_def)

lemma store_Some [simp]:
  "heap s r = Some a \<Longrightarrow> store (Some r) u s = Inr (s\<lparr>heap := (heap s)(r \<mapsto> u a)\<rparr>)"
  by (simp add: store_def)

lemma load_tail_Some [simp]: "tails s c = Some p \<Longrightarrow> load_tail (Some c) s = Inr p"
  by (simp add: load_tail_def)

lemma store_tail_Some [simp]:
  "tails s c = Some q \<Longrightarrow> store_tail (Some c) p s = Inr (s\<lparr>tails := (tails s)(c \<mapsto> p)\<rparr>)"
  by (simp add: store_tail_def)

lemma set_ops_simps [simp]:
  "heap (set_ops p s) = heap s" "tails (set_ops p s) = tails s"
  "blocks (set_ops p s) = blocks s" "ops (set_ops p s) = p" "pool (set_ops p s) = pool s"
  "pools (set_ops p s) = pools s" "ph_stop (handler (set_ops p s)) = ph_stop (handler s)"
  "ph_abortFlag (handler (set_ops p s)) = ph_abortFlag (handler s)"
  "ph_proxyThread (handler (set_ops p s)) = ph_proxyThread (handler s)"
  by (simp_all add: set_ops_def)

lemma set_pool_simps [simp]:
  "heap (set_pool p s) = heap s" "tails (set_pool p s) = tails s"
  "blocks (set_pool p s) = blocks s" "ops (set_pool p s) = ops s" "pool (set_pool p s) = p"
  "pools (set_pool p s) = pools s" "ph_stop (handler (set_pool p s)) = ph_stop (handler s)"
  "ph_abortFlag (handler (set_pool p s)) = ph_abortFlag (handler s)"
  "ph_proxyThread (handler (set_pool p s)) = ph_proxyThread (handler s)"
  by (simp_all add: set_pool_def)

section \<open>Reading the links\<close>

text \<open>
  The two link fields, the channel and the state of the operation at an address, as
  functions of the heap; a write to one field leaves the readings of the others alone.
\<close>

type_synonym 'f heap = "argref \<rightharpoonup> 'f ProxyArgs"

definition nxt :: "'f heap \<Rightarrow> argref \<Rightarrow> argptr" where
  "nxt h r = (case h r of None \<Rightarrow> None | Some a \<Rightarrow> pa_next a)"

definition peer :: "'f heap \<Rightarrow> argref \<Rightarrow> argptr" where
  "peer h r = (case h r of None \<Rightarrow> None | Some a \<Rightarrow> pa_nextPeer a)"

definition tail_of :: "'f heap \<Rightarrow> argref \<Rightarrow> tailptr" where
  "tail_of h r = (case h r of None \<Rightarrow> None | Some a \<Rightarrow> pa_proxyTail a)"

definition op_done :: "'f heap \<Rightarrow> argref \<Rightarrow> bool" where
  "op_done h r = (case h r of None \<Rightarrow> False | Some a \<Rightarrow> pa_state a = ProxyOpNone)"

definition runnable :: "'f heap \<Rightarrow> argref \<Rightarrow> bool" where
  "runnable h r = (case h r of None \<Rightarrow> False | Some a \<Rightarrow> pa_progress a \<noteq> None)"

lemmas link_defs = nxt_def peer_def tail_of_def op_done_def runnable_def

lemma nxt_upd_next [simp]: "nxt (h(r \<mapsto> y\<lparr>pa_next := v\<rparr>)) = (nxt h)(r := v)"
  by (simp add: fun_eq_iff link_defs)

lemma upd_next_frame [simp, frame]:
  assumes "h r = Some y"
  shows "peer (h(r \<mapsto> y\<lparr>pa_next := v\<rparr>)) = peer h"
    and "tail_of (h(r \<mapsto> y\<lparr>pa_next := v\<rparr>)) = tail_of h"
    and "op_done (h(r \<mapsto> y\<lparr>pa_next := v\<rparr>)) = op_done h"
    and "runnable (h(r \<mapsto> y\<lparr>pa_next := v\<rparr>)) = runnable h"
  using assms by (simp_all add: fun_eq_iff link_defs)

lemma peer_upd_peer [simp]: "peer (h(r \<mapsto> y\<lparr>pa_nextPeer := v\<rparr>)) = (peer h)(r := v)"
  by (simp add: fun_eq_iff link_defs)

lemma upd_peer_frame [simp, frame]:
  assumes "h r = Some y"
  shows "nxt (h(r \<mapsto> y\<lparr>pa_nextPeer := v\<rparr>)) = nxt h"
    and "tail_of (h(r \<mapsto> y\<lparr>pa_nextPeer := v\<rparr>)) = tail_of h"
    and "op_done (h(r \<mapsto> y\<lparr>pa_nextPeer := v\<rparr>)) = op_done h"
    and "runnable (h(r \<mapsto> y\<lparr>pa_nextPeer := v\<rparr>)) = runnable h"
  using assms by (simp_all add: fun_eq_iff link_defs)

lemma link_at:
  assumes "h r = Some a"
  shows "nxt h r = pa_next a" and "peer h r = pa_nextPeer a" and "tail_of h r = pa_proxyTail a"
    and "op_done h r \<longleftrightarrow> pa_state a = ProxyOpNone"
    and "runnable h r \<longleftrightarrow> pa_progress a \<noteq> None"
  using assms by (simp_all add: link_defs)

lemma tail_of_dom: "tail_of h r = Some t \<Longrightarrow> \<exists>a. h r = Some a \<and> pa_proxyTail a = Some t"
  by (auto simp: tail_of_def split: option.splits)

text \<open>Two heaps that differ in link fields only.\<close>

definition payload :: "'f ProxyArgs \<Rightarrow> 'f ProxyArgs" where
  "payload a = a\<lparr>pa_next := None, pa_nextPeer := None\<rparr>"

definition same_payload :: "'f heap \<Rightarrow> 'f heap \<Rightarrow> bool" where
  "same_payload h h' \<longleftrightarrow> (\<forall>r. map_option payload (h r) = map_option payload (h' r))"

lemma same_payload_refl [simp]: "same_payload h h"
  by (simp add: same_payload_def)

lemma same_payload_trans: "same_payload h h' \<Longrightarrow> same_payload h' h'' \<Longrightarrow> same_payload h h''"
  by (simp add: same_payload_def)

lemma same_payload_upd [simp]:
  assumes "h r = Some y"
  shows "same_payload h (h(r \<mapsto> y\<lparr>pa_next := v\<rparr>))"
    and "same_payload h (h(r \<mapsto> y\<lparr>pa_nextPeer := v\<rparr>))"
  using assms by (simp_all add: same_payload_def payload_def)

lemma same_payload_at:
  assumes "same_payload h h'" and "h r = Some a"
  obtains a' where "h' r = Some a'" and "payload a' = payload a"
  using assms by (metis (no_types, lifting) map_option_eq_Some same_payload_def)

lemma payload_fields:
  assumes "payload a' = payload a"
  shows "pa_state a' = pa_state a" and "pa_progress a' = pa_progress a"
    and "pa_proxyTail a' = pa_proxyTail a" and "pa_idle a' = pa_idle a"
  using assms by (auto simp: payload_def dest: arg_cong [of _ _ pa_state] arg_cong [of _ _ pa_progress]
      arg_cong [of _ _ pa_proxyTail] arg_cong [of _ _ pa_idle])

lemma same_payload_dom: "same_payload h h' \<Longrightarrow> dom h' = dom h"
  by (auto simp: same_payload_def dom_def) (metis option.map_disc_iff not_Some_eq)+

lemma same_payload_frame [frame]:
  assumes "same_payload h h'"
  shows "op_done h' = op_done h" and "runnable h' = runnable h" and "tail_of h' = tail_of h"
proof -
  have "op_done h' r = op_done h r \<and> runnable h' r = runnable h r \<and> tail_of h' r = tail_of h r" for r
  proof (cases "h r")
    case None
    with assms have "h' r = None" by (metis option.map_disc_iff same_payload_def)
    with None show ?thesis by (simp add: link_defs)
  next
    case (Some a)
    with assms obtain a' where "h' r = Some a'" "payload a' = payload a" by (rule same_payload_at)
    with Some show ?thesis by (simp add: link_at payload_fields [of a' a])
  qed
  then show "op_done h' = op_done h" "runnable h' = runnable h" "tail_of h' = tail_of h"
    by (simp_all add: fun_eq_iff)
qed

end
