(* ===== verification/Channel_Ring.thy ===== *)
theory Channel_Ring
  imports Prelude
begin

text \<open>
  The abstract specification of the proxy's queue: a ring of channels. A channel is named
  by its tail cell and holds a non-empty first-in first-out list of operations, of which
  only the first one is visited by the proxy thread. The list of channels is read from
  the thread's current position.

  The theory is independent of the representation in memory; theory
  \<open>Proxy_Queue\<close> proves that the pointer manipulations of \<open>ProxyArgsAppend\<close> and
  \<open>persistentThread\<close> implement it.
\<close>

type_synonym 'r chan = "nat \<times> 'r list"
type_synonym 'r ring = "'r chan list"

definition heads :: "'r ring \<Rightarrow> 'r list" where
  "heads ring = List.map (\<lambda>(t, c). hd c) ring"

definition ring_ops :: "'r ring \<Rightarrow> 'r list" where
  "ring_ops ring = concat (List.map snd ring)"

definition ring_wf :: "'r ring \<Rightarrow> bool" where
  "ring_wf ring \<longleftrightarrow>
     distinct (List.map fst ring) \<and> distinct (ring_ops ring) \<and> (\<forall>(t, c) \<in> set ring. c \<noteq> [])"

text \<open>
  Appending operation \<open>a\<close> to channel \<open>t\<close>: behind the channel's last operation when the
  channel is active, as a new channel right after the ring's first one otherwise.
\<close>

fun chan_snoc :: "nat \<Rightarrow> 'r \<Rightarrow> 'r ring \<Rightarrow> 'r ring" where
  "chan_snoc t a [] = []"
| "chan_snoc t a ((u, c) # rs) = (if u = t then (u, c @ [a]) # rs else (u, c) # chan_snoc t a rs)"

fun ring_insert :: "nat \<Rightarrow> 'r \<Rightarrow> 'r ring \<Rightarrow> 'r ring" where
  "ring_insert t a [] = [(t, [a])]"
| "ring_insert t a (x # rs) = x # (t, [a]) # rs"

definition ring_append :: "nat \<Rightarrow> 'r \<Rightarrow> 'r ring \<Rightarrow> 'r ring" where
  "ring_append t a ring =
     (if t \<in> fst ` set ring then chan_snoc t a ring else ring_insert t a ring)"

text \<open>
  Moving on from the current channel: the ring is rotated by one; when the operation
  now at the front is done it is dropped from its channel, and the channel is dropped
  when that was its last operation.
\<close>

fun ring_pop :: "('r \<Rightarrow> bool) \<Rightarrow> 'r ring \<Rightarrow> 'r ring" where
  "ring_pop d [] = []"
| "ring_pop d ((t, c) # rs) =
     (if d (hd c) then (if tl c = [] then rs else (t, tl c) # rs) else (t, c) # rs)"

definition ring_advance :: "('r \<Rightarrow> bool) \<Rightarrow> 'r ring \<Rightarrow> 'r ring" where
  "ring_advance d ring = ring_pop d (rotate1 ring)"

text \<open>The operation this drops, if any.\<close>

definition ring_retired :: "('r \<Rightarrow> bool) \<Rightarrow> 'r ring \<Rightarrow> 'r option" where
  "ring_retired d ring =
     (case heads (rotate1 ring) of [] \<Rightarrow> None | h # _ \<Rightarrow> if d h then Some h else None)"

section \<open>Basic facts\<close>

lemma in_set_tl: "x \<in> set (tl c) \<Longrightarrow> x \<in> set c"
  by (cases c) auto

lemma chan_id_mem: "(t, c) \<in> set ring \<Longrightarrow> t \<in> fst ` set ring"
  by force

lemma heads_simps [simp]:
  "heads [] = []" "heads ((t, c) # rs) = hd c # heads rs" "heads (xs @ ys) = heads xs @ heads ys"
  by (simp_all add: heads_def)

lemma heads_Nil_iff [simp]: "heads ring = [] \<longleftrightarrow> ring = []" "[] = heads ring \<longleftrightarrow> ring = []"
  by (auto simp: heads_def)

lemma ring_ops_simps [simp]:
  "ring_ops [] = []" "ring_ops ((t, c) # rs) = c @ ring_ops rs"
  "ring_ops (xs @ ys) = ring_ops xs @ ring_ops ys"
  by (simp_all add: ring_ops_def)

lemma hd_heads: "ring \<noteq> [] \<Longrightarrow> hd (heads ring) = hd (snd (hd ring))"
  by (cases ring) (auto simp: heads_def)

lemma ring_wf_simps [simp]:
  "ring_wf []"
  "ring_wf ((t, c) # rs) \<longleftrightarrow>
     t \<notin> fst ` set rs \<and> c \<noteq> [] \<and> distinct c \<and> set c \<inter> set (ring_ops rs) = {} \<and> ring_wf rs"
  by (auto simp: ring_wf_def)

lemma ring_wf_append [simp]:
  "ring_wf (xs @ ys) \<longleftrightarrow>
     ring_wf xs \<and> ring_wf ys \<and> fst ` set xs \<inter> fst ` set ys = {} \<and>
     set (ring_ops xs) \<inter> set (ring_ops ys) = {}"
  by (induction xs) (auto simp: image_Un intro: chan_id_mem)

lemma ring_wf_rotate: "ring_wf (xs @ ys) \<Longrightarrow> ring_wf (ys @ xs)"
  by auto

lemma set_heads_subset: "ring_wf ring \<Longrightarrow> set (heads ring) \<subseteq> set (ring_ops ring)"
  by (induction ring) auto

lemma distinct_heads: "ring_wf ring \<Longrightarrow> distinct (heads ring)"
proof (induction ring)
  case Nil
  then show ?case by simp
next
  case (Cons x ring)
  obtain t c where x: "x = (t, c)" by fastforce
  from Cons.prems x have "hd c \<in> set c" "set c \<inter> set (ring_ops ring) = {}" "ring_wf ring" by auto
  moreover from this(3) have "set (heads ring) \<subseteq> set (ring_ops ring)" by (rule set_heads_subset)
  ultimately show ?case using Cons.IH x by auto
qed

lemma heads_split:
  "h \<in> set (heads ring) \<Longrightarrow> \<exists>xs t c ys. ring = xs @ (t, c) # ys \<and> h = hd c"
  by (force simp: heads_def in_set_conv_decomp)

section \<open>Appending\<close>

lemma chan_snoc_notin: "t \<notin> fst ` set ring \<Longrightarrow> chan_snoc t a ring = ring"
  by (induction t a ring rule: chan_snoc.induct) auto

lemma chan_snoc_split:
  "t \<notin> fst ` set xs \<Longrightarrow> chan_snoc t a (xs @ (t, c) # ys) = xs @ (t, c @ [a]) # ys"
  by (induction xs) auto

lemma fst_ring_append: "fst ` set (ring_append t a ring) = insert t (fst ` set ring)"
proof -
  have "fst ` set (chan_snoc t a ring) = fst ` set ring"
    by (induction t a ring rule: chan_snoc.induct) auto
  moreover have "fst ` set (ring_insert t a ring) = insert t (fst ` set ring)"
    by (cases ring) auto
  ultimately show ?thesis by (auto simp: ring_append_def)
qed

lemma set_ring_ops_append [simp]: "set (ring_ops (ring_append t a ring)) = insert a (set (ring_ops ring))"
proof -
  have "t \<in> fst ` set ring \<Longrightarrow> set (ring_ops (chan_snoc t a ring)) = insert a (set (ring_ops ring))"
    by (induction t a ring rule: chan_snoc.induct) auto
  moreover have "set (ring_ops (ring_insert t a ring)) = insert a (set (ring_ops ring))"
    by (cases ring) (auto split: prod.splits)
  ultimately show ?thesis by (simp add: ring_append_def)
qed

lemma ring_wf_ring_append:
  assumes "ring_wf ring" and "a \<notin> set (ring_ops ring)"
  shows "ring_wf (ring_append t a ring)"
proof (cases "t \<in> fst ` set ring")
  case True
  then obtain xs c ys where r: "ring = xs @ (t, c) # ys"
    by (force simp: in_set_conv_decomp)
  with assms(1) have "t \<notin> fst ` set xs" by auto
  with True r assms show ?thesis by (auto simp: ring_append_def chan_snoc_split)
next
  case False
  show ?thesis
  proof (cases ring)
    case Nil
    with False show ?thesis by (simp add: ring_append_def)
  next
    case (Cons x rs)
    obtain u c where "x = (u, c)" by fastforce
    with Cons False assms have "ring_wf ((u, c) # (t, [a]) # rs)" by simp
    with Cons False \<open>x = (u, c)\<close> show ?thesis by (simp add: ring_append_def)
  qed
qed

lemma heads_ring_append:
  assumes "ring_wf ring"
  shows "set (heads ring) \<subseteq> set (heads (ring_append t a ring))"
proof (cases "t \<in> fst ` set ring")
  case True
  then obtain xs c ys where r: "ring = xs @ (t, c) # ys"
    by (force simp: in_set_conv_decomp)
  with assms have "t \<notin> fst ` set xs" "c \<noteq> []" by auto
  with True r show ?thesis by (simp add: ring_append_def chan_snoc_split)
next
  case False
  then show ?thesis by (cases ring) (auto simp: ring_append_def)
qed

section \<open>Advancing\<close>

lemma ring_wf_rotate1: "ring_wf ring \<Longrightarrow> ring_wf (rotate1 ring)"
  using ring_wf_rotate [of "[hd ring]" "tl ring"] by (cases ring) simp_all

lemma ring_wf_pop:
  assumes "ring_wf ring"
  shows "ring_wf (ring_pop d ring)"
proof (cases ring)
  case (Cons x rs)
  obtain t c where "x = (t, c)" by fastforce
  moreover have "set (tl c) \<subseteq> set c" by (auto dest: in_set_tl)
  ultimately show ?thesis using assms Cons by (simp add: distinct_tl) blast
qed simp

lemma ring_wf_advance: "ring_wf ring \<Longrightarrow> ring_wf (ring_advance d ring)"
  by (simp add: ring_advance_def ring_wf_pop ring_wf_rotate1)

lemma set_ring_ops_rotate1: "set (ring_ops (rotate1 ring)) = set (ring_ops ring)"
  by (cases ring) auto

lemma set_ring_ops_pop:
  "ring_wf ring \<Longrightarrow>
   set (ring_ops (ring_pop d ring)) =
     set (ring_ops ring) - (case heads ring of [] \<Rightarrow> {} | h # _ \<Rightarrow> if d h then {h} else {})"
proof (cases ring)
  case (Cons x rs)
  assume wf: "ring_wf ring"
  obtain t c where x: "x = (t, c)" by fastforce
  with wf Cons obtain h c' where c: "c = h # c'" by (cases c) auto
  from wf Cons x c have "h \<notin> set c'" "h \<notin> set (ring_ops rs)" by auto
  with Cons x c show ?thesis by auto
qed simp

lemma set_ring_ops_advance:
  "ring_wf ring \<Longrightarrow>
   set (ring_ops (ring_advance d ring)) =
     set (ring_ops ring) - set_option (ring_retired d ring)"
  by (auto simp: ring_advance_def ring_retired_def set_ring_ops_pop ring_wf_rotate1
      set_ring_ops_rotate1 split: list.splits)

section \<open>Channels as first-in first-out queues\<close>

text \<open>The operations of channel \<open>t\<close>, oldest first.\<close>

definition chan_of :: "nat \<Rightarrow> 'r ring \<Rightarrow> 'r list" where
  "chan_of t ring = (case map_of ring t of None \<Rightarrow> [] | Some c \<Rightarrow> c)"

lemma chan_of_simps [simp]:
  "chan_of t [] = []" "chan_of t ((u, c) # rs) = (if u = t then c else chan_of t rs)"
  by (simp_all add: chan_of_def)

lemma chan_of_notin: "t \<notin> fst ` set ring \<Longrightarrow> chan_of t ring = []"
  by (simp add: chan_of_def map_of_eq_None_iff [THEN iffD2])

lemma chan_of_append: "chan_of u (ring_append t a ring) = chan_of u ring @ (if u = t then [a] else [])"
proof (cases "t \<in> fst ` set ring")
  case True
  then have "chan_of u (chan_snoc t a ring) = chan_of u ring @ (if u = t then [a] else [])"
  proof (induction ring)
    case (Cons x rs)
    obtain v c where x: "x = (v, c)" by fastforce
    show ?case
    proof (cases "v = t")
      case False
      with Cons x show ?thesis by simp
    qed (simp add: x)
  qed simp
  with True show ?thesis by (simp add: ring_append_def)
next
  case False
  moreover have "chan_of u (ring_insert t a ring) = chan_of u ring @ (if u = t then [a] else [])"
    using False by (cases ring) (auto simp: chan_of_notin)
  ultimately show ?thesis by (simp add: ring_append_def)
qed

lemma chan_of_concat: "t \<notin> fst ` set xs \<Longrightarrow> chan_of t (xs @ ys) = chan_of t ys"
  by (induction xs) auto

lemma chan_of_rotate1: "ring_wf ring \<Longrightarrow> chan_of t (rotate1 ring) = chan_of t ring"
proof (cases ring)
  case (Cons x rs)
  assume wf: "ring_wf ring"
  obtain u c where x: "x = (u, c)" by fastforce
  have "chan_of t (rs @ [(u, c)]) = chan_of t ((u, c) # rs)"
  proof (cases "t \<in> fst ` set rs")
    case True
    with wf Cons x have "u \<noteq> t" by auto
    then show ?thesis by (induction rs) auto
  next
    case False
    then show ?thesis by (simp add: chan_of_concat chan_of_notin)
  qed
  with Cons x show ?thesis by simp
qed simp

lemma chan_of_rotate: "ring_wf (xs @ ys) \<Longrightarrow> chan_of t (ys @ xs) = chan_of t (xs @ ys)"
proof (induction xs arbitrary: ys)
  case (Cons x xs)
  from ring_wf_rotate1 [OF Cons.prems] have wf: "ring_wf (xs @ ys @ [x])" by simp
  from Cons.IH [OF wf] chan_of_rotate1 [OF Cons.prems, of t] show ?case by simp
qed simp

text \<open>
  Advancing drops at most one operation, the oldest one of its channel, and only when it is
  done.
\<close>

lemma chan_of_advance:
  assumes "ring_wf ring"
  shows "chan_of t (ring_advance d ring) = chan_of t ring \<or>
     (\<exists>h. chan_of t ring = h # chan_of t (ring_advance d ring) \<and> d h \<and>
          ring_retired d ring = Some h)"
proof (cases "rotate1 ring")
  case (Cons x rs)
  obtain u c where x: "x = (u, c)" by fastforce
  from ring_wf_rotate1 [OF assms] Cons x have wf: "ring_wf ((u, c) # rs)" by simp
  then obtain h c' where c: "c = h # c'" by (cases c) auto
  from wf have "chan_of u rs = []" by (simp add: chan_of_notin)
  then show ?thesis
    using Cons x c chan_of_rotate1 [OF assms, of t, symmetric]
    by (auto simp: ring_advance_def ring_retired_def)
qed (use chan_of_rotate1 [OF assms, of t] in \<open>simp add: ring_advance_def\<close>)

lemma ring_retired_None:
  assumes "ring \<noteq> []" and "ring_retired d ring = None"
  shows "ring_advance d ring = rotate1 ring" and "\<not> d (hd (heads (rotate1 ring)))"
  using assms by (cases "rotate1 ring"; auto simp: ring_retired_def ring_advance_def split: if_splits)+

lemma ring_retired_Some:
  "ring_retired d ring = Some h \<Longrightarrow> h \<in> set (heads ring) \<and> d h"
  by (cases ring) (auto simp: ring_retired_def split: list.splits if_splits dest: arg_cong [of _ _ set])

lemma chan_of_mem: "ring_wf ring \<Longrightarrow> (t, c) \<in> set ring \<Longrightarrow> chan_of t ring = c"
  by (simp add: chan_of_def ring_wf_def)

lemma heads_chan:
  assumes "ring_wf ring" and "h \<in> set (heads ring)"
  obtains t c where "(t, h # c) \<in> set ring" and "chan_of t ring = h # c"
proof -
  from heads_split [OF assms(2)] obtain xs t c ys where "ring = xs @ (t, c) # ys" "h = hd c" by blast
  then have tc: "(t, c) \<in> set ring" "h = hd c" by simp_all
  with assms(1) have "c = h # tl c" by (auto simp: ring_wf_def)
  with tc chan_of_mem [OF assms(1), of t c] that [of t "tl c"] show ?thesis by simp
qed

end
