(* ===== verification/Proxy_Queue.thy ===== *)
theory Proxy_Queue
  imports Proxy_Types Channel_Ring
begin

text \<open>
  The queue of operations: \<open>ProxyArgsAppend\<close> and the part of \<open>persistentThread\<close>'s
  critical section that unlinks a finished operation (\<^verbatim>\<open>csrc/proxy.cc\<close>), their
  representation invariant, and the proof that they implement the ring of channels of
  theory \<open>Channel_Ring\<close>.
\<close>

section \<open>The code\<close>

definition ProxyArgsAppend :: "argref \<Rightarrow> 'f proxy \<Rightarrow> fault + 'f proxy" where
  "ProxyArgsAppend args s =
     sum_bind (load (Some args) s) (\<lambda>a.
     sum_bind (load_tail (pa_proxyTail a) s) (\<lambda>tail.
       (case tail of
          None \<Rightarrow>
            sum_bind
              (case ops s of
                 None \<Rightarrow>
                   sum_bind (store (Some args) (\<lambda>x. x\<lparr>pa_next := Some args\<rparr>) s) (\<lambda>s.
                   Inr (set_ops (Some args) s))
               | Some h \<Rightarrow>
                   sum_bind (load (Some h) s) (\<lambda>first.
                   sum_bind (store (Some args) (\<lambda>x. x\<lparr>pa_next := pa_next first\<rparr>) s) (\<lambda>s.
                   store (Some h) (\<lambda>x. x\<lparr>pa_next := Some args\<rparr>) s)))
              (\<lambda>s. store_tail (pa_proxyTail a) (Some args) s)
        | Some l \<Rightarrow>
            sum_bind (store (Some l) (\<lambda>x. x\<lparr>pa_nextPeer := Some args\<rparr>) s) (\<lambda>s.
            store_tail (pa_proxyTail a) (Some args) s))))"

text \<open>
  The unlinking in \<open>persistentThread\<close>, in three parts. \<open>replace_next op freeOp n s\<close> is the
  body of \<open>if (next->state == ProxyOpNone)\<close> up to the update of \<open>handler->ops\<close>:
  the next operation (\<open>freeOp\<close>, with contents \<open>n\<close>) is replaced by its peer, or removed
  from the ring when it has none. \<open>recycle\<close> is the rest of that body. \<open>unlink_next\<close> is the
  whole, from \<open>ProxyArgs* next = op->next\<close> to \<open>op = next\<close>. The result is the new value
  of \<open>next\<close>, which becomes \<open>op\<close>.
\<close>

definition replace_next ::
  "argref \<Rightarrow> argptr \<Rightarrow> 'f ProxyArgs \<Rightarrow> 'f proxy \<Rightarrow> fault + argptr \<times> 'f proxy" where
  "replace_next op freeOp n s =
     (case pa_nextPeer n of
        Some p \<Rightarrow>
          if Some op \<noteq> freeOp then
            sum_bind (store (Some p) (\<lambda>x. x\<lparr>pa_next := pa_next n\<rparr>) s) (\<lambda>s.
            sum_bind (store (Some op) (\<lambda>x. x\<lparr>pa_next := Some p\<rparr>) s) (\<lambda>s.
            Inr (Some p, s)))
          else
            sum_bind (store (Some p) (\<lambda>x. x\<lparr>pa_next := Some p\<rparr>) s) (\<lambda>s.
            Inr (Some p, s))
      | None \<Rightarrow>
          sum_bind (store_tail (pa_proxyTail n) None s) (\<lambda>s.
          if Some op \<noteq> freeOp then
            sum_bind (store (Some op) (\<lambda>x. x\<lparr>pa_next := pa_next n\<rparr>) s) (\<lambda>s.
            Inr (pa_next n, s))
          else Inr (None, s)))"

definition recycle :: "argptr \<Rightarrow> argptr \<Rightarrow> 'f proxy \<Rightarrow> fault + argptr \<times> 'f proxy" where
  "recycle freeOp next s =
     (let s = (if freeOp = ops s then set_ops next s else s) in
      sum_bind (store freeOp (\<lambda>x. x\<lparr>pa_next := pool s\<rparr>) s) (\<lambda>s.
      Inr (next, set_pool freeOp s)))"

definition unlink_next :: "argref \<Rightarrow> 'f proxy \<Rightarrow> fault + argptr \<times> 'f proxy" where
  "unlink_next op s =
     sum_bind (load (Some op) s) (\<lambda>o1.
     let next = pa_next o1 in
     sum_bind (load next s) (\<lambda>n.
     if pa_state n = ProxyOpNone
     then sum_bind (replace_next op next n s) (\<lambda>(next', s). recycle next next' s)
     else Inr (next, s)))"

section \<open>Representation\<close>

text \<open>
  A channel in memory: the peers form a null-terminated chain from the channel's head,
  every operation of it points to the channel's tail cell, and the cell holds the last
  operation.
\<close>

definition chan_rep :: "'f heap \<Rightarrow> (nat \<rightharpoonup> argptr) \<Rightarrow> nat \<Rightarrow> argref list \<Rightarrow> bool" where
  "chan_rep h T t c \<longleftrightarrow>
     lseg (peer h) (Some (hd c)) c None \<and> (\<forall>r \<in> set c. tail_of h r = Some t) \<and>
     T t = Some (Some (last c))"

text \<open>
  The ring in memory, read from \<open>cur\<close>: the heads of the channels form a cycle through
  \<open>next\<close>, and a tail cell that is not null belongs to a channel of the ring.
\<close>

definition ring_rep ::
  "'f heap \<Rightarrow> (nat \<rightharpoonup> argptr) \<Rightarrow> argptr \<Rightarrow> argref ring \<Rightarrow> bool" where
  "ring_rep h T cur ring \<longleftrightarrow>
     ring_wf ring \<and> (ring = [] \<longrightarrow> cur = None) \<and> lseg (nxt h) cur (heads ring) cur \<and>
     (\<forall>(t, c) \<in> set ring. chan_rep h T t c) \<and>
     (\<forall>t p. T t = Some (Some p) \<longrightarrow> t \<in> fst ` set ring)"

definition pool_rep :: "'f heap \<Rightarrow> argptr \<Rightarrow> argref list \<Rightarrow> bool" where
  "pool_rep h p fs \<longleftrightarrow> lseg (nxt h) p fs None \<and> distinct fs \<and> set fs \<subseteq> dom h"

definition ops_in :: "argptr \<Rightarrow> argref ring \<Rightarrow> bool" where
  "ops_in p ring \<longleftrightarrow> (case p of None \<Rightarrow> ring = [] | Some r \<Rightarrow> r \<in> set (heads ring))"

text \<open>
  The queue's invariant: the ring (read from \<open>cur\<close>) and the free list \<open>fs\<close> are
  represented, share no operation, and \<open>handler->ops\<close> points into the ring.
\<close>

definition queue_inv :: "'f proxy \<Rightarrow> argptr \<Rightarrow> argref ring \<Rightarrow> argref list \<Rightarrow> bool" where
  "queue_inv s cur ring fs \<longleftrightarrow>
     ring_rep (heap s) (tails s) cur ring \<and> pool_rep (heap s) (pool s) fs \<and>
     set fs \<inter> set (ring_ops ring) = {} \<and> ops_in (ops s) ring"

lemmas [rep_defs] = chan_rep_def ring_rep_def pool_rep_def ops_in_def queue_inv_def

lemma chan_rep_upd_next [simp, frame]:
  "h r = Some y \<Longrightarrow> chan_rep (h(r \<mapsto> y\<lparr>pa_next := v\<rparr>)) T t c = chan_rep h T t c"
  by (simp add: chan_rep_def)

lemma chan_rep_upd_tail [simp, frame]:
  "u \<noteq> t \<Longrightarrow> chan_rep h (T(u \<mapsto> p)) t c = chan_rep h T t c"
  by (simp add: chan_rep_def)

lemma chan_rep_upd_peer [frame]:
  assumes "h r = Some y" and "r \<notin> set c"
  shows "chan_rep (h(r \<mapsto> y\<lparr>pa_nextPeer := v\<rparr>)) T t c = chan_rep h T t c"
  using assms by (simp add: chan_rep_def)

lemma chan_rep_mem: "chan_rep h T t c \<Longrightarrow> r \<in> set c \<Longrightarrow> \<exists>a. h r = Some a \<and> pa_proxyTail a = Some t"
  by (auto simp: chan_rep_def dest: tail_of_dom)

lemma chan_rep_hd:
  assumes "chan_rep h T t c" and "c \<noteq> []"
  obtains a where "h (hd c) = Some a" and "pa_proxyTail a = Some t"
    and "pa_nextPeer a = (if tl c = [] then None else Some (hd (tl c)))"
proof -
  from assms obtain a where a: "h (hd c) = Some a" "pa_proxyTail a = Some t"
    by (metis chan_rep_mem hd_in_set)
  obtain x c' where c: "c = x # c'" using assms(2) by (cases c) auto
  with assms(1) a have "lseg (peer h) (pa_nextPeer a) c' None"
    by (auto simp: chan_rep_def link_at)
  with c have "pa_nextPeer a = (if tl c = [] then None else Some (hd (tl c)))"
    by (cases c') auto
  with a that show ?thesis by blast
qed

lemma chan_rep_tl:
  assumes "chan_rep h T t c" and "tl c \<noteq> []"
  shows "chan_rep h T t (tl c)"
  using assms by (cases c; cases "tl c") (auto simp: chan_rep_def)

lemma ring_repI:
  assumes "ring_wf ring" and "ring = [] \<Longrightarrow> cur = None" and "lseg (nxt h) cur (heads ring) cur"
    and "\<And>t c. (t, c) \<in> set ring \<Longrightarrow> chan_rep h T t c"
    and "\<And>t p. T t = Some (Some p) \<Longrightarrow> t \<in> fst ` set ring"
  shows "ring_rep h T cur ring"
  using assms unfolding ring_rep_def by blast

lemma ring_rep_chan: "ring_rep h T cur ring \<Longrightarrow> (t, c) \<in> set ring \<Longrightarrow> chan_rep h T t c"
  by (auto simp: ring_rep_def)

lemma ring_rep_mem:
  assumes "ring_rep h T cur ring" and "r \<in> set (ring_ops ring)"
  shows "\<exists>a t. h r = Some a \<and> pa_proxyTail a = Some t"
proof -
  from assms(2) obtain t c where "(t, c) \<in> set ring" "r \<in> set c" by (auto simp: ring_ops_def)
  with assms(1) show ?thesis by (blast dest: ring_rep_chan chan_rep_mem)
qed

lemma ring_rep_cur: "ring_rep h T cur ((t, c) # rs) \<Longrightarrow> cur = Some (hd c)"
  by (simp add: ring_rep_def)

lemma ring_rep_rotate:
  assumes "ring_rep h T cur (xs @ ys)" and "ys \<noteq> []"
  shows "ring_rep h T (Some (hd (heads ys))) (ys @ xs)"
  using assms lseg_rotate [of "nxt h" cur "heads xs" "heads ys"] ring_wf_rotate [of xs ys]
  unfolding ring_rep_def by (simp add: image_Un Un_commute del: ring_wf_append)

section \<open>ProxyArgsAppend implements ring_append\<close>

lemma append_first:
  assumes "ring_rep h T cur []" and "h a = Some x" and "pa_proxyTail x = Some t"
    and "pa_nextPeer x = None"
  shows "ring_rep (h(a \<mapsto> x\<lparr>pa_next := Some a\<rparr>)) (T(t \<mapsto> Some a)) (Some a) [(t, [a])]"
  using assms by (auto simp: ring_rep_def chan_rep_def link_at)

lemma append_channel:
  assumes rep: "ring_rep h T cur ((u, c) # rs)" and h: "h a = Some x" "h (hd c) = Some y"
    and t: "T t = Some None" "pa_proxyTail x = Some t" and np: "pa_nextPeer x = None"
    and a: "a \<notin> set (ring_ops ((u, c) # rs))"
  shows "ring_rep (h(a \<mapsto> x\<lparr>pa_next := pa_next y\<rparr>, hd c \<mapsto> y\<lparr>pa_next := Some a\<rparr>))
           (T(t \<mapsto> Some a)) cur ((u, c) # (t, [a]) # rs)"
    (is "ring_rep ?h ?T cur ?ring")
proof -
  from rep have wf: "ring_wf ((u, c) # rs)" and cur: "cur = Some (hd c)"
    and seg: "lseg (nxt h) (nxt h (hd c)) (heads rs) (Some (hd c))"
    by (auto simp: ring_rep_def)
  have tn: "t \<notin> fst ` set ((u, c) # rs)"
    using t rep by (auto simp: ring_rep_def chan_rep_def)
  from wf a have ne: "hd c \<noteq> a" and nh: "hd c \<notin> set (heads rs)" "a \<notin> set (heads rs)"
    using distinct_heads [OF wf] set_heads_subset [of rs] by auto
  have h': "(h(a \<mapsto> x\<lparr>pa_next := pa_next y\<rparr>)) (hd c) = Some y" using h ne by simp
  have P: "peer ?h = peer h" and N: "nxt ?h = (nxt h)(a := pa_next y, hd c := Some a)"
    using h h' by simp_all
  have chans: "chan_rep ?h ?T v d" if "(v, d) \<in> set ((u, c) # rs)" for v d
  proof -
    from that tn have "v \<noteq> t" by (auto intro: chan_id_mem)
    with h h' ring_rep_chan [OF rep that] show ?thesis by simp
  qed
  have new: "chan_rep ?h ?T t [a]"
    using h h' t np by (auto simp: chan_rep_def link_at P)
  have wf': "ring_wf ?ring" using wf tn a by simp
  have seg': "lseg (nxt ?h) cur (heads ?ring) cur"
    using seg cur ne nh h by (simp add: N link_at)
  show ?thesis
  proof (rule ring_repI [OF wf' _ seg'])
    show "chan_rep ?h ?T v d" if "(v, d) \<in> set ?ring" for v d
      using that chans new by (cases "v = t \<and> d = [a]") auto
    show "v \<in> fst ` set ?ring" if "?T v = Some (Some p)" for v p
      using that rep by (auto simp: ring_rep_def split: if_splits)
  qed simp
qed

lemma append_peer:
  assumes rep: "ring_rep h T cur (xs @ (t, c) # ys)" and h: "h a = Some x" "h (last c) = Some y"
    and t: "pa_proxyTail x = Some t" and np: "pa_nextPeer x = None"
    and a: "a \<notin> set (ring_ops (xs @ (t, c) # ys))"
  shows "ring_rep (h(last c \<mapsto> y\<lparr>pa_nextPeer := Some a\<rparr>)) (T(t \<mapsto> Some a)) cur
           (xs @ (t, c @ [a]) # ys)"
    (is "ring_rep ?h ?T cur ?ring")
proof -
  let ?old = "xs @ (t, c) # ys"
  from rep have wf: "ring_wf ?old" and c: "c \<noteq> []" by (auto simp: ring_rep_def)
  have cr: "chan_rep h T t c" using rep by (rule ring_rep_chan) simp
  from c obtain b l where bl: "c = b @ [l]" by (cases c rule: rev_cases) auto
  from a have ac: "a \<notin> set c" by simp
  have heads: "heads ?ring = heads ?old" using c by (cases c) simp_all
  have wf': "ring_wf ?ring" using wf a by auto
  have last_notin: "l \<notin> set d" if "(v, d) \<in> set (xs @ ys)" for v d
    using that wf bl by (auto simp: ring_ops_def)
  have others: "chan_rep ?h ?T v d" if vd: "(v, d) \<in> set (xs @ ys)" for v d
  proof -
    from vd wf have "v \<noteq> t" by (auto intro: chan_id_mem)
    moreover from vd have "chan_rep h T v d" by (intro ring_rep_chan [OF rep]) auto
    ultimately show ?thesis using last_notin [OF vd] h bl by (simp add: chan_rep_upd_peer)
  qed
  have new: "chan_rep ?h ?T t (c @ [a])"
  proof -
    from cr bl have "lseg (peer h) (Some (hd c)) b (Some l)" by (auto simp: chan_rep_def)
    moreover from wf bl have "l \<notin> set b" by auto
    moreover from ac bl have "l \<noteq> a" by auto
    moreover from h np have "peer h a = None" by (simp add: link_at)
    ultimately show ?thesis
      using cr h t ac bl by (auto simp: chan_rep_def link_at hd_append)
  qed
  have seg: "lseg (nxt ?h) cur (heads ?ring) cur"
    using rep h by (simp add: heads) (simp add: ring_rep_def)
  show ?thesis
  proof (rule ring_repI [OF wf' _ seg])
    show "chan_rep ?h ?T v d" if "(v, d) \<in> set ?ring" for v d
      using that others new by auto
    show "v \<in> fst ` set ?ring" if "?T v = Some (Some p)" for v p
      using that rep by (auto simp: ring_rep_def split: if_splits)
  qed simp
qed

lemma pool_rep_upd_next [frame]:
  assumes "pool_rep h p fs" and "h r = Some y" and "r \<notin> set fs"
  shows "pool_rep (h(r \<mapsto> y\<lparr>pa_next := v\<rparr>)) p fs"
  using assms by (auto simp: pool_rep_def)

lemma pool_rep_upd_peer [frame]:
  assumes "pool_rep h p fs" and "h r = Some y"
  shows "pool_rep (h(r \<mapsto> y\<lparr>pa_nextPeer := v\<rparr>)) p fs"
  using assms by (auto simp: pool_rep_def)

text \<open>
  What a client must respect when it appends operation \<open>a\<close>: the operation is its own
  (allocated, neither queued nor free), it names a valid tail cell, and it has no peer.
\<close>

definition appendable :: "'f proxy \<Rightarrow> argref ring \<Rightarrow> argref list \<Rightarrow> argref \<Rightarrow> nat \<Rightarrow> bool" where
  "appendable s ring fs a t \<longleftrightarrow>
     a \<notin> set (ring_ops ring) \<and> a \<notin> set fs \<and> t \<in> dom (tails s) \<and>
     (case heap s a of
        None \<Rightarrow> False
      | Some x \<Rightarrow> pa_proxyTail x = Some t \<and> pa_nextPeer x = None)"

text \<open>What the queue operations leave alone.\<close>

definition queue_step :: "'f proxy \<Rightarrow> 'f proxy \<Rightarrow> bool" where
  "queue_step s s' \<longleftrightarrow>
     same_payload (heap s) (heap s') \<and> blocks s' = blocks s \<and> dom (tails s') = dom (tails s) \<and>
     pools s' = pools s \<and> ph_proxyThread (handler s') = ph_proxyThread (handler s) \<and>
     ph_stop (handler s') = ph_stop (handler s) \<and>
     ph_abortFlag (handler s') = ph_abortFlag (handler s)"

lemma appendableE:
  assumes "appendable s ring fs a t"
  obtains x where "heap s a = Some x" and "pa_proxyTail x = Some t" and "pa_nextPeer x = None"
    and "a \<notin> set (ring_ops ring)" and "a \<notin> set fs" and "t \<in> dom (tails s)"
  using assms by (auto simp: appendable_def split: option.splits)

lemma append_active:
  assumes inv: "queue_inv s (ops s) ring fs" and a: "appendable s ring fs a t"
    and act: "t \<in> fst ` set ring"
  shows "\<exists>s'. ProxyArgsAppend a s = Inr s' \<and> queue_inv s' (ops s') (ring_append t a ring) fs \<and>
     queue_step s s'"
proof -
  from a obtain x where x: "heap s a = Some x" "pa_proxyTail x = Some t" "pa_nextPeer x = None"
    and fresh: "a \<notin> set (ring_ops ring)" "a \<notin> set fs" by (rule appendableE)
  from inv have rep: "ring_rep (heap s) (tails s) (ops s) ring"
    and pr: "pool_rep (heap s) (pool s) fs" and dis: "set fs \<inter> set (ring_ops ring) = {}"
    by (auto simp: queue_inv_def)
  from act obtain xs c ys where r: "ring = xs @ (t, c) # ys" by (force simp: in_set_conv_decomp)
  with rep have tn: "t \<notin> fst ` set xs" and c: "c \<noteq> []" by (auto simp: ring_rep_def)
  from rep r have cr: "chan_rep (heap s) (tails s) t c" by (auto intro: ring_rep_chan)
  with c obtain y where y: "heap s (last c) = Some y" by (metis chan_rep_mem last_in_set)
  from cr have tl: "tails s t = Some (Some (last c))" by (simp add: chan_rep_def)
  define s' where "s' = s\<lparr>heap := (heap s)(last c \<mapsto> y\<lparr>pa_nextPeer := Some a\<rparr>),
    tails := (tails s)(t \<mapsto> Some a)\<rparr>"
  have run: "ProxyArgsAppend a s = Inr s'"
    using x y tl by (simp add: ProxyArgsAppend_def s'_def)
  have "ring_rep (heap s') (tails s') (ops s) (ring_append t a ring)"
    using append_peer [OF rep [unfolded r] x(1) y x(2,3)] fresh r act tn
    by (simp add: ring_append_def chan_snoc_split s'_def)
  moreover have "ops_in (ops s) (ring_append t a ring)"
    using inv act tn r c by (auto simp: queue_inv_def ring_append_def chan_snoc_split ops_in_def
        split: option.splits)
  ultimately have "queue_inv s' (ops s') (ring_append t a ring) fs"
    using pr y fresh dis by (simp add: queue_inv_def s'_def pool_rep_upd_peer)
  with run y tl show ?thesis by (intro exI [of _ s']) (auto simp: s'_def queue_step_def)
qed

lemma append_inactive:
  assumes inv: "queue_inv s (ops s) ring fs" and a: "appendable s ring fs a t"
    and act: "t \<notin> fst ` set ring"
  shows "tails s t = Some None"
proof -
  from a obtain p where "tails s t = Some p" by (auto elim: appendableE)
  with act inv show ?thesis by (cases p) (auto simp: queue_inv_def ring_rep_def)
qed

lemma append_empty:
  assumes inv: "queue_inv s (ops s) [] fs" and a: "appendable s [] fs a t"
  shows "\<exists>s'. ProxyArgsAppend a s = Inr s' \<and> queue_inv s' (ops s') [(t, [a])] fs \<and> queue_step s s'"
proof -
  from a obtain x where x: "heap s a = Some x" "pa_proxyTail x = Some t" "pa_nextPeer x = None"
    and fresh: "a \<notin> set fs" by (auto elim: appendableE)
  from append_inactive [OF inv a] have tl: "tails s t = Some None" by simp
  from inv have rep: "ring_rep (heap s) (tails s) (ops s) []" and pr: "pool_rep (heap s) (pool s) fs"
    and o: "ops s = None" by (auto simp: queue_inv_def ring_rep_def)
  define s' where "s' = set_ops (Some a) (s\<lparr>heap := (heap s)(a \<mapsto> x\<lparr>pa_next := Some a\<rparr>),
    tails := (tails s)(t \<mapsto> Some a)\<rparr>)"
  have run: "ProxyArgsAppend a s = Inr s'"
    using x tl o by (simp add: ProxyArgsAppend_def s'_def set_ops_def)
  have "queue_inv s' (ops s') [(t, [a])] fs"
    using append_first [OF rep x] pr fresh x
    by (simp add: queue_inv_def s'_def ops_in_def pool_rep_upd_next)
  with run x tl show ?thesis
    by (intro exI [of _ s']) (auto simp: s'_def set_ops_def queue_step_def)
qed

lemma append_new_channel:
  assumes inv: "queue_inv s (ops s) ((u, c) # rs) fs" and a: "appendable s ((u, c) # rs) fs a t"
    and act: "t \<notin> fst ` set ((u, c) # rs)"
  shows "\<exists>s'. ProxyArgsAppend a s = Inr s' \<and>
     queue_inv s' (ops s') ((u, c) # (t, [a]) # rs) fs \<and> queue_step s s'"
proof -
  from a obtain x where x: "heap s a = Some x" "pa_proxyTail x = Some t" "pa_nextPeer x = None"
    and fresh: "a \<notin> set (ring_ops ((u, c) # rs))" "a \<notin> set fs" by (rule appendableE)
  from append_inactive [OF inv a act] have tl: "tails s t = Some None" .
  from inv have rep: "ring_rep (heap s) (tails s) (ops s) ((u, c) # rs)"
    and pr: "pool_rep (heap s) (pool s) fs" and dis: "set fs \<inter> set (ring_ops ((u, c) # rs)) = {}"
    by (auto simp: queue_inv_def)
  from rep have o: "ops s = Some (hd c)" and c: "c \<noteq> []" and cr: "chan_rep (heap s) (tails s) u c"
    by (auto simp: ring_rep_def)
  then obtain y where y: "heap s (hd c) = Some y" by (metis chan_rep_mem hd_in_set)
  from fresh dis c have ne: "hd c \<noteq> a" and hf: "hd c \<notin> set fs" by auto
  let ?h1 = "(heap s)(a \<mapsto> x\<lparr>pa_next := pa_next y\<rparr>)"
  define s' where "s' = s\<lparr>heap := ?h1(hd c \<mapsto> y\<lparr>pa_next := Some a\<rparr>),
    tails := (tails s)(t \<mapsto> Some a)\<rparr>"
  have run: "ProxyArgsAppend a s = Inr s'"
    using x y tl o ne by (simp add: ProxyArgsAppend_def s'_def)
  have h1: "?h1 (hd c) = Some y" using y ne by simp
  have "pool_rep (heap s') (pool s) fs"
    using pool_rep_upd_next [OF pool_rep_upd_next [OF pr x(1) fresh(2)] h1 hf] by (simp add: s'_def del: fun_upd_apply)
  moreover have "ring_rep (heap s') (tails s') (ops s) ((u, c) # (t, [a]) # rs)"
    using append_channel [OF rep x(1) y tl x(2,3) fresh(1)] by (simp add: s'_def del: fun_upd_apply)
  ultimately have "queue_inv s' (ops s') ((u, c) # (t, [a]) # rs) fs"
    using fresh dis o by (simp add: queue_inv_def s'_def ops_in_def)
  moreover have "same_payload (heap s) (heap s')"
  proof (rule same_payload_trans)
    show "same_payload (heap s) ?h1" using x(1) by (rule same_payload_upd)
    show "same_payload ?h1 (heap s')" using same_payload_upd(1) [of ?h1, OF h1] by (simp add: s'_def)
  qed
  ultimately show ?thesis using run tl
    by (intro exI [of _ s']) (auto simp: s'_def queue_step_def)
qed

lemma append_implements:
  assumes inv: "queue_inv s (ops s) ring fs" and a: "appendable s ring fs a t"
  shows "\<exists>s'. ProxyArgsAppend a s = Inr s' \<and> queue_inv s' (ops s') (ring_append t a ring) fs \<and>
     queue_step s s'"
proof (cases "t \<in> fst ` set ring")
  case True
  with assms show ?thesis by (rule append_active)
next
  case False
  show ?thesis
  proof (cases ring)
    case Nil
    with assms append_empty [of s fs a t] show ?thesis by (simp add: ring_append_def)
  next
    case (Cons x rs)
    moreover obtain u c where "x = (u, c)" by fastforce
    ultimately show ?thesis
      using append_new_channel [of s u c rs fs a t] assms False by (simp add: ring_append_def)
  qed
qed

section \<open>Unlinking implements ring_advance\<close>

lemma ring_rep_upd_next [frame]:
  assumes "ring_rep h T cur ring" and "h r = Some y" and "r \<notin> set (heads ring)"
  shows "ring_rep (h(r \<mapsto> y\<lparr>pa_next := v\<rparr>)) T cur ring"
  using assms by (simp add: ring_rep_def)

text \<open>The current operation and its successor in the ring.\<close>

lemma ring_rep_next:
  assumes "ring_rep h T (Some r) (x # rs)"
  shows "nxt h r = Some (hd (heads (rs @ [x])))"
    and "ring_rep h T (nxt h r) (rs @ [x])"
proof -
  from assms have "lseg (nxt h) (Some r) (heads (x # rs)) (Some r)" by (simp add: ring_rep_def)
  then show n: "nxt h r = Some (hd (heads (rs @ [x])))"
    by (cases x; cases rs) auto
  from assms ring_rep_rotate [of h T "Some r" "[x]" rs] show "ring_rep h T (nxt h r) (rs @ [x])"
    by (cases "rs = []") (auto simp: n ring_rep_def)
qed

text \<open>
  The four ways \<open>replace_next\<close> changes the ring, seen from the operation \<open>hd c\<close> that is
  unlinked; \<open>rs @ [x]\<close> is the rest of the ring, which ends with the current channel.
\<close>

lemma drop_head_others:
  assumes rep: "ring_rep h T (Some (hd c)) ((t, c) # rs @ [(u, d)])" and c: "tl c \<noteq> []"
    and p: "h (hd (tl c)) = Some y" and o: "h (hd d) = Some z"
  shows "ring_rep (h(hd (tl c) \<mapsto> y\<lparr>pa_next := nxt h (hd c)\<rparr>,
             hd d \<mapsto> z\<lparr>pa_next := Some (hd (tl c))\<rparr>)) T (Some (hd (tl c)))
           ((t, tl c) # rs @ [(u, d)])"
    (is "ring_rep ?h T _ ?ring")
proof -
  let ?old = "(t, c) # rs @ [(u, d)]"
  from rep have wf: "ring_wf ?old" by (simp add: ring_rep_def)
  obtain a b e where c3: "c = a # b # e" using c by (cases c; cases "tl c") auto
  from wf have d: "d \<noteq> []" by simp
  then have hd: "hd d \<in> set d" by simp
  have sub: "set (heads rs) \<subseteq> set (ring_ops rs)" using wf by (intro set_heads_subset) simp
  from wf c3 hd have ne: "b \<noteq> hd d" by auto
  have bh: "b \<notin> set (heads rs)" "hd d \<notin> set (heads rs)"
    using wf c3 sub hd by auto
  have h1: "(h(b \<mapsto> y\<lparr>pa_next := nxt h a\<rparr>)) (hd d) = Some z" using o ne by simp
  have hy: "h b = Some y" using p c3 by simp
  show ?thesis
  proof (rule ring_repI)
    show "ring_wf ?ring" using wf c3 by auto
    show "lseg (nxt ?h) (Some (hd (tl c))) (heads ?ring) (Some (hd (tl c)))"
      using rep c3 ne bh by (auto simp: ring_rep_def)
    show "chan_rep ?h T v e" if "(v, e) \<in> set ?ring" for v e
    proof -
      have "chan_rep h T v e"
      proof (cases "(v, e) = (t, tl c)")
        case True
        from rep have "chan_rep h T t c" by (rule ring_rep_chan) simp
        with True c show ?thesis by (simp add: chan_rep_tl)
      next
        case False
        with that show ?thesis by (intro ring_rep_chan [OF rep]) auto
      qed
      then show ?thesis using hy h1 c3 by simp
    qed
    show "v \<in> fst ` set ?ring" if "T v = Some (Some q)" for v q
      using that rep by (auto simp: ring_rep_def)
  qed simp
qed

lemma drop_head_alone:
  assumes rep: "ring_rep h T (Some (hd c)) [(t, c)]" and c: "tl c \<noteq> []"
    and p: "h (hd (tl c)) = Some y"
  shows "ring_rep (h(hd (tl c) \<mapsto> y\<lparr>pa_next := Some (hd (tl c))\<rparr>)) T (Some (hd (tl c))) [(t, tl c)]"
proof -
  from rep have "chan_rep h T t c" by (rule ring_rep_chan) simp
  with c p have "chan_rep (h(hd (tl c) \<mapsto> y\<lparr>pa_next := Some (hd (tl c))\<rparr>)) T t (tl c)"
    by (simp add: chan_rep_tl)
  with rep c show ?thesis by (auto simp: ring_rep_def distinct_tl)
qed

lemma drop_channel_others:
  assumes rep: "ring_rep h T (Some a) ((t, [a]) # rs @ [(u, d)])"
    and o: "h (hd d) = Some z"
  shows "ring_rep (h(hd d \<mapsto> z\<lparr>pa_next := nxt h a\<rparr>)) (T(t \<mapsto> None)) (nxt h a) (rs @ [(u, d)])"
    (is "ring_rep ?h ?T _ ?ring")
proof -
  let ?old = "(t, [a]) # rs @ [(u, d)]"
  from rep have wf: "ring_wf ?old" by (simp add: ring_rep_def)
  have sub: "set (heads rs) \<subseteq> set (ring_ops rs)" using wf by (intro set_heads_subset) simp
  from wf have "hd d \<in> set d" by simp
  with wf sub have dh: "hd d \<notin> set (heads rs)" "hd d \<noteq> a" by auto
  show ?thesis
  proof (rule ring_repI)
    show "ring_wf ?ring" using wf by auto
    show "lseg (nxt ?h) (nxt h a) (heads ?ring) (nxt h a)"
      using rep dh o by (auto simp: ring_rep_def)
    show "chan_rep ?h ?T v e" if "(v, e) \<in> set ?ring" for v e
    proof -
      have "v \<noteq> t" using that wf by (auto intro: chan_id_mem)
      moreover have "chan_rep h T v e" using that by (intro ring_rep_chan [OF rep]) auto
      ultimately show ?thesis using o by simp
    qed
    show "v \<in> fst ` set ?ring" if "?T v = Some (Some q)" for v q
      using that rep by (auto simp: ring_rep_def split: if_splits)
  qed simp
qed

lemma drop_channel_alone:
  assumes rep: "ring_rep h T (Some a) [(t, [a])]"
  shows "ring_rep h (T(t \<mapsto> None)) None []"
  using assms by (auto simp: ring_rep_def split: if_splits)

text \<open>
  \<open>replace_next\<close> as a whole: the result is the ring without its first operation, and the
  thread's next position is that ring's current operation.
\<close>

definition ring_drop :: "'r ring \<Rightarrow> 'r ring" where
  "ring_drop ring = ring_pop (\<lambda>_. True) ring"

lemma ring_drop_simps [simp]:
  "ring_drop [] = []" "ring_drop ((t, c) # rs) = (if tl c = [] then rs else (t, tl c) # rs)"
  by (simp_all add: ring_drop_def)

definition replace_post :: "'f proxy \<Rightarrow> argref ring \<Rightarrow> argptr \<Rightarrow> 'f proxy \<Rightarrow> bool" where
  "replace_post s ring nx s' \<longleftrightarrow>
     ring_rep (heap s') (tails s') nx (ring_drop ring) \<and> queue_step s s' \<and>
     handler s' = handler s \<and>
     (\<forall>fs. set fs \<inter> set (ring_ops ring) = {} \<longrightarrow> pool_rep (heap s) (pool s) fs \<longrightarrow>
        pool_rep (heap s') (pool s') fs)"

lemma hd_tl_mem: "tl c \<noteq> [] \<Longrightarrow> hd (tl c) \<in> set c"
  by (cases c) auto

lemma replace_next_others:
  assumes rep: "ring_rep (heap s) (tails s) (Some (hd c)) ((t, c) # rs @ [(u, d)])"
    and n: "heap s (hd c) = Some n"
  shows "\<exists>nx s'. replace_next (hd d) (Some (hd c)) n s = Inr (nx, s') \<and>
     replace_post s ((t, c) # rs @ [(u, d)]) nx s'"
proof -
  let ?ring = "(t, c) # rs @ [(u, d)]"
  from rep have wf: "ring_wf ?ring" by (simp add: ring_rep_def)
  from rep have cr: "chan_rep (heap s) (tails s) t c" by (rule ring_rep_chan) simp
  from wf have c: "c \<noteq> []" and d: "d \<noteq> []" by auto
  from cr c n have pt: "pa_proxyTail n = Some t"
    and np: "pa_nextPeer n = (if tl c = [] then None else Some (hd (tl c)))"
    by (auto elim!: chan_rep_hd)
  from wf have ne: "hd d \<noteq> hd c" using c d by (auto dest!: hd_in_set)
  from d have dm: "hd d \<in> set (ring_ops ?ring)" by simp
  with rep obtain z where z: "heap s (hd d) = Some z" by (blast dest: ring_rep_mem)
  have nn: "pa_next n = nxt (heap s) (hd c)" using n by (simp add: link_at)
  show ?thesis
  proof (cases "tl c = []")
    case True
    from True c obtain a where a: "c = [a]" by (cases c) auto
    have tl: "tails s t = Some (Some a)" using cr a by (simp add: chan_rep_def)
    define s' where "s' = s\<lparr>heap := (heap s)(hd d \<mapsto> z\<lparr>pa_next := nxt (heap s) a\<rparr>),
      tails := (tails s)(t \<mapsto> None)\<rparr>"
    have "replace_next (hd d) (Some (hd c)) n s = Inr (pa_next n, s')"
      using True np pt tl z ne a nn by (simp add: replace_next_def s'_def)
    moreover have "replace_post s ?ring (pa_next n) s'"
      using drop_channel_others [OF rep [unfolded a, simplified] z] a nn z tl dm
      by (auto simp: replace_post_def s'_def queue_step_def intro!: pool_rep_upd_next)
    ultimately show ?thesis by blast
  next
    case False
    let ?p = "hd (tl c)"
    have pm: "?p \<in> set (ring_ops ?ring)" using hd_tl_mem [OF False] by simp
    with rep obtain y where y: "heap s ?p = Some y" by (blast dest: ring_rep_mem)
    have "?p \<noteq> hd d" using hd_tl_mem [OF False] wf d by (auto dest!: hd_in_set)
    then have h1: "((heap s)(?p \<mapsto> y\<lparr>pa_next := nxt (heap s) (hd c)\<rparr>)) (hd d) = Some z"
      using z by simp
    define h1' where "h1' = (heap s)(?p \<mapsto> y\<lparr>pa_next := nxt (heap s) (hd c)\<rparr>)"
    define s' where "s' = s\<lparr>heap := h1'(hd d \<mapsto> z\<lparr>pa_next := Some ?p\<rparr>)\<rparr>"
    have h1z: "h1' (hd d) = Some z" using h1 by (simp add: h1'_def)
    have run: "replace_next (hd d) (Some (hd c)) n s = Inr (Some ?p, s')"
      using False np y ne nn h1z by (simp add: replace_next_def s'_def h1'_def)
    have sp: "same_payload (heap s) h1'" unfolding h1'_def using y by (rule same_payload_upd)
    have rr: "ring_rep (heap s') (tails s') (Some ?p) (ring_drop ?ring)"
      using drop_head_others [OF rep False y z] False by (simp add: s'_def h1'_def del: fun_upd_apply)
    have pr: "pool_rep (heap s') (pool s') fs"
      if "set fs \<inter> set (ring_ops ?ring) = {}" "pool_rep (heap s) (pool s) fs" for fs
    proof -
      have "pool_rep h1' (pool s) fs"
        unfolding h1'_def using that pm y by (intro pool_rep_upd_next) auto
      then show ?thesis using that dm h1z by (auto simp: s'_def intro!: pool_rep_upd_next)
    qed
    have "replace_post s ?ring (Some ?p) s'"
      using rr pr same_payload_trans [OF sp same_payload_upd(1) [of h1', OF h1z]]
      by (auto simp: replace_post_def s'_def queue_step_def simp del: fun_upd_apply)
    with run show ?thesis by blast
  qed
qed

lemma replace_next_alone:
  assumes rep: "ring_rep (heap s) (tails s) (Some (hd c)) [(t, c)]"
    and n: "heap s (hd c) = Some n"
  shows "\<exists>nx s'. replace_next (hd c) (Some (hd c)) n s = Inr (nx, s') \<and>
     replace_post s [(t, c)] nx s'"
proof -
  from rep have cr: "chan_rep (heap s) (tails s) t c" by (rule ring_rep_chan) simp
  from rep have c: "c \<noteq> []" by (auto simp: ring_rep_def)
  from cr c n have pt: "pa_proxyTail n = Some t"
    and np: "pa_nextPeer n = (if tl c = [] then None else Some (hd (tl c)))"
    by (auto elim!: chan_rep_hd)
  show ?thesis
  proof (cases "tl c = []")
    case True
    from True c obtain a where a: "c = [a]" by (cases c) auto
    have tl: "tails s t = Some (Some a)" using cr a by (simp add: chan_rep_def)
    define s' where "s' = s\<lparr>tails := (tails s)(t \<mapsto> None)\<rparr>"
    have "replace_next (hd c) (Some (hd c)) n s = Inr (None, s')"
      using True np pt tl by (simp add: replace_next_def s'_def)
    moreover have "replace_post s [(t, c)] None s'"
      using drop_channel_alone [OF rep [unfolded a, simplified]] a tl
      by (auto simp: replace_post_def s'_def queue_step_def)
    ultimately show ?thesis by blast
  next
    case False
    let ?p = "hd (tl c)"
    have "?p \<in> set (ring_ops [(t, c)])" using hd_tl_mem [OF False] by simp
    with rep obtain y where y: "heap s ?p = Some y" by (blast dest: ring_rep_mem)
    define s' where "s' = s\<lparr>heap := (heap s)(?p \<mapsto> y\<lparr>pa_next := Some ?p\<rparr>)\<rparr>"
    have "replace_next (hd c) (Some (hd c)) n s = Inr (Some ?p, s')"
      using False np y by (simp add: replace_next_def s'_def)
    moreover have "replace_post s [(t, c)] (Some ?p) s'"
      using drop_head_alone [OF rep False y] False y hd_tl_mem [OF False]
      by (auto simp: replace_post_def s'_def queue_step_def intro!: pool_rep_upd_next)
    ultimately show ?thesis by blast
  qed
qed

lemma queue_step_trans: "queue_step s s' \<Longrightarrow> queue_step s' s'' \<Longrightarrow> queue_step s s''"
  by (auto simp: queue_step_def intro: same_payload_trans)

text \<open>Returning the dropped operation \<open>r\<close> to the pool.\<close>

lemma recycle_correct:
  assumes rep: "ring_rep (heap s) (tails s) nx ring" and pr: "pool_rep (heap s) (pool s) fs"
    and dis: "set fs \<inter> set (ring_ops ring) = {}" and r: "heap s r = Some y"
    and rr: "r \<notin> set (ring_ops ring)" "r \<notin> set fs"
    and o: "ops s = Some r \<or> ops_in (ops s) ring"
  shows "\<exists>s'. recycle (Some r) nx s = Inr (nx, s') \<and> queue_inv s' nx ring (r # fs) \<and>
     queue_step s s'"
proof -
  define s1 where "s1 = (if Some r = ops s then set_ops nx s else s)"
  have s1: "heap s1 = heap s" "tails s1 = tails s" "pool s1 = pool s" "blocks s1 = blocks s"
    "pools s1 = pools s" and st: "queue_step s s1"
    by (auto simp: s1_def queue_step_def set_ops_def)
  have nx: "ops_in nx ring"
    using rep by (cases ring) (auto simp: ring_rep_def ops_in_def)
  have o1: "ops_in (ops s1) ring"
    using o nx by (auto simp: s1_def)
  define s' where "s' = set_pool (Some r) (s1\<lparr>heap := (heap s)(r \<mapsto> y\<lparr>pa_next := pool s\<rparr>)\<rparr>)"
  have run: "recycle (Some r) nx s = Inr (nx, s')"
    using r s1 by (auto simp: recycle_def s1_def [symmetric] s'_def Let_def)
  have wf: "ring_wf ring" using rep by (simp add: ring_rep_def)
  have "ring_rep (heap s') (tails s') nx ring"
    using rep r rr set_heads_subset [OF wf] s1 by (auto simp: s'_def intro!: ring_rep_upd_next)
  moreover have "pool_rep (heap s') (pool s') (r # fs)"
    using pr r rr by (auto simp: s'_def pool_rep_def)
  ultimately have "queue_inv s' nx ring (r # fs)"
    using dis rr o1 by (simp add: queue_inv_def s'_def)
  moreover have "queue_step s1 s'"
    using r s1 by (auto simp: queue_step_def s'_def set_pool_def)
  ultimately show ?thesis using run st by (blast intro: queue_step_trans)
qed

lemma ring_drop_facts:
  assumes "ring_wf ((t, c) # rs)"
  shows "hd c \<notin> set (ring_ops (ring_drop ((t, c) # rs)))"
    and "set (ring_ops (ring_drop ((t, c) # rs))) \<subseteq> set (ring_ops ((t, c) # rs))"
    and "h \<in> set (heads ((t, c) # rs)) \<Longrightarrow> h = hd c \<or> h \<in> set (heads (ring_drop ((t, c) # rs)))"
proof -
  from assms obtain a e where "c = a # e" by (cases c) auto
  with assms show "hd c \<notin> set (ring_ops (ring_drop ((t, c) # rs)))"
    and "set (ring_ops (ring_drop ((t, c) # rs))) \<subseteq> set (ring_ops ((t, c) # rs))"
    and "h \<in> set (heads ((t, c) # rs)) \<Longrightarrow> h = hd c \<or> h \<in> set (heads (ring_drop ((t, c) # rs)))"
    by auto
qed

lemma ring_advance_drop:
  "rotate1 ring = (t, c) # rs \<Longrightarrow>
   ring_advance d ring = (if d (hd c) then ring_drop ((t, c) # rs) else (t, c) # rs)"
  by (simp add: ring_advance_def)

abbreviation retire_to :: "'r option \<Rightarrow> 'r list \<Rightarrow> 'r list" where
  "retire_to r fs \<equiv> (case r of None \<Rightarrow> fs | Some x \<Rightarrow> x # fs)"

lemma replace_next_correct:
  assumes rep: "ring_rep (heap s) (tails s) (Some op) ring" and rot: "rotate1 ring = (t, c) # rs"
    and n: "heap s (hd c) = Some n"
  shows "\<exists>nx s'. replace_next op (Some (hd c)) n s = Inr (nx, s') \<and>
     replace_post s ((t, c) # rs) nx s'"
proof -
  from rot obtain x ys where ring: "ring = x # ys" by (cases ring) auto
  obtain u d where x: "x = (u, d)" by fastforce
  have cur: "op = hd d" using rep ring x by (auto dest: ring_rep_cur)
  from rep ring have rep': "ring_rep (heap s) (tails s) (nxt (heap s) op) ((t, c) # rs)"
    using ring_rep_next(2) [of "heap s" "tails s" op x ys] rot by simp
  then have rep1: "ring_rep (heap s) (tails s) (Some (hd c)) ((t, c) # rs)"
    using ring_rep_cur by metis
  show ?thesis
  proof (cases ys)
    case Nil
    with rot ring x have "t = u" "c = d" "rs = []" by auto
    with replace_next_alone [of s c t n] rep1 n cur show ?thesis by simp
  next
    case (Cons y zs)
    with rot ring x have "rs = zs @ [(u, d)]" by auto
    with replace_next_others [of s c t zs u d n] rep1 n cur show ?thesis by simp
  qed
qed

text \<open>What the code reads before it decides: the next operation and its contents.\<close>

lemma queue_inv_next:
  assumes inv: "queue_inv s (Some op) ring fs"
  obtains t c rs a n where "rotate1 ring = (t, c) # rs" and "heap s op = Some a"
    and "pa_next a = Some (hd c)" and "heap s (hd c) = Some n"
    and "ring_rep (heap s) (tails s) (Some (hd c)) ((t, c) # rs)"
    and "set (heads ((t, c) # rs)) = set (heads ring)"
    and "set (ring_ops ((t, c) # rs)) = set (ring_ops ring)"
proof -
  from inv have rep: "ring_rep (heap s) (tails s) (Some op) ring" and "ring \<noteq> []"
    by (auto simp: queue_inv_def ring_rep_def)
  then obtain x ys where ring: "ring = x # ys" by (cases ring) auto
  obtain t c rs where rot: "rotate1 ring = (t, c) # rs" using ring by (cases "rotate1 ring") auto
  have rn: "ring_rep (heap s) (tails s) (nxt (heap s) op) ((t, c) # rs)"
    using ring_rep_next(2) [of "heap s" "tails s" op x ys] rep ring rot by simp
  then have nx: "nxt (heap s) op = Some (hd c)" by (rule ring_rep_cur)
  with rn have rep': "ring_rep (heap s) (tails s) (Some (hd c)) ((t, c) # rs)" by simp
  from rep ring have "op \<in> set (ring_ops ring)"
    by (cases x) (auto simp: ring_rep_def)
  with rep obtain a where a: "heap s op = Some a" by (blast dest: ring_rep_mem)
  from rep' have "hd c \<in> set (ring_ops ((t, c) # rs))" by (simp add: ring_rep_def)
  with rep' obtain n where n: "heap s (hd c) = Some n" by (blast dest: ring_rep_mem)
  have "set (heads ((t, c) # rs)) = set (heads ring)"
    and "set (ring_ops ((t, c) # rs)) = set (ring_ops ring)"
    using rot [symmetric] by (auto simp: heads_def ring_ops_def simp del: rotate1.simps)
  with rot a n nx rep' that show ?thesis by (simp add: link_at)
qed

lemma unlink_kept:
  assumes inv: "queue_inv s (Some op) ring fs"
    and "ring_retired (op_done (heap s)) ring = None"
  shows "\<exists>nx. unlink_next op s = Inr (nx, s) \<and>
     queue_inv s nx (ring_advance (op_done (heap s)) ring) fs"
  using inv
proof (rule queue_inv_next)
  fix t c rs a n
  assume rot: "rotate1 ring = (t, c) # rs" and a: "heap s op = Some a" "pa_next a = Some (hd c)"
    and n: "heap s (hd c) = Some n"
    and rep: "ring_rep (heap s) (tails s) (Some (hd c)) ((t, c) # rs)"
    and same: "set (heads ((t, c) # rs)) = set (heads ring)"
      "set (ring_ops ((t, c) # rs)) = set (ring_ops ring)"
  from assms(2) rot n have live: "pa_state n \<noteq> ProxyOpNone"
    by (auto simp: ring_retired_def link_at split: if_splits)
  then have "ring_advance (op_done (heap s)) ring = (t, c) # rs"
    using ring_advance_drop [OF rot] n by (simp add: link_at)
  moreover have "queue_inv s (Some (hd c)) ((t, c) # rs) fs"
    using rep inv same by (auto simp: queue_inv_def ops_in_def split: option.splits)
  moreover have "unlink_next op s = Inr (Some (hd c), s)"
    using a n live by (simp add: unlink_next_def)
  ultimately show ?thesis by auto
qed

lemma unlink_retired:
  assumes inv: "queue_inv s (Some op) ring fs"
    and retired: "ring_retired (op_done (heap s)) ring = Some r"
  shows "\<exists>nx s'. unlink_next op s = Inr (nx, s') \<and>
     queue_inv s' nx (ring_advance (op_done (heap s)) ring) (r # fs) \<and> queue_step s s'"
  using inv
proof (rule queue_inv_next)
  fix t c rs a n
  assume rot: "rotate1 ring = (t, c) # rs" and a: "heap s op = Some a" "pa_next a = Some (hd c)"
    and n: "heap s (hd c) = Some n"
    and rep: "ring_rep (heap s) (tails s) (Some (hd c)) ((t, c) # rs)"
    and same: "set (heads ((t, c) # rs)) = set (heads ring)"
      "set (ring_ops ((t, c) # rs)) = set (ring_ops ring)"
  from rep have wf: "ring_wf ((t, c) # rs)" by (simp add: ring_rep_def)
  from retired rot n have r: "r = hd c" and fin: "pa_state n = ProxyOpNone"
    by (auto simp: ring_retired_def link_at split: if_splits)
  have rin: "r \<in> set (ring_ops ring)" using wf r same by auto
  have rep0: "ring_rep (heap s) (tails s) (Some op) ring"
    and dis: "set fs \<inter> set (ring_ops ring) = {}"
    using inv by (simp_all add: queue_inv_def)
  from replace_next_correct [OF rep0 rot n] obtain nx s1 where
    rn: "replace_next op (Some r) n s = Inr (nx, s1)"
    and post: "replace_post s ((t, c) # rs) nx s1" using r by blast
  from post have "same_payload (heap s) (heap s1)" by (simp add: replace_post_def queue_step_def)
  with n r obtain n' where n': "heap s1 r = Some n'" by (auto elim: same_payload_at)
  have "\<exists>s'. recycle (Some r) nx s1 = Inr (nx, s') \<and>
      queue_inv s' nx (ring_drop ((t, c) # rs)) (r # fs) \<and> queue_step s1 s'"
  proof (rule recycle_correct)
    show "pool_rep (heap s1) (pool s1) fs"
      using post inv same unfolding replace_post_def queue_inv_def by metis
    show "ops s1 = Some r \<or> ops_in (ops s1) (ring_drop ((t, c) # rs))"
      using post inv same ring_drop_facts(3) [OF wf] r rin
      by (auto simp: replace_post_def queue_inv_def ops_in_def split: option.splits)
  qed (use post ring_drop_facts [OF wf] dis same rin r n' in \<open>auto simp: replace_post_def\<close>)
  then obtain s' where s': "recycle (Some r) nx s1 = Inr (nx, s')"
    "queue_inv s' nx (ring_drop ((t, c) # rs)) (r # fs)" "queue_step s1 s'" by blast
  have "unlink_next op s = Inr (nx, s')"
    using a n fin rn s'(1) r by (simp add: unlink_next_def)
  moreover have "ring_advance (op_done (heap s)) ring = ring_drop ((t, c) # rs)"
    using ring_advance_drop [OF rot] n fin by (simp add: link_at)
  moreover have "queue_step s s'"
    using post s'(3) by (auto simp: replace_post_def intro: queue_step_trans)
  ultimately show ?thesis using s'(2) by auto
qed

lemma unlink_implements:
  assumes "queue_inv s (Some op) ring fs"
  shows "\<exists>nx s'. unlink_next op s = Inr (nx, s') \<and>
     queue_inv s' nx (ring_advance (op_done (heap s)) ring)
       (retire_to (ring_retired (op_done (heap s)) ring) fs) \<and> queue_step s s'"
proof (cases "ring_retired (op_done (heap s)) ring")
  case None
  with unlink_kept [OF assms] show ?thesis by (auto simp: queue_step_def)
next
  case (Some r)
  with unlink_retired [OF assms Some] show ?thesis by simp
qed

end
