(* ===== verification/Proxy_Pool.thy ===== *)
theory Proxy_Pool
  imports Proxy_Queue
begin

text \<open>
  The pool of operations (\<^verbatim>\<open>csrc/proxy.cc\<close>): \<open>allocateArgs\<close>, which takes an operation from
  the free list and refills the list with a block of \<open>PROXYARGS_ALLOCATE_SIZE\<close> zeroed
  operations when it is empty, and the loop of \<open>ProxyDestroy\<close> that frees the blocks.

  \<open>malloc\<close> is a parameter: the result \<open>m\<close> of the call is an argument, \<open>None\<close> for failure and
  the number of a block otherwise, which is a block not in use (\<open>malloc_ok\<close>).
\<close>

section \<open>The code\<close>

definition PROXYARGS_ALLOCATE_SIZE :: nat where
  "PROXYARGS_ALLOCATE_SIZE = 32"

text \<open>\<open>CALLOC(newPool, ProxyPool, 1)\<close>: a zeroed block, or \<open>exit(1)\<close>.\<close>

definition calloc_pool :: "nat option \<Rightarrow> 'f proxy \<Rightarrow> fault + nat \<times> 'f proxy" where
  "calloc_pool m s =
     (case m of
        None \<Rightarrow> Inl ExitOutOfMemory
      | Some b \<Rightarrow>
          Inr (b, s\<lparr>
            heap := (\<lambda>r. case r of Elem b' i \<Rightarrow>
              if b' = b \<and> i < PROXYARGS_ALLOCATE_SIZE then Some zero_args else heap s r),
            blocks := (blocks s)(b \<mapsto> None)\<rparr>))"

text \<open>The loop over \<open>i\<close> that chains the elements of a new block.\<close>

fun link_elems :: "nat \<Rightarrow> nat list \<Rightarrow> 'f proxy \<Rightarrow> fault + 'f proxy" where
  "link_elems b [] s = Inr s"
| "link_elems b (i # is) s =
     (if i + 1 < PROXYARGS_ALLOCATE_SIZE
      then sum_bind (store (Some (Elem b i)) (\<lambda>x. x\<lparr>pa_next := Some (Elem b (i + 1))\<rparr>) s)
             (link_elems b is)
      else link_elems b is s)"

definition push_pool :: "nat \<Rightarrow> 'f proxy \<Rightarrow> 'f proxy" where
  "push_pool b s =
     s\<lparr>blocks := (blocks s)(b \<mapsto> pools s), handler := (handler s)\<lparr>ph_pools := Some b\<rparr>\<rparr>"

definition refill_pool :: "nat option \<Rightarrow> 'f proxy \<Rightarrow> fault + 'f proxy" where
  "refill_pool m s =
     sum_bind (calloc_pool m s) (\<lambda>(b, s).
     sum_bind (link_elems b [0..<PROXYARGS_ALLOCATE_SIZE] s) (\<lambda>s.
     Inr (push_pool b (set_pool (Some (Elem b 0)) s))))"

definition allocateArgs :: "nat option \<Rightarrow> 'f proxy \<Rightarrow> fault + argptr \<times> 'f proxy" where
  "allocateArgs m s =
     sum_bind (if pool s = None then refill_pool m s else Inr s) (\<lambda>s.
     let elem = pool s in
     sum_bind (load elem s) (\<lambda>e.
     sum_bind (store elem (\<lambda>x. x\<lparr>pa_nextPeer := None, pa_next := None\<rparr>) (set_pool (pa_next e) s)) (\<lambda>s.
     Inr (elem, s))))"

text \<open>
  The loop \<open>while (handler->pools != NULL)\<close> of \<open>ProxyDestroy\<close>. Freeing a block invalidates
  it and its elements. \<open>None\<close> is a loop that does not end.
\<close>

definition free_block :: "nat \<Rightarrow> 'f proxy \<Rightarrow> 'f proxy" where
  "free_block b s =
     s\<lparr>heap := (\<lambda>r. case r of Elem b' i \<Rightarrow> if b' = b then None else heap s r),
       blocks := (blocks s)(b := None)\<rparr>"

definition set_pools :: "nat option \<Rightarrow> 'f proxy \<Rightarrow> 'f proxy" where
  "set_pools p s = s\<lparr>handler := (handler s)\<lparr>ph_pools := p\<rparr>\<rparr>"

partial_function (option) free_pools :: "'f proxy \<Rightarrow> (fault + 'f proxy) option" where
  "free_pools s =
     (case pools s of
        None \<Rightarrow> Some (Inr s)
      | Some b \<Rightarrow>
          (case blocks s b of
             None \<Rightarrow> Some (Inl WildDeref)
           | Some next \<Rightarrow> free_pools (set_pools next (free_block b s))))"

declare free_pools.simps [code]

section \<open>Invariant\<close>

definition block_next :: "'f proxy \<Rightarrow> nat \<Rightarrow> nat option" where
  "block_next s b = (case blocks s b of None \<Rightarrow> None | Some n \<Rightarrow> n)"

definition block_elems :: "nat \<Rightarrow> argref list" where
  "block_elems b = List.map (Elem b) [0..<PROXYARGS_ALLOCATE_SIZE]"

text \<open>
  \<open>bl\<close> lists the live blocks in the order of \<open>handler->pools\<close>; the allocated operations are
  exactly the elements of the live blocks.
\<close>

definition block_inv :: "'f proxy \<Rightarrow> nat list \<Rightarrow> bool" where
  "block_inv s bl \<longleftrightarrow>
     lseg (block_next s) (pools s) bl None \<and> distinct bl \<and> set bl = dom (blocks s) \<and>
     dom (heap s) = (\<Union>b \<in> set bl. set (block_elems b))"

definition malloc_ok :: "nat option \<Rightarrow> 'f proxy \<Rightarrow> bool" where
  "malloc_ok m s \<longleftrightarrow> (case m of None \<Rightarrow> True | Some b \<Rightarrow> b \<notin> dom (blocks s))"

lemma size_pos [simp]: "0 < PROXYARGS_ALLOCATE_SIZE"
  by (simp add: PROXYARGS_ALLOCATE_SIZE_def)

lemma set_block_elems [simp]:
  "Elem b i \<in> set (block_elems b') \<longleftrightarrow> b = b' \<and> i < PROXYARGS_ALLOCATE_SIZE"
  by (auto simp: block_elems_def)

lemma distinct_block_elems [simp]: "distinct (block_elems b)"
  by (simp add: block_elems_def distinct_map inj_on_def)

lemma block_elems_Cons: "block_elems b = Elem b 0 # List.map (Elem b) [1..<PROXYARGS_ALLOCATE_SIZE]"
  by (simp add: block_elems_def upt_conv_Cons)

text \<open>The queue's invariant reads the heap at queued and free operations only.\<close>

lemma ring_rep_cong [frame]:
  assumes "\<And>r. r \<in> set (ring_ops ring) \<Longrightarrow> h' r = h r" and "ring_rep h T cur ring"
  shows "ring_rep h' T cur ring"
proof (rule ring_repI)
  from assms(2) have wf: "ring_wf ring" by (simp add: ring_rep_def)
  then have hs: "h' r = h r" if "r \<in> set (heads ring)" for r
    using that set_heads_subset [OF wf] assms(1) by auto
  show "lseg (nxt h') cur (heads ring) cur"
    using assms(2) lseg_cong [of "heads ring" "nxt h'" "nxt h"] hs
    by (simp add: ring_rep_def nxt_def)
  show "chan_rep h' T t c" if tc: "(t, c) \<in> set ring" for t c
  proof -
    have "h' r = h r" if "r \<in> set c" for r
      using tc that by (intro assms(1)) (force simp: ring_ops_def)
    then show ?thesis
      using ring_rep_chan [OF assms(2) tc] lseg_cong [of c "peer h'" "peer h"]
      by (simp add: chan_rep_def link_defs)
  qed
qed (use assms(2) in \<open>auto simp: ring_rep_def\<close>)

lemma pool_rep_cong [frame]:
  assumes "\<And>r. r \<in> set fs \<Longrightarrow> h' r = h r" and "pool_rep h p fs"
  shows "pool_rep h' p fs"
proof -
  have "lseg (nxt h') p fs None"
    using assms lseg_cong [of fs "nxt h'" "nxt h"] by (simp add: pool_rep_def nxt_def)
  moreover have "set fs \<subseteq> dom h'"
    using assms by (auto simp: pool_rep_def dom_def)
  ultimately show ?thesis using assms(2) by (simp add: pool_rep_def)
qed

section \<open>Refilling\<close>

definition chain_heap :: "nat \<Rightarrow> nat set \<Rightarrow> 'f heap \<Rightarrow> 'f heap" where
  "chain_heap b I h = (\<lambda>r. case r of Elem b' i \<Rightarrow>
     if b' = b \<and> i \<in> I \<and> i + 1 < PROXYARGS_ALLOCATE_SIZE
     then map_option (\<lambda>x. x\<lparr>pa_next := Some (Elem b (i + 1))\<rparr>) (h r) else h r)"

lemma chain_heap_empty [simp]: "chain_heap b {} h = h"
  by (auto simp: chain_heap_def fun_eq_iff split: argref.splits)

lemma chain_heap_insert:
  assumes "h (Elem b i) = Some x" and "i \<notin> I" and "i + 1 < PROXYARGS_ALLOCATE_SIZE"
  shows "chain_heap b (insert i I) h =
     chain_heap b I (h(Elem b i \<mapsto> x\<lparr>pa_next := Some (Elem b (i + 1))\<rparr>))"
  using assms by (auto simp: chain_heap_def fun_eq_iff split: argref.splits)

lemma chain_heap_insert_last:
  "\<not> i + 1 < PROXYARGS_ALLOCATE_SIZE \<Longrightarrow> chain_heap b (insert i I) h = chain_heap b I h"
  by (auto simp: chain_heap_def fun_eq_iff split: argref.splits)

lemma link_elems_heap:
  assumes "distinct is" and "\<forall>i \<in> set is. Elem b i \<in> dom (heap s)"
  shows "link_elems b is s = Inr (s\<lparr>heap := chain_heap b (set is) (heap s)\<rparr>)"
  using assms
proof (induction "is" arbitrary: s)
  case Nil
  then show ?case by simp
next
  case (Cons i "is")
  from Cons.prems obtain x where x: "heap s (Elem b i) = Some x" by auto
  show ?case
  proof (cases "i + 1 < PROXYARGS_ALLOCATE_SIZE")
    case True
    have "link_elems b (i # is) s =
        link_elems b is (s\<lparr>heap := (heap s)(Elem b i \<mapsto> x\<lparr>pa_next := Some (Elem b (i + 1))\<rparr>)\<rparr>)"
      using x True by simp
    also have "\<dots> = Inr (s\<lparr>heap := chain_heap b (set (i # is)) (heap s)\<rparr>)"
      using Cons chain_heap_insert [of "heap s" b i x "set is"] x True by simp
    finally show ?thesis .
  next
    case False
    with Cons show ?thesis by (simp add: chain_heap_insert_last)
  qed
qed

lemma lseg_block:
  assumes "\<And>i. k \<le> i \<Longrightarrow> i < n \<Longrightarrow> f (Elem b i) = (if i + 1 < n then Some (Elem b (i + 1)) else None)"
    and "k < n"
  shows "lseg f (Some (Elem b k)) (List.map (Elem b) [k..<n]) None"
  using assms
proof (induction "n - k" arbitrary: k)
  case 0
  then show ?case by simp
next
  case (Suc d)
  show ?case
  proof (cases "k + 1 < n")
    case True
    then have "lseg f (Some (Elem b (k + 1))) (List.map (Elem b) [k + 1..<n]) None"
      using Suc by (intro Suc.hyps(1)) auto
    with True Suc.prems show ?thesis by (simp add: upt_conv_Cons)
  next
    case False
    with Suc.prems show ?thesis by (simp add: upt_conv_Cons)
  qed
qed

text \<open>The contents of a new block once it is chained.\<close>

definition block_heap :: "nat \<Rightarrow> 'f heap \<Rightarrow> 'f heap" where
  "block_heap b h = (\<lambda>r. case r of Elem b' i \<Rightarrow>
     if b' = b \<and> i < PROXYARGS_ALLOCATE_SIZE
     then Some (zero_args\<lparr>pa_next :=
       (if i + 1 < PROXYARGS_ALLOCATE_SIZE then Some (Elem b (i + 1)) else None)\<rparr>)
     else h r)"

lemma zero_args_next [simp]: "zero_args\<lparr>pa_next := None\<rparr> = zero_args"
  by (simp add: zero_args_def)

lemma refill_pool_eq:
  "refill_pool (Some b) s =
     Inr (push_pool b (set_pool (Some (Elem b 0)) (s\<lparr>blocks := (blocks s)(b \<mapsto> None),
       heap := block_heap b (heap s)\<rparr>)))"
proof -
  let ?s1 = "s\<lparr>heap := (\<lambda>r. case r of Elem b' i \<Rightarrow>
      if b' = b \<and> i < PROXYARGS_ALLOCATE_SIZE then Some zero_args else heap s r),
    blocks := (blocks s)(b \<mapsto> None)\<rparr>"
  have D: "\<forall>i \<in> set [0..<PROXYARGS_ALLOCATE_SIZE]. Elem b i \<in> dom (heap ?s1)" by auto
  have "chain_heap b (set [0..<PROXYARGS_ALLOCATE_SIZE]) (heap ?s1) = block_heap b (heap s)"
    by (rule ext) (auto simp: chain_heap_def block_heap_def split: argref.splits)
  with link_elems_heap [OF distinct_upt D] show ?thesis
    by (simp add: refill_pool_def calloc_pool_def)
qed

lemma block_heap_old:
  assumes "b \<notin> dom (blocks s)" and "block_inv s bl" and "r \<in> dom (heap s)"
  shows "block_heap b (heap s) r = heap s r"
  using assms by (cases r) (auto simp: block_heap_def block_inv_def)

lemma pool_rep_block: "pool_rep (block_heap b h) (Some (Elem b 0)) (block_elems b)"
proof -
  have "lseg (nxt (block_heap b h)) (Some (Elem b 0)) (block_elems b) None"
    unfolding block_elems_def
    by (rule lseg_block) (auto simp: nxt_def block_heap_def zero_args_def)
  moreover have "set (block_elems b) \<subseteq> dom (block_heap b h)"
    by (auto simp: block_heap_def block_elems_def)
  ultimately show ?thesis by (simp add: pool_rep_def)
qed

lemma ring_ops_dom: "ring_rep h T cur ring \<Longrightarrow> set (ring_ops ring) \<subseteq> dom h"
  by (auto dest: ring_rep_mem)

lemma push_pool_simps [simp]:
  "heap (push_pool b s) = heap s" "tails (push_pool b s) = tails s"
  "ops (push_pool b s) = ops s" "pool (push_pool b s) = pool s" "pools (push_pool b s) = Some b"
  "blocks (push_pool b s) = (blocks s)(b \<mapsto> pools s)"
  "ph_stop (handler (push_pool b s)) = ph_stop (handler s)"
  "ph_abortFlag (handler (push_pool b s)) = ph_abortFlag (handler s)"
  "ph_proxyThread (handler (push_pool b s)) = ph_proxyThread (handler s)"
  by (simp_all add: push_pool_def)

lemma block_inv_push:
  assumes inv: "block_inv s bl" and b: "b \<notin> dom (blocks s)"
    and s': "heap s' = block_heap b (heap s)" "blocks s' = (blocks s)(b \<mapsto> pools s)"
      "pools s' = Some b"
  shows "block_inv s' (b # bl)"
proof -
  from inv b have nb: "b \<notin> set bl" by (auto simp: block_inv_def)
  have "lseg (block_next s') (pools s) bl None = lseg (block_next s) (pools s) bl None"
    by (rule lseg_cong) (use nb s' in \<open>auto simp: block_next_def\<close>)
  moreover have "block_next s' b = pools s" using s' by (simp add: block_next_def)
  moreover have "dom (heap s') = set (block_elems b) \<union> dom (heap s)"
    unfolding s'(1) by (auto simp: block_heap_def split: argref.splits if_splits)
  ultimately show ?thesis
    using inv nb s' by (auto simp: block_inv_def)
qed

lemma refill_correct:
  assumes q: "queue_inv s cur ring []" and bi: "block_inv s bl" and b: "b \<notin> dom (blocks s)"
  shows "\<exists>s'. refill_pool (Some b) s = Inr s' \<and> queue_inv s' cur ring (block_elems b) \<and>
     block_inv s' (b # bl) \<and> heap s' = block_heap b (heap s) \<and> tails s' = tails s \<and>
     handler s' = (handler s)\<lparr>ph_pool := Some (Elem b 0), ph_pools := Some b\<rparr>"
proof -
  define s' where "s' = push_pool b (set_pool (Some (Elem b 0))
    (s\<lparr>blocks := (blocks s)(b \<mapsto> None), heap := block_heap b (heap s)\<rparr>))"
  have run: "refill_pool (Some b) s = Inr s'" by (simp add: refill_pool_eq s'_def)
  have hs: "heap s' = block_heap b (heap s)" "tails s' = tails s" "ops s' = ops s"
    "pool s' = Some (Elem b 0)" "pools s' = Some b" "blocks s' = (blocks s)(b \<mapsto> pools s)"
    by (simp_all add: s'_def)
  from q have rep: "ring_rep (heap s) (tails s) cur ring" by (simp add: queue_inv_def)
  have "ring_rep (heap s') (tails s') cur ring"
    using rep ring_ops_dom [OF rep] block_heap_old [OF b bi] hs
    by (auto intro!: ring_rep_cong [OF _ rep])
  moreover have "set (block_elems b) \<inter> set (ring_ops ring) = {}"
    using ring_ops_dom [OF rep] bi b by (auto simp: block_inv_def block_elems_def)
  ultimately have "queue_inv s' cur ring (block_elems b)"
    using q hs pool_rep_block by (simp add: queue_inv_def)
  moreover have "block_inv s' (b # bl)" using bi b hs by (intro block_inv_push)
  moreover have "handler s' = (handler s)\<lparr>ph_pool := Some (Elem b 0), ph_pools := Some b\<rparr>"
    by (simp add: s'_def push_pool_def set_pool_def)
  ultimately show ?thesis using run hs by blast
qed

section \<open>Allocating\<close>

definition reset_links :: "'f ProxyArgs \<Rightarrow> 'f ProxyArgs" where
  "reset_links x = x\<lparr>pa_nextPeer := None, pa_next := None\<rparr>"

lemma payload_reset_links [simp]: "payload (reset_links x) = payload x"
  by (simp add: payload_def reset_links_def)

text \<open>Taking the first operation of a free list that is not empty.\<close>

lemma allocate_pop:
  assumes q: "queue_inv s cur ring (r # fs)"
  obtains x where "heap s r = Some x" and "pool s = Some r"
    and "allocateArgs m s =
      Inr (Some r, set_pool (pa_next x) (s\<lparr>heap := (heap s)(r \<mapsto> reset_links x)\<rparr>))"
    and "queue_inv (set_pool (pa_next x) (s\<lparr>heap := (heap s)(r \<mapsto> reset_links x)\<rparr>)) cur ring fs"
proof -
  from q have pr: "pool_rep (heap s) (pool s) (r # fs)" and rep: "ring_rep (heap s) (tails s) cur ring"
    and dis: "set (r # fs) \<inter> set (ring_ops ring) = {}" by (simp_all add: queue_inv_def)
  then obtain x where x: "heap s r = Some x" by (auto simp: pool_rep_def)
  from pr have p: "pool s = Some r" by (simp add: pool_rep_def)
  have run: "allocateArgs m s =
      Inr (Some r, set_pool (pa_next x) (s\<lparr>heap := (heap s)(r \<mapsto> reset_links x)\<rparr>))"
    using x p by (simp add: allocateArgs_def Let_def reset_links_def set_pool_def)
  have "q \<noteq> r" if "q \<in> set (ring_ops ring)" for q using dis that by auto
  then have "ring_rep ((heap s)(r \<mapsto> reset_links x)) (tails s) cur ring"
    by (intro ring_rep_cong [OF _ rep]) simp
  moreover from pr x have "pool_rep (heap s) (pa_next x) fs"
    by (simp add: pool_rep_def link_at)
  then have "pool_rep ((heap s)(r \<mapsto> reset_links x)) (pa_next x) fs"
    by (rule pool_rep_cong [rotated]) (use pr in \<open>auto simp: pool_rep_def\<close>)
  ultimately have "queue_inv (set_pool (pa_next x) (s\<lparr>heap := (heap s)(r \<mapsto> reset_links x)\<rparr>)) cur ring fs"
    using q unfolding queue_inv_def by simp
  with x p run that show ?thesis by blast
qed

lemma allocate_refill:
  assumes "pool s = None" and "refill_pool m s = Inr s'" and "pool s' \<noteq> None"
  shows "allocateArgs m s = allocateArgs m s'"
  using assms by (auto simp: allocateArgs_def)

text \<open>
  \<open>taken\<close> describes the operation \<open>r\<close> that a call returns and the state it leaves: the
  operation was free or is part of the new block, its links are null, no other
  operation changed, and the rest of the state follows.
\<close>

definition taken :: "'f proxy \<Rightarrow> argref \<Rightarrow> 'f proxy \<Rightarrow> bool" where
  "taken s r s' \<longleftrightarrow>
     (\<exists>x. heap s' r = Some x \<and> pa_next x = None \<and> pa_nextPeer x = None \<and>
        payload x = payload (case heap s r of None \<Rightarrow> zero_args | Some y \<Rightarrow> y)) \<and>
     (\<forall>q \<in> dom (heap s). q \<noteq> r \<longrightarrow> heap s' q = heap s q) \<and>
     (\<forall>q \<in> dom (heap s'). q \<notin> dom (heap s) \<longrightarrow> (\<exists>v. heap s' q = Some (zero_args\<lparr>pa_next := v\<rparr>))) \<and>
     tails s' = tails s \<and> ops s' = ops s \<and> ph_stop (handler s') = ph_stop (handler s) \<and>
     ph_abortFlag (handler s') = ph_abortFlag (handler s) \<and>
     ph_proxyThread (handler s') = ph_proxyThread (handler s)"

lemma block_inv_upd:
  assumes "block_inv s bl" and "dom (heap s') = dom (heap s)" and "blocks s' = blocks s"
    and "pools s' = pools s"
  shows "block_inv s' bl"
proof -
  have "block_next s' = block_next s" using assms(3) by (simp add: fun_eq_iff block_next_def)
  with assms show ?thesis by (simp add: block_inv_def)
qed

lemma queue_step_block_inv [frame]:
  assumes "queue_step s s'" and "block_inv s bl"
  shows "block_inv s' bl"
  using assms same_payload_dom [of "heap s" "heap s'"] block_inv_upd [OF assms(2), of s']
  by (simp add: queue_step_def)

lemma allocate_from_list:
  assumes q: "queue_inv s cur ring (r # fs)" and bi: "block_inv s bl"
  shows "\<exists>s'. allocateArgs m s = Inr (Some r, s') \<and> queue_inv s' cur ring fs \<and>
     block_inv s' bl \<and> taken s r s'"
proof -
  from q obtain x where x: "heap s r = Some x" "pool s = Some r"
    and run: "allocateArgs m s =
      Inr (Some r, set_pool (pa_next x) (s\<lparr>heap := (heap s)(r \<mapsto> reset_links x)\<rparr>))"
    and inv: "queue_inv (set_pool (pa_next x) (s\<lparr>heap := (heap s)(r \<mapsto> reset_links x)\<rparr>)) cur ring fs"
    by (rule allocate_pop)
  define s' where "s' = set_pool (pa_next x) (s\<lparr>heap := (heap s)(r \<mapsto> reset_links x)\<rparr>)"
  have "block_inv s' bl"
    using bi by (rule block_inv_upd) (use x in \<open>auto simp: s'_def\<close>)
  moreover have "taken s r s'"
    using x by (auto simp: taken_def s'_def reset_links_def payload_def)
  ultimately show ?thesis using run inv by (auto simp: s'_def)
qed

lemma block_heap_new:
  "h q = None \<Longrightarrow> block_heap b h q = Some y \<Longrightarrow> \<exists>v. y = zero_args\<lparr>pa_next := v\<rparr>"
  by (cases q) (auto simp: block_heap_def split: if_splits intro: exI [of _ None])

lemma payload_zero_args:
  assumes "pa_next x = None" and "pa_nextPeer x = None"
    and "payload x = payload (zero_args\<lparr>pa_next := v\<rparr>)"
  shows "x = zero_args\<lparr>pa_next := None\<rparr>"
  using assms by (cases x) (auto simp: payload_def zero_args_def)

lemma taken_from_block:
  assumes t: "taken s1 (Elem b 0) s'" and h1: "heap s1 = block_heap b (heap s)"
    and same: "tails s1 = tails s" "handler s1 = (handler s)\<lparr>ph_pool := p, ph_pools := q\<rparr>"
    and new: "heap s (Elem b 0) = None"
    and old: "\<And>r. r \<in> dom (heap s) \<Longrightarrow> block_heap b (heap s) r = heap s r"
  shows "taken s (Elem b 0) s'"
proof -
  have b0: "heap s1 (Elem b 0) = Some (zero_args\<lparr>pa_next :=
      (if 1 < PROXYARGS_ALLOCATE_SIZE then Some (Elem b 1) else None)\<rparr>)"
    by (simp add: h1 block_heap_def)
  with t obtain x where x: "heap s' (Elem b 0) = Some x" "pa_next x = None" "pa_nextPeer x = None"
    "payload x = payload (zero_args\<lparr>pa_next :=
       (if 1 < PROXYARGS_ALLOCATE_SIZE then Some (Elem b 1) else None)\<rparr>)"
    by (auto simp: taken_def)
  have z: "x = zero_args\<lparr>pa_next := None\<rparr>" using x(2-4) by (rule payload_zero_args)
  from t have k: "\<forall>q \<in> dom (heap s1). q \<noteq> Elem b 0 \<longrightarrow> heap s' q = heap s1 q"
    and n: "\<forall>q \<in> dom (heap s'). q \<notin> dom (heap s1) \<longrightarrow>
      (\<exists>v. heap s' q = Some (zero_args\<lparr>pa_next := v\<rparr>))"
    unfolding taken_def by blast+
  have keep: "\<forall>r \<in> dom (heap s). r \<noteq> Elem b 0 \<longrightarrow> heap s' r = heap s r"
  proof (intro ballI impI)
    fix r assume r: "r \<in> dom (heap s)" "r \<noteq> Elem b 0"
    from old [OF r(1)] h1 have "heap s1 r = heap s r" by simp
    with r k show "heap s' r = heap s r" by (metis domIff)
  qed
  have zero: "\<forall>r \<in> dom (heap s'). r \<notin> dom (heap s) \<longrightarrow> (\<exists>v. heap s' r = Some (zero_args\<lparr>pa_next := v\<rparr>))"
  proof (intro ballI impI)
    fix r assume r: "r \<in> dom (heap s')" "r \<notin> dom (heap s)"
    show "\<exists>v. heap s' r = Some (zero_args\<lparr>pa_next := v\<rparr>)"
    proof (cases "r = Elem b 0 \<or> r \<notin> dom (heap s1)")
      case True
      with n r x(1) z show ?thesis by blast
    next
      case False
      with k h1 have "heap s' r = block_heap b (heap s) r" by simp
      moreover from r have "heap s r = None" and "\<exists>y. heap s' r = Some y" by auto
      ultimately show ?thesis using block_heap_new [of "heap s" r b] by metis
    qed
  qed
  have "payload x = payload zero_args" by (simp add: z payload_def)
  with t same x new keep zero show ?thesis unfolding taken_def by simp
qed

lemma allocate_from_block:
  assumes q: "queue_inv s cur ring []" and bi: "block_inv s bl" and b: "b \<notin> dom (blocks s)"
  shows "\<exists>s' fs. allocateArgs (Some b) s = Inr (Some (Elem b 0), s') \<and>
     block_elems b = Elem b 0 # fs \<and> queue_inv s' cur ring fs \<and> block_inv s' (b # bl) \<and>
     taken s (Elem b 0) s' \<and> Elem b 0 \<notin> dom (heap s)"
proof -
  from refill_correct [OF q bi b] obtain s1 where
    run: "refill_pool (Some b) s = Inr s1" and q1: "queue_inv s1 cur ring (block_elems b)"
    and b1: "block_inv s1 (b # bl)" and h1: "heap s1 = block_heap b (heap s)" "tails s1 = tails s"
      "handler s1 = (handler s)\<lparr>ph_pool := Some (Elem b 0), ph_pools := Some b\<rparr>"
    by blast
  obtain fs where fs: "block_elems b = Elem b 0 # fs" by (simp add: block_elems_Cons)
  from allocate_from_list [OF q1 [unfolded fs] b1, of "Some b"] obtain s' where
    s': "allocateArgs (Some b) s1 = Inr (Some (Elem b 0), s')" "queue_inv s' cur ring fs"
      "block_inv s' (b # bl)" "taken s1 (Elem b 0) s'" by blast
  have none: "pool s = None" using q by (auto simp: queue_inv_def pool_rep_def)
  have new: "Elem b i \<notin> dom (heap s)" for i
    using bi b by (auto simp: block_inv_def block_elems_def)
  have "taken s (Elem b 0) s'"
    using s'(4) h1 new [of 0] block_heap_old [OF b bi] by (intro taken_from_block [of s1 b s' s]) auto
  moreover have "allocateArgs (Some b) s = allocateArgs (Some b) s1"
    by (rule allocate_refill [OF none run]) (simp add: h1)
  ultimately show ?thesis using s' fs new by auto
qed

section \<open>Freeing\<close>

lemma set_pools_simps [simp]:
  "heap (set_pools p s) = heap s" "tails (set_pools p s) = tails s"
  "blocks (set_pools p s) = blocks s" "ops (set_pools p s) = ops s" "pool (set_pools p s) = pool s"
  "pools (set_pools p s) = p" "ph_stop (handler (set_pools p s)) = ph_stop (handler s)"
  "ph_abortFlag (handler (set_pools p s)) = ph_abortFlag (handler s)"
  "ph_proxyThread (handler (set_pools p s)) = ph_proxyThread (handler s)"
  by (simp_all add: set_pools_def)

lemma free_block_simps [simp]:
  "tails (free_block b s) = tails s" "handler (free_block b s) = handler s"
  "blocks (free_block b s) = (blocks s)(b := None)"
  by (simp_all add: free_block_def)

lemma free_block_dom: "dom (heap (free_block b s)) = {r \<in> dom (heap s). \<forall>i. r \<noteq> Elem b i}"
  by (auto simp: free_block_def split: argref.splits if_splits)

lemma block_inv_free:
  assumes "block_inv s (b # bl)"
  shows "block_inv (set_pools (block_next s b) (free_block b s)) bl"
proof -
  let ?s = "set_pools (block_next s b) (free_block b s)"
  from assms have nb: "b \<notin> set bl" and bs: "set bl = dom (blocks s) - {b}"
    by (auto simp: block_inv_def)
  have "lseg (block_next ?s) (block_next s b) bl None = lseg (block_next s) (block_next s b) bl None"
    by (rule lseg_cong) (use nb in \<open>auto simp: block_next_def\<close>)
  moreover have "dom (heap ?s) = (\<Union>b \<in> set bl. set (block_elems b))"
    using assms nb by (auto simp: free_block_dom block_inv_def block_elems_def)
  ultimately show ?thesis using assms bs by (auto simp: block_inv_def)
qed

lemma free_pools_correct:
  assumes "block_inv s bl"
  shows "\<exists>s'. free_pools s = Some (Inr s') \<and> blocks s' = Map.empty \<and> heap s' = Map.empty \<and>
     pools s' = None \<and> pool s' = pool s \<and> ops s' = ops s \<and> tails s' = tails s \<and>
     ph_proxyThread (handler s') = ph_proxyThread (handler s)"
  using assms
proof (induction bl arbitrary: s)
  case Nil
  then have "pools s = None" "dom (blocks s) = {}" "dom (heap s) = {}"
    by (auto simp: block_inv_def)
  then show ?case by (auto simp: free_pools.simps [of s])
next
  case (Cons b bl)
  then have b: "pools s = Some b" "b \<in> dom (blocks s)" by (auto simp: block_inv_def)
  then obtain n where n: "blocks s b = Some n" by auto
  let ?s = "set_pools (block_next s b) (free_block b s)"
  have step: "free_pools s = free_pools ?s"
    using b n by (simp add: free_pools.simps [of s] block_next_def)
  from Cons.IH [OF block_inv_free [OF Cons.prems]] show ?case unfolding step by simp
qed

text \<open>
  \<open>ProxyDestroy\<close> resets neither \<open>handler->pool\<close> nor \<open>handler->proxyThread\<close>: a free list
  that was not empty dangles, and the next \<open>allocateArgs\<close> reads freed memory.
\<close>

lemma allocate_after_free:
  assumes "heap s = Map.empty" and "pool s \<noteq> None"
  shows "allocateArgs m s = Inl WildDeref"
  using assms by (auto simp: allocateArgs_def load_def)

end
