(* ===== verification/Proxy_Thread.thy ===== *)
theory Proxy_Thread
  imports Proxy_Pool
begin

text \<open>
  The proxy thread (\<open>persistentThread\<close>), the functions of the proxy interface that talk to
  it, and the system of both: a client that calls the interface and the thread, whose steps
  interleave. A step is an access that other threads can observe: the test of the abort flag,
  a critical section, a call of a progress function.

  The condition variable is the control state \<open>W_wait\<close>: \<open>pthread_cond_wait\<close> enters it inside
  the critical section, \<open>pthread_cond_signal\<close> leaves it when the thread is there and is lost
  otherwise, and the action \<open>Wakeup\<close> is a spurious wakeup.

  What the progress functions do is the parameter \<open>run\<close>: it maps the operation's contents and
  the state \<open>'w\<close> of the outside world (the RDMA device, the cycle counter) to new ones.
\<close>

section \<open>State\<close>

text \<open>
  Control states: no thread; the head of the inner loop (the abort flag is tested); its
  critical section; waiting; the call of \<open>op->progress\<close>; the second critical section; returned.
\<close>

datatype wpc = W_none | W_check | W_fetch | W_wait | W_run | W_link | W_exit

datatype event = Progress argref | Yield

text \<open>
  The locals of \<open>persistentThread\<close> are \<open>w_op\<close>, \<open>w_idle\<close> and \<open>w_idleSpin\<close>. Three fields are
  auxiliary: \<open>log\<close> records the calls of progress functions and of \<open>sched_yield\<close>, \<open>owned\<close> the
  operations the client holds (allocated, not yet appended), \<open>joining\<close> and \<open>destroyed\<close> how far
  \<open>ProxyDestroy\<close> has come.
\<close>

record ('f, 'w) sys =
  mem :: "'f proxy"
  wpc :: wpc
  w_op :: argptr
  w_idle :: bool
  w_idleSpin :: int
  world :: 'w
  log :: "event list"
  owned :: "argref set"
  joining :: bool
  destroyed :: bool

type_synonym ('f, 'w) progress_run = "'f \<Rightarrow> 'f ProxyArgs \<times> 'w \<Rightarrow> 'f ProxyArgs \<times> 'w"

section \<open>The thread\<close>

definition worker_check :: "('f, 'w) sys \<Rightarrow> ('f, 'w) sys" where
  "worker_check S =
     (if ph_abortFlag (handler (mem S)) \<noteq> 0 then S\<lparr>wpc := W_exit\<rparr>
      else if w_op S = None then S\<lparr>wpc := W_fetch\<rparr>
      else S\<lparr>wpc := W_run\<rparr>)"

definition worker_fetch :: "('f, 'w) sys \<Rightarrow> ('f, 'w) sys" where
  "worker_fetch S =
     (let S = S\<lparr>w_op := ops (mem S)\<rparr> in
      if w_op S = None
      then (if ph_stop (handler (mem S)) then S\<lparr>wpc := W_exit\<rparr> else S\<lparr>wpc := W_wait\<rparr>)
      else S\<lparr>wpc := W_run\<rparr>)"

definition call_progress ::
  "('f, 'w) progress_run \<Rightarrow> 'f ProxyArgs \<Rightarrow> 'w \<Rightarrow> fault + 'f ProxyArgs \<times> 'w" where
  "call_progress run a w =
     (case pa_progress a of None \<Rightarrow> Inl NullCall | Some f \<Rightarrow> Inr (run f (a, w)))"

definition worker_run :: "('f, 'w) progress_run \<Rightarrow> ('f, 'w) sys \<Rightarrow> fault + ('f, 'w) sys" where
  "worker_run run S =
     sum_bind (store (w_op S) (\<lambda>a. a\<lparr>pa_idle := False\<rparr>) (mem S)) (\<lambda>m.
     sum_bind (load (w_op S) m) (\<lambda>a.
     sum_bind
       (if pa_state a \<noteq> ProxyOpNone
        then sum_bind (call_progress run a (world S)) (\<lambda>(a', w').
             sum_bind (store (w_op S) (\<lambda>_. a') m) (\<lambda>m.
             Inr (S\<lparr>mem := m, world := w', log := log S @ [Progress (the (w_op S))]\<rparr>)))
        else Inr (S\<lparr>mem := m\<rparr>)) (\<lambda>S.
     sum_bind (load (w_op S) (mem S)) (\<lambda>a.
     Inr (S\<lparr>w_idle := (w_idle S \<and> pa_idle a), wpc := W_link\<rparr>)))))"

text \<open>The end of a pass over the ring: \<open>op == handler->ops\<close>.\<close>

definition end_of_pass :: "('f, 'w) sys \<Rightarrow> ('f, 'w) sys" where
  "end_of_pass S =
     (let S = (if w_idle S
               then (let spin = w_idleSpin S + 1 in
                     if spin = 10 then S\<lparr>log := log S @ [Yield], w_idleSpin := 0\<rparr>
                     else S\<lparr>w_idleSpin := spin\<rparr>)
               else S)
      in S\<lparr>w_idle := True\<rparr>)"

definition worker_link :: "('f, 'w) sys \<Rightarrow> fault + ('f, 'w) sys" where
  "worker_link S =
     (case w_op S of
        None \<Rightarrow> Inl NullDeref
      | Some op \<Rightarrow>
          let S = (if \<not> w_idle S then S\<lparr>w_idleSpin := 0\<rparr> else S) in
          sum_bind (unlink_next op (mem S)) (\<lambda>(next, m).
          let S = S\<lparr>mem := m, w_op := next\<rparr>;
              S = (if w_op S = ops (mem S) then end_of_pass S else S)
          in Inr (S\<lparr>wpc := W_check\<rparr>)))"

fun worker_step :: "('f, 'w) progress_run \<Rightarrow> ('f, 'w) sys \<Rightarrow> fault + ('f, 'w) sys" where
  "worker_step run S =
     (case wpc S of
        W_check \<Rightarrow> Inr (worker_check S)
      | W_fetch \<Rightarrow> Inr (worker_fetch S)
      | W_run \<Rightarrow> worker_run run S
      | W_link \<Rightarrow> worker_link S
      | _ \<Rightarrow> Inr S)"

section \<open>The interface\<close>

definition signal :: "('f, 'w) sys \<Rightarrow> ('f, 'w) sys" where
  "signal S = (if wpc S = W_wait then S\<lparr>wpc := W_check\<rparr> else S)"

definition set_stop :: "bool \<Rightarrow> 'f proxy \<Rightarrow> 'f proxy" where
  "set_stop b s = s\<lparr>handler := (handler s)\<lparr>ph_stop := b\<rparr>\<rparr>"

definition ProxyCreate :: "('f, 'w) sys \<Rightarrow> ('f, 'w) sys" where
  "ProxyCreate S =
     (if \<not> ph_proxyThread (handler (mem S))
      then S\<lparr>mem := (mem S)\<lparr>handler := (handler (mem S))\<lparr>ph_stop := False, ph_ops := None,
                                                        ph_proxyThread := True\<rparr>\<rparr>,
             wpc := W_check, w_op := None, w_idle := True, w_idleSpin := 0\<rparr>
      else S)"

definition ProxyStart :: "('f, 'w) sys \<Rightarrow> ('f, 'w) sys" where
  "ProxyStart S =
     (if ops (mem S) \<noteq> None then signal (S\<lparr>mem := set_stop False (mem S)\<rparr>) else S)"

text \<open>
  \<open>ProxyDestroy\<close> up to \<open>pthread_join\<close>, and from there on: it goes on when the thread has
  returned.
\<close>

definition ProxyDestroy_begin :: "('f, 'w) sys \<Rightarrow> ('f, 'w) sys" where
  "ProxyDestroy_begin S = (signal (S\<lparr>mem := set_stop True (mem S)\<rparr>))\<lparr>joining := True\<rparr>"

definition ProxyDestroy_finish :: "('f, 'w) sys \<Rightarrow> (fault + ('f, 'w) sys) option" where
  "ProxyDestroy_finish S =
     (case free_pools (mem S) of
        None \<Rightarrow> None
      | Some (Inl e) \<Rightarrow> Some (Inl e)
      | Some (Inr m) \<Rightarrow> Some (Inr (S\<lparr>mem := m, owned := {}, destroyed := True\<rparr>)))"

text \<open>\<open>ProxyWaitAllOpFinished\<close> polls \<open>handler->ops\<close>; it returns in a state where this holds.\<close>

definition ProxyWaitAllOpFinished_returns :: "('f, 'w) sys \<Rightarrow> bool" where
  "ProxyWaitAllOpFinished_returns S \<longleftrightarrow> ops (mem S) = None"

section \<open>The system\<close>

text \<open>
  \<open>Fill r u\<close> is the client writing fields of an operation it holds, \<open>NewTail t\<close> the client
  declaring a tail cell initialised to null, \<open>Abort v\<close> the client writing the abort flag.
\<close>

datatype 'f action =
    Worker
  | Wakeup
  | Alloc "nat option"
  | Fill argref "'f ProxyArgs \<Rightarrow> 'f ProxyArgs"
  | NewTail nat
  | Append argref
  | Start
  | DestroyBegin
  | DestroyFinish
  | Abort "32 word"

fun exec :: "('f, 'w) progress_run \<Rightarrow> 'f action \<Rightarrow> ('f, 'w) sys \<Rightarrow> (fault + ('f, 'w) sys) option" where
  "exec run Worker S = Some (worker_step run S)"
| "exec run Wakeup S = Some (Inr (signal S))"
| "exec run (Alloc m) S =
     Some (sum_bind (allocateArgs m (mem S)) (\<lambda>(p, m).
       Inr (S\<lparr>mem := m, owned := set_option p \<union> owned S\<rparr>)))"
| "exec run (Fill r u) S =
     Some (sum_bind (store (Some r) u (mem S)) (\<lambda>m. Inr (S\<lparr>mem := m\<rparr>)))"
| "exec run (NewTail t) S =
     Some (Inr (S\<lparr>mem := (mem S)\<lparr>tails := (tails (mem S))(t \<mapsto> None)\<rparr>\<rparr>))"
| "exec run (Append r) S =
     Some (sum_bind (ProxyArgsAppend r (mem S)) (\<lambda>m. Inr (S\<lparr>mem := m, owned := owned S - {r}\<rparr>)))"
| "exec run Start S = Some (Inr (ProxyStart S))"
| "exec run DestroyBegin S = Some (Inr (ProxyDestroy_begin S))"
| "exec run DestroyFinish S = ProxyDestroy_finish S"
| "exec run (Abort v) S =
     Some (Inr (S\<lparr>mem := (mem S)\<lparr>handler := (handler (mem S))\<lparr>ph_abortFlag := v\<rparr>\<rparr>\<rparr>))"

text \<open>
  The rules of the interface a client has to keep: it writes and appends only operations it
  holds; what it appends has a progress function, a valid tail cell and no peer; a tail cell is
  declared once; nothing is called after \<open>ProxyDestroy\<close>, which frees when the thread has ended.
  \<open>malloc\<close> returns blocks that are not in use.
\<close>

fun legal :: "'f action \<Rightarrow> ('f, 'w) sys \<Rightarrow> bool" where
  "legal (Alloc m) S \<longleftrightarrow> \<not> destroyed S \<and> malloc_ok m (mem S)"
| "legal (Fill r u) S \<longleftrightarrow> \<not> destroyed S \<and> r \<in> owned S"
| "legal (NewTail t) S \<longleftrightarrow> \<not> destroyed S \<and> tails (mem S) t = None"
| "legal (Append r) S \<longleftrightarrow>
     \<not> destroyed S \<and> r \<in> owned S \<and> runnable (heap (mem S)) r \<and> peer (heap (mem S)) r = None \<and>
     (case tail_of (heap (mem S)) r of None \<Rightarrow> False | Some t \<Rightarrow> t \<in> dom (tails (mem S)))"
| "legal DestroyFinish S \<longleftrightarrow> \<not> destroyed S \<and> joining S \<and> wpc S = W_exit"
| "legal _ S \<longleftrightarrow> \<not> destroyed S"

text \<open>A zero-initialised handler, before \<open>ProxyCreate\<close>.\<close>

definition zero_handler :: ProxyHandler where
  "zero_handler =
     \<lparr>ph_proxyThread = False, ph_ops = None, ph_stop = False, ph_abortFlag = 0,
      ph_pool = None, ph_pools = None\<rparr>"

definition init_sys :: "'w \<Rightarrow> ('f, 'w) sys" where
  "init_sys w =
     ProxyCreate
       \<lparr>mem = \<lparr>handler = zero_handler, heap = Map.empty, tails = Map.empty, blocks = Map.empty\<rparr>,
        wpc = W_none, w_op = None, w_idle = False, w_idleSpin = 0, world = w, log = [],
        owned = {}, joining = False, destroyed = False\<rparr>"

inductive reachable :: "('f, 'w) progress_run \<Rightarrow> 'w \<Rightarrow> ('f, 'w) sys \<Rightarrow> bool"
  for run :: "('f, 'w) progress_run" and w :: 'w where
  reach_init: "reachable run w (init_sys w)"
| reach_step: "reachable run w S \<Longrightarrow> legal act S \<Longrightarrow> exec run act S = Some (Inr S') \<Longrightarrow>
     reachable run w S'"

text \<open>Sequences of actions, each of them legal where it is taken.\<close>

fun exec_all ::
  "('f, 'w) progress_run \<Rightarrow> 'f action list \<Rightarrow> ('f, 'w) sys \<Rightarrow> (fault + ('f, 'w) sys) option" where
  "exec_all run [] S = Some (Inr S)"
| "exec_all run (act # acts) S =
     (case exec run act S of
        None \<Rightarrow> None
      | Some (Inl e) \<Rightarrow> Some (Inl e)
      | Some (Inr S) \<Rightarrow> exec_all run acts S)"

fun legal_all :: "('f, 'w) progress_run \<Rightarrow> 'f action list \<Rightarrow> ('f, 'w) sys \<Rightarrow> bool" where
  "legal_all run [] S \<longleftrightarrow> True"
| "legal_all run (act # acts) S \<longleftrightarrow>
     legal act S \<and> (case exec run act S of Some (Inr S) \<Rightarrow> legal_all run acts S | _ \<Rightarrow> True)"

lemma reachable_exec_all:
  assumes "reachable run w S" and "legal_all run acts S" and "exec_all run acts S = Some (Inr S')"
  shows "reachable run w S'"
  using assms
proof (induction acts arbitrary: S)
  case (Cons act acts)
  then obtain T where "exec run act S = Some (Inr T)" "legal_all run acts T"
    "exec_all run acts T = Some (Inr S')" by (auto split: option.splits sum.splits)
  with Cons reach_step [of run w S act T] show ?case by auto
qed simp

end
