(* ===== verification/Proxy_Safety.thy ===== *)
theory Proxy_Safety
  imports Proxy_Thread
begin

text \<open>
  The invariant of the system of client and proxy thread, its preservation by every step, and
  the absence of faults: no null pointer, dangling pointer or null function is ever used in a
  reachable state, as long as the client keeps the rules of the interface (\<open>legal\<close>) and the
  progress functions leave the links of an operation alone (locale \<open>progress_functions\<close>).
\<close>

section \<open>What the thread relies on: the progress functions\<close>

locale progress_functions =
  fixes run :: "('f, 'w) progress_run"
  assumes keeps_links:
    "run f (a, w) = (a', w') \<Longrightarrow>
       pa_next a' = pa_next a \<and> pa_nextPeer a' = pa_nextPeer a \<and>
       pa_proxyTail a' = pa_proxyTail a \<and> pa_progress a' = pa_progress a"

section \<open>The invariant\<close>

text \<open>The ring is read from the thread's operation, or from \<open>handler->ops\<close> when it has none.\<close>

definition cursor :: "('f, 'w) sys \<Rightarrow> argptr" where
  "cursor S = (case w_op S of None \<Rightarrow> ops (mem S) | Some r \<Rightarrow> Some r)"

definition sys_rep :: "('f, 'w) sys \<Rightarrow> argref ring \<Rightarrow> argref list \<Rightarrow> nat list \<Rightarrow> bool" where
  "sys_rep S ring fs bl \<longleftrightarrow>
     queue_inv (mem S) (cursor S) ring fs \<and> block_inv (mem S) bl \<and>
     (\<forall>r \<in> set (ring_ops ring). runnable (heap (mem S)) r) \<and>
     owned S \<inter> (set fs \<union> set (ring_ops ring)) = {} \<and>
     dom (heap (mem S)) = owned S \<union> set fs \<union> set (ring_ops ring) \<and>
     (wpc S = W_run \<or> wpc S = W_link \<longrightarrow> w_op S \<noteq> None) \<and>
     (wpc S = W_fetch \<or> wpc S = W_wait \<longrightarrow> w_op S = None) \<and> wpc S \<noteq> W_none"

definition sys_inv :: "('f, 'w) sys \<Rightarrow> bool" where
  "sys_inv S \<longleftrightarrow> destroyed S \<or> (\<exists>ring fs bl. sys_rep S ring fs bl)"

lemma cursor_simps [simp]:
  "w_op S = Some r \<Longrightarrow> cursor S = Some r" "w_op S = None \<Longrightarrow> cursor S = ops (mem S)"
  by (simp_all add: cursor_def)

text \<open>The representation depends on the link fields of the heap only.\<close>

lemma queue_inv_links:
  assumes "queue_inv s cur ring fs"
    and "nxt (heap s') = nxt (heap s)" and "peer (heap s') = peer (heap s)"
    and "tail_of (heap s') = tail_of (heap s)" and "dom (heap s') = dom (heap s)"
    and "tails s' = tails s" and "ops s' = ops s" and "pool s' = pool s"
  shows "queue_inv s' cur ring fs"
proof -
  have "chan_rep (heap s') (tails s') t c = chan_rep (heap s) (tails s) t c" for t c
    using assms by (simp add: chan_rep_def)
  with assms show ?thesis by (simp add: queue_inv_def ring_rep_def pool_rep_def)
qed

lemma queue_inv_rotate:
  assumes q: "queue_inv s cur ring fs" and h: "h \<in> set (heads ring)"
  shows "\<exists>ring'. queue_inv s (Some h) ring' fs \<and> set (heads ring') = set (heads ring) \<and>
     set (ring_ops ring') = set (ring_ops ring) \<and> (\<forall>t. chan_of t ring' = chan_of t ring)"
proof -
  from heads_split [OF h] obtain xs t c ys where r: "ring = xs @ (t, c) # ys" and hc: "h = hd c"
    by blast
  let ?ring = "((t, c) # ys) @ xs"
  from q r have "ring_rep (heap s) (tails s) cur (xs @ (t, c) # ys)"
    by (simp add: queue_inv_def)
  from ring_rep_rotate [OF this] have "ring_rep (heap s) (tails s) (Some h) ?ring"
    by (simp add: hc)
  moreover have "set (heads ?ring) = set (heads ring)" "set (ring_ops ?ring) = set (ring_ops ring)"
    by (auto simp: r)
  moreover have "\<forall>t. chan_of t ?ring = chan_of t ring"
    using q r by (metis chan_of_rotate queue_inv_def ring_rep_def)
  ultimately show ?thesis
    using q by (intro exI [of _ ?ring]) (auto simp: queue_inv_def ops_in_def split: option.splits)
qed

lemma queue_inv_cur_hd:
  "queue_inv s (Some r) ring fs \<Longrightarrow> ring \<noteq> [] \<and> r = hd (heads ring)"
  by (cases ring) (auto simp: queue_inv_def ring_rep_def)

lemma queue_inv_None:
  "queue_inv s None ring fs \<Longrightarrow> ring = [] \<and> ops s = None"
  by (cases ring) (auto simp: queue_inv_def ring_rep_def ops_in_def split: option.splits)

text \<open>The two readings of a non-empty ring, from the thread and from \<open>handler->ops\<close>.\<close>

lemma queue_inv_cur_mem:
  "queue_inv s (Some r) ring fs \<Longrightarrow> r \<in> set (heads ring)"
  by (cases ring) (auto simp: queue_inv_def ring_rep_def)

lemma queue_inv_from_ops:
  assumes q: "queue_inv s cur ring fs"
  shows "\<exists>ring'. queue_inv s (ops s) ring' fs \<and> set (heads ring') = set (heads ring) \<and>
     set (ring_ops ring') = set (ring_ops ring) \<and> (\<forall>t. chan_of t ring' = chan_of t ring)"
proof (cases "ops s")
  case None
  with q have "ring = []" "cur = None" by (auto simp: queue_inv_def ops_in_def ring_rep_def)
  with q None show ?thesis by auto
next
  case (Some h)
  with q have "h \<in> set (heads ring)" by (simp add: queue_inv_def ops_in_def)
  with queue_inv_rotate [OF q] Some show ?thesis by simp
qed

section \<open>Steps of the client\<close>

lemma sys_rep_owned:
  assumes "sys_rep S ring fs bl" and "r \<in> owned S"
  obtains x where "heap (mem S) r = Some x" and "r \<notin> set fs" and "r \<notin> set (ring_ops ring)"
proof -
  from assms have "r \<in> dom (heap (mem S))" and "r \<notin> set fs" and "r \<notin> set (ring_ops ring)"
    unfolding sys_rep_def by blast+
  with that show ?thesis by blast
qed

lemma cursor_upd_mem: "ops m = ops (mem S) \<Longrightarrow> cursor (S\<lparr>mem := m\<rparr>) = cursor S"
  by (simp add: cursor_def split: option.splits)

lemma sys_rep_append:
  assumes rep: "sys_rep S ring fs bl" and legal: "legal (Append a) S"
  shows "\<exists>S' ring'. exec run (Append a) S = Some (Inr S') \<and> sys_rep S' ring' fs bl \<and>
     (\<forall>u. chan_of u ring' =
          chan_of u ring @ (if tail_of (heap (mem S)) a = Some u then [a] else [])) \<and>
     set (ring_ops ring') = insert a (set (ring_ops ring)) \<and> queue_step (mem S) (mem S')"
proof -
  let ?m = "mem S"
  from legal obtain t where own: "a \<in> owned S" and run: "runnable (heap ?m) a"
    and t: "tail_of (heap ?m) a = Some t" "t \<in> dom (tails ?m)" and np: "peer (heap ?m) a = None"
    by (auto split: option.splits)
  from rep have q: "queue_inv ?m (cursor S) ring fs" and bi: "block_inv ?m bl"
    by (simp_all add: sys_rep_def)
  from queue_inv_from_ops [OF q] obtain ring0 where q0: "queue_inv ?m (ops ?m) ring0 fs"
    and same: "set (heads ring0) = set (heads ring)" "set (ring_ops ring0) = set (ring_ops ring)"
      "\<forall>u. chan_of u ring0 = chan_of u ring" by blast
  have wf: "ring_wf ring0" using q0 by (simp add: queue_inv_def ring_rep_def)
  from t(1) obtain x where "heap ?m a = Some x" "pa_proxyTail x = Some t" by (auto dest: tail_of_dom)
  with rep own np t(2) same have "appendable ?m ring0 fs a t"
    by (auto simp: appendable_def sys_rep_def link_at)
  from append_implements [OF q0 this] obtain m' where run': "ProxyArgsAppend a ?m = Inr m'"
    and q1: "queue_inv m' (ops m') (ring_append t a ring0) fs" and st: "queue_step ?m m'" by blast
  let ?S = "S\<lparr>mem := m', owned := owned S - {a}\<rparr>"
  from st have sp: "same_payload (heap ?m) (heap m')" by (simp add: queue_step_def)
  have "\<exists>ring'. queue_inv m' (cursor ?S) ring' fs \<and>
      set (ring_ops ring') = insert a (set (ring_ops ring)) \<and>
      (\<forall>u. chan_of u ring' = chan_of u (ring_append t a ring0))"
  proof (cases "w_op S")
    case None
    with q1 same show ?thesis by (intro exI [of _ "ring_append t a ring0"]) simp
  next
    case (Some r)
    with q have "r \<in> set (heads ring)" by (simp add: queue_inv_cur_mem)
    then have "r \<in> set (heads (ring_append t a ring0))"
      using heads_ring_append [OF wf] same by blast
    from queue_inv_rotate [OF q1 this] Some same show ?thesis by auto
  qed
  then obtain ring' where q2: "queue_inv m' (cursor ?S) ring' fs"
    and ro: "set (ring_ops ring') = insert a (set (ring_ops ring))"
    and ch: "\<forall>u. chan_of u ring' = chan_of u (ring_append t a ring0)" by blast
  have "sys_rep ?S ring' fs bl"
    using rep q2 ro own run queue_step_block_inv [OF st bi] same_payload_frame [OF sp]
      same_payload_dom [OF sp]
    by (auto simp: sys_rep_def)
  moreover have "\<forall>u. chan_of u ring' =
      chan_of u ring @ (if tail_of (heap ?m) a = Some u then [a] else [])"
    using ch same(3) t(1) by (simp add: chan_of_append)
  ultimately show ?thesis using run' ro st
    by (intro exI [of _ ?S] exI [of _ ring']) simp
qed

lemma sys_rep_alloc:
  assumes rep: "sys_rep S ring fs bl" and legal: "legal (Alloc m) S" and m: "m \<noteq> None \<or> fs \<noteq> []"
  shows "\<exists>S' r fs' bl'. exec run (Alloc m) S = Some (Inr S') \<and> sys_rep S' ring fs' bl' \<and>
     allocateArgs m (mem S) = Inr (Some r, mem S') \<and> owned S' = insert r (owned S) \<and>
     r \<notin> owned S \<and> taken (mem S) r (mem S')"
proof -
  let ?m = "mem S"
  from rep have q: "queue_inv ?m (cursor S) ring fs" and bi: "block_inv ?m bl"
    by (simp_all add: sys_rep_def)
  have "\<exists>r m' fs' bl'. allocateArgs m ?m = Inr (Some r, m') \<and> queue_inv m' (cursor S) ring fs' \<and>
      block_inv m' bl' \<and> taken ?m r m' \<and> r \<notin> owned S \<and> r \<notin> set fs' \<and> r \<notin> set (ring_ops ring) \<and>
      dom (heap m') = insert r (owned S) \<union> set fs' \<union> set (ring_ops ring) \<and> owned S \<inter> set fs' = {}"
  proof (cases fs)
    case (Cons r fs')
    from q have dfs: "distinct fs" by (simp add: queue_inv_def pool_rep_def)
    from allocate_from_list [OF q [unfolded Cons] bi, of m] obtain m' where
      m': "allocateArgs m ?m = Inr (Some r, m')" "queue_inv m' (cursor S) ring fs'"
        "block_inv m' bl" "taken ?m r m'" by blast
    have "dom (heap m') = dom (heap ?m)" using m'(3) bi by (simp add: block_inv_def)
    with m' rep Cons dfs show ?thesis
      by (intro exI [of _ r] exI [of _ m'] exI [of _ fs'] exI [of _ bl])
        (auto simp: sys_rep_def queue_inv_def)
  next
    case Nil
    with m obtain b where b: "m = Some b" by auto
    with legal have nb: "b \<notin> dom (blocks ?m)" by (simp add: malloc_ok_def)
    from allocate_from_block [OF q [unfolded Nil] bi nb] obtain m' fs' where
      m': "allocateArgs (Some b) ?m = Inr (Some (Elem b 0), m')" "block_elems b = Elem b 0 # fs'"
        "queue_inv m' (cursor S) ring fs'" "block_inv m' (b # bl)" "taken ?m (Elem b 0) m'"
        "Elem b 0 \<notin> dom (heap ?m)" by blast
    have d: "dom (heap m') = set (block_elems b) \<union> dom (heap ?m)"
      using m'(4) bi by (auto simp: block_inv_def)
    have new: "set (block_elems b) \<inter> dom (heap ?m) = {}"
      using bi nb by (auto simp: block_inv_def block_elems_def)
    have "Elem b 0 \<notin> set fs'" using distinct_block_elems [of b] m'(2) by simp
    with m' d new rep Nil b show ?thesis
      by (intro exI [of _ "Elem b 0"] exI [of _ m'] exI [of _ fs'] exI [of _ "b # bl"])
        (auto simp: sys_rep_def)
  qed
  then obtain r m' fs' bl' where run: "allocateArgs m ?m = Inr (Some r, m')"
    and q': "queue_inv m' (cursor S) ring fs'" and b': "block_inv m' bl'" and tk: "taken ?m r m'"
    and r: "r \<notin> owned S" "r \<notin> set fs'" "r \<notin> set (ring_ops ring)" "owned S \<inter> set fs' = {}"
    and d: "dom (heap m') = insert r (owned S) \<union> set fs' \<union> set (ring_ops ring)" by blast
  let ?S = "S\<lparr>mem := m', owned := insert r (owned S)\<rparr>"
  have "cursor ?S = cursor S" using tk by (simp add: cursor_def taken_def split: option.splits)
  moreover have "runnable (heap m') q" if "q \<in> set (ring_ops ring)" for q
  proof -
    from rep that have "q \<in> dom (heap ?m)" "q \<noteq> r" using r by (auto simp: sys_rep_def)
    with tk have "heap m' q = heap ?m q" by (simp add: taken_def)
    with rep that show ?thesis by (simp add: sys_rep_def runnable_def)
  qed
  ultimately have "sys_rep ?S ring fs' bl'"
    using rep q' b' r d by (auto simp: sys_rep_def)
  moreover have "exec run (Alloc m) S = Some (Inr ?S)" by (simp add: run)
  ultimately show ?thesis using run r tk
    by (intro exI [of _ ?S] exI [of _ r] exI [of _ fs'] exI [of _ bl']) simp
qed

lemma alloc_out_of_memory:
  assumes "sys_rep S ring [] bl"
  shows "exec run (Alloc None) S = Some (Inl ExitOutOfMemory)"
  using assms
  by (simp add: sys_rep_def queue_inv_def pool_rep_def allocateArgs_def refill_pool_def calloc_pool_def)

lemma sys_rep_fill:
  assumes rep: "sys_rep S ring fs bl" and legal: "legal (Fill r u) S"
  shows "\<exists>S'. exec run (Fill r u) S = Some (Inr S') \<and> sys_rep S' ring fs bl"
proof -
  let ?m = "mem S"
  from legal have "r \<in> owned S" by simp
  with rep obtain x where x: "heap ?m r = Some x"
    and nr: "r \<notin> set fs" "r \<notin> set (ring_ops ring)" by (rule sys_rep_owned)
  let ?m' = "?m\<lparr>heap := (heap ?m)(r \<mapsto> u x)\<rparr>"
  from rep have rr: "ring_rep (heap ?m) (tails ?m) (cursor S) ring" and pr: "pool_rep (heap ?m) (pool ?m) fs"
    by (simp_all add: sys_rep_def queue_inv_def)
  have "ring_rep ((heap ?m)(r \<mapsto> u x)) (tails ?m) (cursor S) ring"
    by (rule ring_rep_cong [OF _ rr]) (use nr in auto)
  moreover have "pool_rep ((heap ?m)(r \<mapsto> u x)) (pool ?m) fs"
    by (rule pool_rep_cong [OF _ pr]) (use nr in auto)
  moreover have "block_inv ?m' bl"
    by (rule block_inv_upd [of ?m]) (use rep x in \<open>auto simp: sys_rep_def\<close>)
  moreover have "cursor (S\<lparr>mem := ?m'\<rparr>) = cursor S" by (rule cursor_upd_mem) simp
  moreover have "runnable (heap ?m') q" if "q \<in> set (ring_ops ring)" for q
    using rep that nr by (auto simp: sys_rep_def runnable_def)
  ultimately have "sys_rep (S\<lparr>mem := ?m'\<rparr>) ring fs bl"
    using rep x legal by (auto simp: sys_rep_def queue_inv_def)
  with x show ?thesis by simp
qed

lemma sys_rep_new_tail:
  assumes rep: "sys_rep S ring fs bl" and legal: "legal (NewTail t) S"
  shows "\<exists>S'. exec run (NewTail t) S = Some (Inr S') \<and> sys_rep S' ring fs bl"
proof -
  let ?m = "mem S"
  let ?m' = "?m\<lparr>tails := (tails ?m)(t \<mapsto> None)\<rparr>"
  from legal have t: "tails ?m t = None" by simp
  from rep have rr: "ring_rep (heap ?m) (tails ?m) (cursor S) ring"
    by (simp add: sys_rep_def queue_inv_def)
  have "ring_rep (heap ?m') (tails ?m') (cursor S) ring"
  proof (rule ring_repI)
    show "chan_rep (heap ?m') (tails ?m') v c" if "(v, c) \<in> set ring" for v c
    proof -
      from ring_rep_chan [OF rr that] have "chan_rep (heap ?m) (tails ?m) v c" .
      moreover from this t have "t \<noteq> v" by (auto simp: chan_rep_def)
      ultimately show ?thesis by simp
    qed
    show "v \<in> fst ` set ring" if "tails ?m' v = Some (Some p)" for v p
      using that rr by (auto simp: ring_rep_def split: if_splits)
  qed (use rr in \<open>auto simp: ring_rep_def\<close>)
  moreover have "block_inv ?m' bl"
    by (rule block_inv_upd [of ?m]) (use rep in \<open>auto simp: sys_rep_def\<close>)
  moreover have "cursor (S\<lparr>mem := ?m'\<rparr>) = cursor S" by (rule cursor_upd_mem) simp
  ultimately have "sys_rep (S\<lparr>mem := ?m'\<rparr>) ring fs bl"
    using rep by (auto simp: sys_rep_def queue_inv_def)
  then show ?thesis by simp
qed

section \<open>Steps of the thread\<close>

lemma sys_rep_check:
  assumes "sys_rep S ring fs bl" and "wpc S = W_check"
  shows "sys_rep (worker_check S) ring fs bl"
  using assms by (auto simp: sys_rep_def worker_check_def cursor_def)

lemma sys_rep_fetch:
  assumes "sys_rep S ring fs bl" and "wpc S = W_fetch"
  shows "sys_rep (worker_fetch S) ring fs bl"
  using assms by (auto simp: sys_rep_def worker_fetch_def Let_def cursor_def split: option.splits)

lemma sys_rep_current:
  assumes rep: "sys_rep S ring fs bl" and op: "w_op S = Some r"
  obtains a f where "heap (mem S) r = Some a" and "pa_progress a = Some f"
    and "r \<in> set (heads ring)" and "r \<in> set (ring_ops ring)"
proof -
  from rep op have q: "queue_inv (mem S) (Some r) ring fs" by (simp add: sys_rep_def)
  then have h: "r \<in> set (heads ring)" by (rule queue_inv_cur_mem)
  from q have "ring_wf ring" by (simp add: queue_inv_def ring_rep_def)
  with h have ro: "r \<in> set (ring_ops ring)" using set_heads_subset by blast
  with rep have "runnable (heap (mem S)) r" by (simp add: sys_rep_def)
  then obtain a f where "heap (mem S) r = Some a" "pa_progress a = Some f"
    by (auto simp: runnable_def split: option.splits)
  with h ro that show ?thesis by blast
qed

text \<open>An update of one operation that keeps its links keeps the invariant.\<close>

lemma sys_rep_upd:
  assumes rep: "sys_rep S ring fs bl" and a: "heap (mem S) r = Some a"
    and keep: "pa_next a' = pa_next a" "pa_nextPeer a' = pa_nextPeer a"
      "pa_proxyTail a' = pa_proxyTail a" "pa_progress a' = pa_progress a"
    and S': "mem S' = (mem S)\<lparr>heap := (heap (mem S))(r \<mapsto> a')\<rparr>" "w_op S' = w_op S"
      "owned S' = owned S"
    and pc: "wpc S' = W_link" "w_op S \<noteq> None"
  shows "sys_rep S' ring fs bl"
proof -
  let ?h = "(heap (mem S))(r \<mapsto> a')"
  have links: "nxt ?h = nxt (heap (mem S))" "peer ?h = peer (heap (mem S))"
    "tail_of ?h = tail_of (heap (mem S))" "runnable ?h = runnable (heap (mem S))"
    "dom ?h = dom (heap (mem S))"
    using a keep by (auto simp: fun_eq_iff link_defs)
  have "cursor S' = cursor S" using S' by (simp add: cursor_def split: option.splits)
  moreover from rep have "queue_inv (mem S) (cursor S) ring fs" by (simp add: sys_rep_def)
  then have "queue_inv (mem S') (cursor S) ring fs"
    by (rule queue_inv_links) (use links S' in simp_all)
  moreover have "block_inv (mem S') bl"
    by (rule block_inv_upd [of "mem S"]) (use rep links S' in \<open>simp_all add: sys_rep_def\<close>)
  ultimately show ?thesis
    using rep links S' pc by (simp add: sys_rep_def)
qed

text \<open>The state after \<open>op->idle = 0\<close>, the call, and \<open>idle &= op->idle\<close>.\<close>

definition ran :: "('f, 'w) progress_run \<Rightarrow> 'f \<Rightarrow> 'f ProxyArgs \<Rightarrow> 'w \<Rightarrow> 'f ProxyArgs \<times> 'w" where
  "ran run f a w =
     (if pa_state a = ProxyOpNone then (a\<lparr>pa_idle := False\<rparr>, w)
      else run f (a\<lparr>pa_idle := False\<rparr>, w))"

lemma worker_run_eq:
  assumes "w_op S = Some r" and "heap (mem S) r = Some a" and "pa_progress a = Some f"
    and "ran run f a (world S) = (a', w')"
  shows "worker_run run S = Inr (S\<lparr>
      mem := (mem S)\<lparr>heap := (heap (mem S))(r \<mapsto> a')\<rparr>, world := w',
      log := log S @ (if pa_state a = ProxyOpNone then [] else [Progress r]),
      w_idle := (w_idle S \<and> pa_idle a'), wpc := W_link\<rparr>)"
  using assms by (auto simp: worker_run_def call_progress_def ran_def split: if_splits)

context progress_functions
begin

lemma ran_keeps:
  assumes "ran run f a w = (a', w')"
  shows "pa_next a' = pa_next a" and "pa_nextPeer a' = pa_nextPeer a"
    and "pa_proxyTail a' = pa_proxyTail a" and "pa_progress a' = pa_progress a"
  using assms keeps_links [of f "a\<lparr>pa_idle := False\<rparr>" w a' w']
  by (auto simp: ran_def split: if_splits)

lemma sys_rep_run:
  assumes rep: "sys_rep S ring fs bl" and pc: "wpc S = W_run"
  shows "\<exists>S'. worker_run run S = Inr S' \<and> sys_rep S' ring fs bl"
proof -
  from rep pc obtain r where op: "w_op S = Some r" by (auto simp: sys_rep_def)
  from rep op obtain a f where a: "heap (mem S) r = Some a" "pa_progress a = Some f"
    by (rule sys_rep_current)
  obtain a' w' where r: "ran run f a (world S) = (a', w')" by fastforce
  show ?thesis
  proof (intro exI conjI)
    show "worker_run run S = Inr (S\<lparr>
      mem := (mem S)\<lparr>heap := (heap (mem S))(r \<mapsto> a')\<rparr>, world := w',
      log := log S @ (if pa_state a = ProxyOpNone then [] else [Progress r]),
      w_idle := (w_idle S \<and> pa_idle a'), wpc := W_link\<rparr>)" (is "_ = Inr ?S")
      using op a r by (rule worker_run_eq)
    show "sys_rep ?S ring fs bl"
      by (rule sys_rep_upd [OF rep a(1) ran_keeps [OF r]]) (simp_all add: op)
  qed
qed

end

lemma end_of_pass_simps [simp]:
  "mem (end_of_pass S) = mem S" "wpc (end_of_pass S) = wpc S" "w_op (end_of_pass S) = w_op S"
  "world (end_of_pass S) = world S" "owned (end_of_pass S) = owned S"
  "joining (end_of_pass S) = joining S" "destroyed (end_of_pass S) = destroyed S"
  "w_idle (end_of_pass S)"
  by (simp_all add: end_of_pass_def Let_def)

lemma sys_rep_link:
  assumes rep: "sys_rep S ring fs bl" and pc: "wpc S = W_link"
  shows "\<exists>S'. worker_link S = Inr S' \<and>
     sys_rep S' (ring_advance (op_done (heap (mem S))) ring)
       (retire_to (ring_retired (op_done (heap (mem S))) ring) fs) bl \<and>
     unlink_next (the (w_op S)) (mem S) = Inr (w_op S', mem S') \<and> wpc S' = W_check \<and>
     queue_step (mem S) (mem S') \<and> destroyed S' = destroyed S \<and>
     (w_op S' = None \<longrightarrow>
        ring_advance (op_done (heap (mem S))) ring = [] \<and> ops (mem S') = None)"
proof -
  let ?d = "op_done (heap (mem S))"
  let ?ring = "ring_advance ?d ring"
  from rep pc obtain r where op: "w_op S = Some r" by (auto simp: sys_rep_def)
  from rep op have q: "queue_inv (mem S) (Some r) ring fs" by (simp add: sys_rep_def)
  then have wf: "ring_wf ring" by (simp add: queue_inv_def ring_rep_def)
  from unlink_implements [OF q] obtain nx m where u: "unlink_next r (mem S) = Inr (nx, m)"
    and q': "queue_inv m nx ?ring (retire_to (ring_retired ?d ring) fs)"
    and st: "queue_step (mem S) m" by blast
  obtain S' where S': "worker_link S = Inr S'" "mem S' = m" "w_op S' = nx" "owned S' = owned S"
    "wpc S' = W_check" "destroyed S' = destroyed S"
    using op u by (cases "w_idle S") (auto simp: worker_link_def Let_def)
  have cur: "cursor S' = nx"
    using queue_inv_None [of m] q' S' by (cases nx) auto
  from st have sp: "same_payload (heap (mem S)) (heap m)" by (simp add: queue_step_def)
  have un: "set (retire_to (ring_retired ?d ring) fs) \<union> set (ring_ops ?ring) =
      set fs \<union> set (ring_ops ring)"
  proof -
    have "set_option (ring_retired ?d ring) \<subseteq> set (ring_ops ring)"
      using set_heads_subset [OF ring_wf_rotate1 [OF wf]] set_ring_ops_rotate1 [of ring]
      by (auto simp: ring_retired_def split: list.splits if_splits)
    then show ?thesis by (auto simp: set_ring_ops_advance [OF wf] split: option.splits)
  qed
  moreover have "block_inv m bl" using rep st by (auto simp: sys_rep_def intro: queue_step_block_inv)
  ultimately have "sys_rep S' ?ring (retire_to (ring_retired ?d ring) fs) bl"
    using rep q' S' cur same_payload_frame [OF sp] same_payload_dom [OF sp]
      set_ring_ops_advance [OF wf, of ?d]
    by (auto simp: sys_rep_def Un_assoc)
  moreover have "nx = None \<longrightarrow> ?ring = [] \<and> ops m = None" using queue_inv_None q' by blast
  ultimately show ?thesis using S' u op st by (intro exI [of _ S']) simp
qed

section \<open>Signals, flags and destruction\<close>

text \<open>A step that changes flags of the handler, or wakes the thread up, keeps the invariant.\<close>

definition same_data :: "('f, 'w) sys \<Rightarrow> ('f, 'w) sys \<Rightarrow> bool" where
  "same_data S S' \<longleftrightarrow>
     heap (mem S') = heap (mem S) \<and> tails (mem S') = tails (mem S) \<and>
     blocks (mem S') = blocks (mem S) \<and> ops (mem S') = ops (mem S) \<and>
     pool (mem S') = pool (mem S) \<and> pools (mem S') = pools (mem S) \<and>
     w_op S' = w_op S \<and> owned S' = owned S \<and> destroyed S' = destroyed S \<and>
     (wpc S' = wpc S \<or> wpc S = W_wait \<and> wpc S' = W_check)"

lemma sys_rep_same_data:
  assumes "sys_rep S ring fs bl" and d: "same_data S S'"
  shows "sys_rep S' ring fs bl"
proof -
  have "cursor S' = cursor S" using d by (simp add: same_data_def cursor_def split: option.splits)
  moreover have "queue_inv (mem S') (cursor S) ring fs"
    by (rule queue_inv_links [of "mem S"])
      (use assms in \<open>simp_all add: sys_rep_def same_data_def\<close>)
  moreover have "block_inv (mem S') bl"
    by (rule block_inv_upd [of "mem S"])
      (use assms in \<open>simp_all add: sys_rep_def same_data_def\<close>)
  ultimately show ?thesis
    using assms unfolding sys_rep_def same_data_def by auto
qed

lemma same_data_steps [simp]:
  "same_data S (signal S)"
  "same_data S (ProxyStart S)"
  "same_data S (ProxyDestroy_begin S)"
  "same_data S (S\<lparr>mem := (mem S)\<lparr>handler := (handler (mem S))\<lparr>ph_abortFlag := v\<rparr>\<rparr>\<rparr>)"
  by (simp_all add: same_data_def signal_def ProxyStart_def ProxyDestroy_begin_def set_stop_def)

lemma sys_rep_destroy:
  assumes "sys_rep S ring fs bl"
  shows "\<exists>S'. ProxyDestroy_finish S = Some (Inr S') \<and> destroyed S' \<and>
     heap (mem S') = Map.empty \<and> blocks (mem S') = Map.empty \<and>
     pools (mem S') = None \<and> pool (mem S') = pool (mem S) \<and> ops (mem S') = ops (mem S) \<and>
     ph_proxyThread (handler (mem S')) = ph_proxyThread (handler (mem S))"
  using free_pools_correct [of "mem S" bl] assms
  by (auto simp: sys_rep_def ProxyDestroy_finish_def)

section \<open>Every step keeps the invariant\<close>

text \<open>
  What a step does to the operations of channel \<open>t\<close>: appending to the channel adds the operation
  at the end, the thread removes at most the first one, and only when it is done.
\<close>

definition chan_change ::
  "'f action \<Rightarrow> ('f, 'w) sys \<Rightarrow> nat \<Rightarrow> argref list \<Rightarrow> argref list \<Rightarrow> bool" where
  "chan_change act S t c c' \<longleftrightarrow>
     (case act of
        Append a \<Rightarrow> c' = c @ (if tail_of (heap (mem S)) a = Some t then [a] else [])
      | Worker \<Rightarrow> c' = c \<or> (\<exists>h. c = h # c' \<and> op_done (heap (mem S)) h)
      | _ \<Rightarrow> c' = c)"

context progress_functions
begin

lemma sys_rep_worker:
  assumes rep: "sys_rep S ring fs bl"
  shows "\<exists>S' ring' fs'. worker_step run S = Inr S' \<and> sys_rep S' ring' fs' bl \<and>
     (\<forall>t. chan_change Worker S t (chan_of t ring) (chan_of t ring'))"
proof (cases "wpc S")
  case W_none
  with rep show ?thesis by (simp add: sys_rep_def)
next
  case W_check
  with sys_rep_check [OF rep] show ?thesis by (auto simp: chan_change_def)
next
  case W_fetch
  with sys_rep_fetch [OF rep] show ?thesis by (auto simp: chan_change_def)
next
  case W_run
  with sys_rep_run [OF rep] show ?thesis by (auto simp: chan_change_def)
next
  case W_link
  from rep have "ring_wf ring" by (simp add: sys_rep_def queue_inv_def ring_rep_def)
  then have "\<forall>t. chan_change Worker S t (chan_of t ring)
      (chan_of t (ring_advance (op_done (heap (mem S))) ring))"
    using chan_of_advance by (fastforce simp: chan_change_def)
  with sys_rep_link [OF rep W_link] W_link show ?thesis by (auto simp del: split_paired_Ex)
qed (use rep in \<open>auto simp: chan_change_def\<close>)

lemma sys_rep_exec:
  assumes rep: "sys_rep S ring fs bl" and legal: "legal act S" and act: "act \<noteq> DestroyFinish"
    and mem: "act \<noteq> Alloc None \<or> fs \<noteq> []"
  shows "\<exists>S' ring' fs' bl'. exec run act S = Some (Inr S') \<and> sys_rep S' ring' fs' bl' \<and>
     (\<forall>t. chan_change act S t (chan_of t ring) (chan_of t ring'))"
proof -
  have data: "\<exists>ring' fs' bl'. sys_rep S' ring' fs' bl' \<and> (\<forall>t. chan_of t ring' = chan_of t ring)"
    if "same_data S S'" for S'
    using sys_rep_same_data [OF rep that] by blast
  show ?thesis
  proof (cases act)
    case Worker
    with sys_rep_worker [OF rep] show ?thesis by auto
  next
    case (Alloc m)
    from mem Alloc have "m \<noteq> None \<or> fs \<noteq> []" by simp
    with sys_rep_alloc [OF rep, of m run] legal show ?thesis
      unfolding Alloc chan_change_def action.case by blast
  next
    case (Fill r u)
    with sys_rep_fill [OF rep, of r u run] legal show ?thesis
      unfolding Fill chan_change_def action.case by blast
  next
    case (NewTail t)
    with sys_rep_new_tail [OF rep, of t run] legal show ?thesis
      unfolding NewTail chan_change_def action.case by blast
  next
    case (Append r)
    with sys_rep_append [OF rep, of r run] legal show ?thesis
      unfolding Append chan_change_def action.case by blast
  qed (use data act in \<open>simp_all add: chan_change_def\<close>)
qed

lemma sys_inv_exec:
  assumes inv: "sys_inv S" and legal: "legal act S"
  shows "(\<exists>S'. exec run act S = Some (Inr S') \<and> sys_inv S') \<or>
     act = Alloc None \<and> exec run act S = Some (Inl ExitOutOfMemory)"
proof -
  from legal have "\<not> destroyed S" by (cases act) auto
  with inv obtain ring fs bl where rep: "sys_rep S ring fs bl" by (auto simp: sys_inv_def)
  consider "act = DestroyFinish" | "act = Alloc None" "fs = []"
    | "act \<noteq> DestroyFinish" "act \<noteq> Alloc None \<or> fs \<noteq> []" by blast
  then show ?thesis
  proof cases
    case 1
    with sys_rep_destroy [OF rep] show ?thesis by (auto simp: sys_inv_def)
  next
    case 2
    with alloc_out_of_memory [of S ring bl run] rep show ?thesis by simp
  next
    case 3
    with sys_rep_exec [OF rep legal] show ?thesis unfolding sys_inv_def by blast
  qed
qed

lemma sys_inv_reachable: "reachable run w S \<Longrightarrow> sys_inv S"
proof (induction rule: reachable.induct)
  case reach_init
  have "sys_rep (init_sys w :: ('f, 'w) sys) [] [] []"
    by (simp add: sys_rep_def init_sys_def ProxyCreate_def zero_handler_def queue_inv_def ring_rep_def
        pool_rep_def ops_in_def block_inv_def)
  then show ?case by (auto simp: sys_inv_def)
next
  case (reach_step S act S')
  with sys_inv_exec [of S act] show ?case by auto
qed

lemma reachable_rep:
  assumes "reachable run w S" and "\<not> destroyed S"
  obtains ring fs bl where "sys_rep S ring fs bl"
  using sys_inv_reachable [OF assms(1)] assms(2) by (auto simp: sys_inv_def)

end

section \<open>The log\<close>

lemma worker_link_log:
  "worker_link S = Inr S' \<Longrightarrow> log S' = log S \<or> log S' = log S @ [Yield]"
  by (cases "w_idle S")
    (auto simp: worker_link_def sum_bind_eq_Inr Let_def end_of_pass_def split: option.splits if_splits)

lemma worker_run_log:
  "worker_run run S = Inr S' \<Longrightarrow>
     log S' = log S \<or> log S' = log S @ [Progress (the (w_op S))] \<and> w_op S \<noteq> None"
  by (cases "w_op S") (auto simp: worker_run_def store_def sum_bind_eq_Inr split: if_splits prod.splits)

lemma worker_step_log:
  assumes "worker_step run S = Inr S'" and "log S' = log S @ [Progress r]"
  shows "w_op S = Some r"
proof (cases "wpc S")
  case W_run
  with assms worker_run_log [of run S S'] show ?thesis by auto
next
  case W_link
  with assms worker_link_log [of S S'] show ?thesis by auto
qed (use assms in \<open>auto simp: worker_check_def worker_fetch_def Let_def split: if_splits\<close>)

section \<open>Sleeping\<close>

text \<open>
  The thread sleeps although there is work. Only \<open>ProxyArgsAppend\<close> can lead there (the interface
  makes the client call \<open>ProxyStart\<close> after it), and \<open>ProxyStart\<close> and \<open>ProxyDestroy\<close> lead out.
\<close>

definition sleeps_with_work :: "('f, 'w) sys \<Rightarrow> bool" where
  "sleeps_with_work S \<longleftrightarrow> wpc S = W_wait \<and> ops (mem S) \<noteq> None"

lemma worker_run_wpc: "worker_run run S = Inr S' \<Longrightarrow> wpc S' = W_link"
  by (auto simp: worker_run_def sum_bind_eq_Inr)

lemma worker_link_wpc: "worker_link S = Inr S' \<Longrightarrow> wpc S' = W_check"
  by (auto simp: worker_link_def sum_bind_eq_Inr Let_def split: option.splits)

lemma worker_step_waits:
  assumes "worker_step run S = Inr S'" and "wpc S' = W_wait"
  shows "S' = S \<or> wpc S = W_fetch \<and> ops (mem S') = None"
proof (cases "wpc S")
  case W_fetch
  with assms show ?thesis by (auto simp: worker_fetch_def Let_def split: if_splits)
qed (use assms in \<open>auto simp: worker_check_def dest: worker_run_wpc worker_link_wpc split: if_splits\<close>)

lemma link_elems_handler: "link_elems b is s = Inr s' \<Longrightarrow> handler s' = handler s"
  by (induction "is" arbitrary: s)
    (auto simp: sum_bind_eq_Inr store_def split: if_splits option.splits)

lemma store_handler: "store p u s = Inr s' \<Longrightarrow> handler s' = handler s"
  by (auto simp: store_def split: option.splits)

lemma refill_pool_ops: "refill_pool m s = Inr s' \<Longrightarrow> ops s' = ops s"
  by (auto simp: refill_pool_def calloc_pool_def sum_bind_eq_Inr push_pool_def
      dest!: link_elems_handler split: option.splits)

lemma allocateArgs_ops: "allocateArgs m s = Inr (p, s') \<Longrightarrow> ops s' = ops s"
  by (auto simp: allocateArgs_def Let_def sum_bind_eq_Inr refill_pool_ops
      dest!: store_handler split: if_splits)

lemma exec_sleeps:
  assumes step: "exec run act S = Some (Inr S')" and sleep: "sleeps_with_work S'"
    and act: "\<nexists>r. act = Append r" "act \<noteq> DestroyFinish"
  shows "sleeps_with_work S \<and> act \<noteq> Start \<and> act \<noteq> DestroyBegin"
proof (cases act)
  case Worker
  with step sleep worker_step_waits [of run S S'] show ?thesis by (auto simp: sleeps_with_work_def)
next
  case (Alloc m)
  with step obtain p m' where "allocateArgs m (mem S) = Inr (p, m')" "mem S' = m'" "wpc S' = wpc S"
    by (auto simp: sum_bind_eq_Inr)
  with sleep Alloc allocateArgs_ops show ?thesis by (fastforce simp: sleeps_with_work_def)
qed (use assms in \<open>auto simp: sleeps_with_work_def signal_def ProxyStart_def ProxyDestroy_begin_def
       set_stop_def sum_bind_eq_Inr store_def split: if_splits option.splits\<close>)

end
