(* ===== verification/Proxy_Drain.thy ===== *)
theory Proxy_Drain
  imports Proxy_Safety
begin

text \<open>
  Progress of the proxy thread: when every queued operation is one whose progress function
  finishes after finitely many calls (locale \<open>terminating_progress\<close>), the thread empties the
  queue in finitely many steps, so \<open>ProxyWaitAllOpFinished\<close> returns, and after
  \<open>ProxyDestroy\<close> has set the stop flag the thread returns, so \<open>pthread_join\<close> does.
\<close>

section \<open>Progress functions that finish\<close>

text \<open>
  \<open>good f a\<close> holds of contents \<open>a\<close> that the calls of \<open>f\<close> keep in order until they finish. In
  \<open>terminating_progress\<close> they do finish: \<open>rank f a\<close> bounds the calls that get on, and between two
  of those there are at most as many that do not as \<open>patience\<close> says of the device. Neither \<open>good\<close>
  nor \<open>rank\<close> reads the links or the \<open>idle\<close> field.
\<close>

definition work :: "'f ProxyArgs \<Rightarrow> 'f ProxyArgs" where
  "work a = a\<lparr>pa_idle := False, pa_next := None, pa_nextPeer := None\<rparr>"

locale keeping_progress = progress_functions run
  for run :: "('f, 'w) progress_run" +
  fixes good :: "'f \<Rightarrow> 'f ProxyArgs \<Rightarrow> bool"
  assumes good_work: "good f (work a) = good f a"
    and good_step: "good f a \<Longrightarrow> pa_state a \<noteq> ProxyOpNone \<Longrightarrow> run f (a, w) = (a', w') \<Longrightarrow>
        pa_state a' = ProxyOpNone \<or> good f a'"

locale terminating_progress = keeping_progress run good
  for run :: "('f, 'w) progress_run" and good :: "'f \<Rightarrow> 'f ProxyArgs \<Rightarrow> bool" +
  fixes rank :: "'f \<Rightarrow> 'f ProxyArgs \<Rightarrow> nat" and patience :: "'w \<Rightarrow> nat"
  assumes rank_work: "rank f (work a) = rank f a"
    and rank_step: "good f a \<Longrightarrow> pa_state a \<noteq> ProxyOpNone \<Longrightarrow> run f (a, w) = (a', w') \<Longrightarrow>
        pa_state a' = ProxyOpNone \<or> rank f a' < rank f a \<or>
        rank f a' = rank f a \<and> patience w' < patience w"

section \<open>Steps of the thread alone\<close>

fun steps :: "('f, 'w) progress_run \<Rightarrow> nat \<Rightarrow> ('f, 'w) sys \<Rightarrow> fault + ('f, 'w) sys" where
  "steps run 0 S = Inr S"
| "steps run (Suc n) S = sum_bind (worker_step run S) (steps run n)"

lemma steps_add: "steps run (m + n) S = sum_bind (steps run m S) (steps run n)"
proof (induction m arbitrary: S)
  case (Suc m)
  then have "steps run (m + n) = (\<lambda>S. sum_bind (steps run m S) (steps run n))" by (rule ext)
  then show ?case by (simp add: sum_bind_assoc del: worker_step.simps)
qed simp

lemma steps_trans:
  "steps run m S = Inr S' \<Longrightarrow> steps run n S' = Inr S'' \<Longrightarrow> steps run (m + n) S = Inr S''"
  by (simp add: steps_add)

text \<open>What the thread leaves alone.\<close>

definition same_flags :: "('f, 'w) sys \<Rightarrow> ('f, 'w) sys \<Rightarrow> bool" where
  "same_flags S S' \<longleftrightarrow>
     ph_stop (handler (mem S')) = ph_stop (handler (mem S)) \<and>
     ph_abortFlag (handler (mem S')) = ph_abortFlag (handler (mem S))"

lemma same_flags_refl [simp]: "same_flags S S"
  by (simp add: same_flags_def)

lemma same_flags_trans: "same_flags S S' \<Longrightarrow> same_flags S' S'' \<Longrightarrow> same_flags S S''"
  by (simp add: same_flags_def)

lemma work_payload: "work a = (payload a)\<lparr>pa_idle := False\<rparr>"
  by (cases a) (simp add: payload_def work_def)

lemma work_eq_if_payload: "payload a' = payload a \<Longrightarrow> work a' = work a"
  by (simp add: work_payload)

lemma work_idle: "work (a\<lparr>pa_idle := b\<rparr>) = work a"
  by (simp add: work_def)

text \<open>The current operation is done already (it is unlinked when the thread comes round).\<close>

definition current_done :: "('f, 'w) sys \<Rightarrow> bool" where
  "current_done S \<longleftrightarrow> (case w_op S of None \<Rightarrow> False | Some r \<Rightarrow> op_done (heap (mem S)) r)"

text \<open>
  An operation in memory from which the thread gets to the end: it is done, or its progress
  function finishes. \<open>ops_good\<close> says so of every operation.
\<close>

definition op_good :: "('f \<Rightarrow> 'f ProxyArgs \<Rightarrow> bool) \<Rightarrow> 'f heap \<Rightarrow> argref \<Rightarrow> bool" where
  "op_good good h r = (case h r of
     None \<Rightarrow> True
   | Some a \<Rightarrow> pa_state a = ProxyOpNone \<or>
       (case pa_progress a of None \<Rightarrow> True | Some f \<Rightarrow> good f a))"

definition ops_good :: "('f \<Rightarrow> 'f ProxyArgs \<Rightarrow> bool) \<Rightarrow> ('f, 'w) sys \<Rightarrow> bool" where
  "ops_good good S \<longleftrightarrow> (\<forall>r \<in> dom (heap (mem S)). op_good good (heap (mem S)) r)"

definition all_good ::
  "('f \<Rightarrow> 'f ProxyArgs \<Rightarrow> bool) \<Rightarrow> ('f, 'w) sys \<Rightarrow> argref ring \<Rightarrow> bool" where
  "all_good good S ring \<longleftrightarrow> (\<forall>r \<in> set (ring_ops ring). op_good good (heap (mem S)) r)"

lemma all_good_Nil [simp]: "all_good good S []"
  by (simp add: all_good_def)

lemma all_good_same: "heap (mem S') = heap (mem S) \<Longrightarrow> all_good good S' ring = all_good good S ring"
  by (simp add: all_good_def)

context progress_functions
begin

lemma sys_rep_steps:
  "sys_rep S ring fs bl \<Longrightarrow> \<exists>S' ring' fs'. steps run n S = Inr S' \<and> sys_rep S' ring' fs' bl"
proof (induction n arbitrary: S ring fs)
  case (Suc n)
  from sys_rep_worker [OF Suc.prems] obtain T ring' fs' where
    T: "worker_step run S = Inr T" "sys_rep T ring' fs' bl" by blast
  from Suc.IH [OF T(2)] T(1) show ?case by (simp del: worker_step.simps)
qed auto

end

lemma worker_link_world: "worker_link S = Inr S' \<Longrightarrow> world S' = world S"
  by (cases "w_idle S") (auto simp: worker_link_def sum_bind_eq_Inr Let_def split: option.splits if_splits)

section \<open>Calls that keep an operation in order\<close>

context keeping_progress
begin

lemma good_payload:
  assumes "same_payload h h'"
  shows "op_good good h' = op_good good h"
proof
  fix r
  show "op_good good h' r = op_good good h r"
  proof (cases "h r")
    case None
    with assms have "h' r = None" by (metis option.map_disc_iff same_payload_def)
    with None show ?thesis by (simp add: op_good_def)
  next
    case (Some a)
    with assms obtain a' where a': "h' r = Some a'" "payload a' = payload a"
      by (rule same_payload_at)
    from a'(2) have "work a' = work a" by (rule work_eq_if_payload)
    then have "good f a' = good f a" for f
      using good_work [of f a] good_work [of f a'] by simp
    with Some a' show ?thesis by (simp add: op_good_def payload_fields [of a' a] split: option.split)
  qed
qed

lemma good_idle: "good f (a\<lparr>pa_idle := b\<rparr>) = good f a"
  using good_work [of f a] good_work [of f "a\<lparr>pa_idle := b\<rparr>"] by (simp add: work_idle)

lemma ran_good:
  assumes a: "h r = Some a" "pa_progress a = Some f" and g: "op_good good h r"
    and ran: "ran run f a w = (a', w')"
  shows "op_good good (h(r \<mapsto> a')) r"
proof (cases "pa_state a = ProxyOpNone")
  case True
  with ran have "a' = a\<lparr>pa_idle := False\<rparr>" by (simp add: ran_def)
  with True a g show ?thesis by (simp add: op_good_def)
next
  case False
  with a g have "good f (a\<lparr>pa_idle := False\<rparr>)" by (simp add: op_good_def good_idle)
  moreover from False ran have "run f (a\<lparr>pa_idle := False\<rparr>, w) = (a', w')" by (simp add: ran_def)
  ultimately have "pa_state a' = ProxyOpNone \<or> good f a'"
    using good_step [of f "a\<lparr>pa_idle := False\<rparr>" w a' w'] False by simp
  then show ?thesis using ran_keeps [OF ran] a by (simp add: op_good_def)
qed

text \<open>The call of the current operation.\<close>

lemma run_good:
  assumes rep: "sys_rep S ring fs bl" and pc: "wpc S = W_run"
  obtains S' r a f a' where "worker_run run S = Inr S'" and "sys_rep S' ring fs bl" and "wpc S' = W_link"
    and "same_flags S S'" and "destroyed S' = destroyed S" and "all_good good S ring \<longrightarrow> all_good good S' ring"
    and "w_op S = Some r" and "r \<in> set (ring_ops ring)" and "heap (mem S) r = Some a"
    and "pa_progress a = Some f" and "ran run f a (world S) = (a', world S')"
    and "heap (mem S') = (heap (mem S))(r \<mapsto> a')"
proof -
  from rep pc obtain r where op: "w_op S = Some r" by (auto simp: sys_rep_def)
  from rep op obtain a f where a: "heap (mem S) r = Some a" "pa_progress a = Some f"
    and r: "r \<in> set (ring_ops ring)" by (rule sys_rep_current)
  obtain a' w' where ran: "ran run f a (world S) = (a', w')" by fastforce
  from sys_rep_run [OF rep pc] obtain S' where S': "worker_run run S = Inr S'" "sys_rep S' ring fs bl"
    by blast
  with worker_run_eq [OF op a ran] have eq: "heap (mem S') = (heap (mem S))(r \<mapsto> a')" "wpc S' = W_link"
    "same_flags S S'" "destroyed S' = destroyed S" "world S' = w'" by (auto simp: same_flags_def)
  have "op_good good (heap (mem S')) q" if "op_good good (heap (mem S)) q" for q
    using that ran_good [where h = "heap (mem S)", OF a _ ran] unfolding eq by (cases "q = r") (auto simp: op_good_def)
  then have "all_good good S ring \<longrightarrow> all_good good S' ring" by (simp add: all_good_def)
  with that [OF S' eq(2-4) _ op r a] ran eq show ?thesis by simp
qed

text \<open>The critical section after it.\<close>

lemma link_good:
  assumes rep: "sys_rep S ring fs bl" and pc: "wpc S = W_link"
  obtains S' ring' fs' where "worker_link S = Inr S'" and "sys_rep S' ring' fs' bl" and "wpc S' = W_check"
    and "same_flags S S'" and "destroyed S' = destroyed S" and "all_good good S ring \<longrightarrow> all_good good S' ring'"
    and "world S' = world S" and "same_payload (heap (mem S)) (heap (mem S'))"
    and "w_op S' = None \<longrightarrow> ring' = [] \<and> ops (mem S') = None"
    and "ring' = ring_advance (op_done (heap (mem S))) ring"
    and "fs' = retire_to (ring_retired (op_done (heap (mem S))) ring) fs"
proof -
  let ?d = "op_done (heap (mem S))"
  let ?ring = "ring_advance ?d ring"
  from sys_rep_link [OF rep pc] obtain S' where S': "worker_link S = Inr S'"
    "sys_rep S' ?ring (retire_to (ring_retired ?d ring) fs) bl" "wpc S' = W_check"
    and st: "queue_step (mem S) (mem S')" and de: "destroyed S' = destroyed S"
    and no: "w_op S' = None \<longrightarrow> ?ring = [] \<and> ops (mem S') = None"
    by (elim exE conjE) (rule that, assumption+)
  from rep have wf: "ring_wf ring" by (simp add: sys_rep_def queue_inv_def ring_rep_def)
  from st have sp: "same_payload (heap (mem S)) (heap (mem S'))" and fl: "same_flags S S'"
    by (simp_all add: queue_step_def same_flags_def)
  have "set (ring_ops ?ring) = set (ring_ops ring) - set_option (ring_retired ?d ring)"
    using wf by (rule set_ring_ops_advance)
  then have "all_good good S ring \<longrightarrow> all_good good S' ?ring" using good_payload [OF sp] by (auto simp: all_good_def)
  from that [OF S' fl de this worker_link_world [OF S'(1)] sp no refl refl] show ?thesis .
qed

text \<open>Every step of the thread keeps the operations in order.\<close>

lemma worker_good:
  assumes rep: "sys_rep S ring fs bl" and step: "worker_step run S = Inr S'"
  shows "\<exists>ring' fs'. sys_rep S' ring' fs' bl \<and> same_flags S S' \<and> destroyed S' = destroyed S \<and>
     (all_good good S ring \<longrightarrow> all_good good S' ring')"
proof (cases "wpc S")
  case W_none
  with rep show ?thesis by (simp add: sys_rep_def)
next
  case W_check
  with step have "S' = worker_check S" by simp
  then show ?thesis using sys_rep_check [OF rep W_check]
    by (intro exI [of _ ring] exI [of _ fs]) (simp add: same_flags_def all_good_def worker_check_def)
next
  case W_fetch
  with step have "S' = worker_fetch S" by simp
  then show ?thesis using sys_rep_fetch [OF rep W_fetch]
    by (intro exI [of _ ring] exI [of _ fs]) (simp add: same_flags_def all_good_def worker_fetch_def Let_def)
next
  case W_run
  from run_good [OF rep W_run] obtain T where "worker_run run S = Inr T" "sys_rep T ring fs bl"
    "same_flags S T" "destroyed T = destroyed S" "all_good good S ring \<longrightarrow> all_good good T ring" .
  with step W_run show ?thesis by auto
next
  case W_link
  from link_good [OF rep W_link] obtain T ring' fs' where "worker_link S = Inr T" "sys_rep T ring' fs' bl"
    "same_flags S T" "destroyed T = destroyed S" "all_good good S ring \<longrightarrow> all_good good T ring'" .
  with step W_link show ?thesis by auto
qed (use rep step in \<open>auto simp: same_flags_def\<close>)

end

section \<open>Calls that finish it\<close>

context terminating_progress
begin

text \<open>Called again and again, a function finishes.\<close>

lemma calls_finish:
  assumes "good f a" and "pa_state a \<noteq> ProxyOpNone"
  shows "\<exists>n. pa_state (fst ((run f ^^ n) (a, w))) = ProxyOpNone"
proof -
  have "wf (inv_image (less_than <*lex*> less_than) (\<lambda>(a, w). (rank f a, patience w)))"
    by (simp add: wf_inv_image wf_lex_prod)
  then show ?thesis using assms
  proof (induction "(a, w)" arbitrary: a w rule: wf_induct_rule)
    case (less a w)
    obtain a' w' where r: "run f (a, w) = (a', w')" by fastforce
    show ?case
    proof (cases "pa_state a' = ProxyOpNone")
      case True
      with r show ?thesis by (intro exI [of _ 1]) simp
    next
      case False
      with good_step [OF less.prems r] rank_step [OF less.prems r] less.hyps [of a' w'] obtain n where
        "pa_state (fst ((run f ^^ n) (a', w'))) = ProxyOpNone" by auto
      with r show ?thesis by (intro exI [of _ "Suc n"]) (simp add: funpow_swap1)
    qed
  qed
qed

definition cost :: "'f heap \<Rightarrow> argref \<Rightarrow> nat" where
  "cost h r = (case h r of
     None \<Rightarrow> 0
   | Some a \<Rightarrow> if pa_state a = ProxyOpNone then 1 else rank (the (pa_progress a)) a + 2)"

definition measure_of :: "('f, 'w) sys \<Rightarrow> argref ring \<Rightarrow> nat" where
  "measure_of S ring =
     2 * sum (cost (heap (mem S))) (set (ring_ops ring)) + (if current_done S then 1 else 0)"

lemma cost_payload:
  assumes "same_payload h h'"
  shows "cost h' = cost h"
proof
  fix r
  show "cost h' r = cost h r"
  proof (cases "h r")
    case None
    with assms have "h' r = None" by (metis option.map_disc_iff same_payload_def)
    with None show ?thesis by (simp add: cost_def)
  next
    case (Some a)
    with assms obtain a' where a': "h' r = Some a'" "payload a' = payload a"
      by (rule same_payload_at)
    from a'(2) have "work a' = work a" by (rule work_eq_if_payload)
    then have "rank f a' = rank f a" for f
      using rank_work [of f a] rank_work [of f a'] by simp
    with Some a' show ?thesis by (simp add: cost_def payload_fields [of a' a])
  qed
qed

lemma rank_idle: "rank f (a\<lparr>pa_idle := b\<rparr>) = rank f a"
  using rank_work [of f a] rank_work [of f "a\<lparr>pa_idle := b\<rparr>"] by (simp add: work_idle)

text \<open>A run of the current operation lowers its cost, or the patience, unless it is done.\<close>

lemma ran_cost:
  assumes a: "h r = Some a" "pa_progress a = Some f" and g: "op_good good h r"
    and ran: "ran run f a w = (a', w')"
  shows "if op_done h r then cost (h(r \<mapsto> a')) r = cost h r
         else cost (h(r \<mapsto> a')) r < cost h r \<or> cost (h(r \<mapsto> a')) r = cost h r \<and> patience w' < patience w"
proof (cases "pa_state a = ProxyOpNone")
  case True
  with ran have "a' = a\<lparr>pa_idle := False\<rparr>" by (simp add: ran_def)
  with True a g show ?thesis by (simp add: cost_def op_done_def)
next
  case False
  with a g have "good f (a\<lparr>pa_idle := False\<rparr>)" by (simp add: op_good_def good_idle)
  moreover from False ran have "run f (a\<lparr>pa_idle := False\<rparr>, w) = (a', w')" by (simp add: ran_def)
  ultimately have "pa_state a' = ProxyOpNone \<or> rank f a' < rank f a \<or>
      rank f a' = rank f a \<and> patience w' < patience w"
    using rank_step [of f "a\<lparr>pa_idle := False\<rparr>" w a' w'] False by (simp add: rank_idle)
  moreover have "pa_progress a' = Some f" using ran_keeps [OF ran] a by simp
  ultimately show ?thesis using False a by (auto simp: cost_def op_done_def)
qed

lemma run_step:
  assumes rep: "sys_rep S ring fs bl" and pc: "wpc S = W_run" and g: "all_good good S ring"
  obtains S' where "worker_run run S = Inr S'" and "sys_rep S' ring fs bl" and "wpc S' = W_link"
    and "all_good good S' ring" and "same_flags S S'" and "destroyed S' = destroyed S"
    and "let k = (\<lambda>S. sum (cost (heap (mem S))) (set (ring_ops ring))) in
      if current_done S then k S' = k S
      else k S' < k S \<or> k S' = k S \<and> patience (world S') < patience (world S)"
proof -
  let ?h = "heap (mem S)" and ?R = "set (ring_ops ring)"
  from run_good [OF rep pc] obtain S' r a f a' where S': "worker_run run S = Inr S'"
    "sys_rep S' ring fs bl" "wpc S' = W_link" "same_flags S S'" "destroyed S' = destroyed S"
    "all_good good S ring \<longrightarrow> all_good good S' ring" and op: "w_op S = Some r" and r: "r \<in> ?R"
    and a: "?h r = Some a" "pa_progress a = Some f" and ran: "ran run f a (world S) = (a', world S')"
    and eq: "heap (mem S') = ?h(r \<mapsto> a')" .
  from g r have "op_good good ?h r" by (simp add: all_good_def)
  note c = ran_cost [where h = ?h, OF a this ran]
  have split: "sum k ?R = k r + sum k (?R - {r})" for k :: "argref \<Rightarrow> nat"
    using r by (simp add: sum.remove)
  have rest: "sum (cost (?h(r \<mapsto> a'))) (?R - {r}) = sum (cost ?h) (?R - {r})"
    by (rule sum.cong) (auto simp: cost_def)
  have "current_done S = op_done ?h r" by (simp add: current_done_def op)
  with c have "let k = (\<lambda>S. sum (cost (heap (mem S))) ?R) in
      if current_done S then k S' = k S
      else k S' < k S \<or> k S' = k S \<and> patience (world S') < patience (world S)"
    using split [of "cost ?h"] split [of "cost (?h(r \<mapsto> a'))"] rest by (auto simp: Let_def eq)
  with that S' g show ?thesis by blast
qed

lemma link_step:
  assumes rep: "sys_rep S ring fs bl" and pc: "wpc S = W_link" and g: "all_good good S ring"
  obtains S' ring' fs' where "worker_link S = Inr S'" and "sys_rep S' ring' fs' bl" and "wpc S' = W_check"
    and "all_good good S' ring'" and "same_flags S S'" and "destroyed S' = destroyed S" and "world S' = world S"
    and "w_op S' = None \<longrightarrow> ring' = [] \<and> ops (mem S') = None"
    and "if current_done S'
      then sum (cost (heap (mem S'))) (set (ring_ops ring')) <
           sum (cost (heap (mem S))) (set (ring_ops ring))
      else sum (cost (heap (mem S'))) (set (ring_ops ring')) \<le>
           sum (cost (heap (mem S))) (set (ring_ops ring))"
proof -
  let ?d = "op_done (heap (mem S))"
  from link_good [OF rep pc] obtain S' ring' fs' where S': "worker_link S = Inr S'"
    "sys_rep S' ring' fs' bl" "wpc S' = W_check" "same_flags S S'" "destroyed S' = destroyed S"
    "all_good good S ring \<longrightarrow> all_good good S' ring'" "world S' = world S"
    and sp: "same_payload (heap (mem S)) (heap (mem S'))"
    and no: "w_op S' = None \<longrightarrow> ring' = [] \<and> ops (mem S') = None"
    and ring': "ring' = ring_advance ?d ring" "fs' = retire_to (ring_retired ?d ring) fs" .
  from rep have wf: "ring_wf ring" by (simp add: sys_rep_def queue_inv_def ring_rep_def)
  have dn: "op_done (heap (mem S')) = ?d" using sp by (rule same_payload_frame)
  have ops: "set (ring_ops ring') = set (ring_ops ring) - set_option (ring_retired ?d ring)"
    unfolding ring' using wf by (rule set_ring_ops_advance)
  have c: "if current_done S' then sum (cost (heap (mem S))) (set (ring_ops ring')) <
           sum (cost (heap (mem S))) (set (ring_ops ring))
      else sum (cost (heap (mem S))) (set (ring_ops ring')) \<le>
           sum (cost (heap (mem S))) (set (ring_ops ring))"
  proof (cases "ring_retired ?d ring")
    case None
    have "\<not> current_done S'"
    proof (cases "w_op S'")
      case (Some r)
      with S'(2) have "queue_inv (mem S') (Some r) ring' fs" using None ring' by (simp add: sys_rep_def)
      then have "ring' \<noteq> []" and r: "r = hd (heads ring')" by (simp_all add: queue_inv_cur_hd)
      then have "ring \<noteq> []" by (auto simp: ring' ring_advance_def)
      with ring_retired_None [OF this None] r Some dn show ?thesis
        by (simp add: current_done_def ring')
    qed (simp add: current_done_def)
    with None ops show ?thesis by simp
  next
    case (Some h)
    from ring_retired_Some [OF Some] have h: "h \<in> set (ring_ops ring)" "?d h"
      using set_heads_subset [OF wf] by auto
    then have "0 < cost (heap (mem S)) h" by (auto simp: cost_def op_done_def split: option.splits)
    with h ops Some show ?thesis by (simp add: sum.remove [of _ h])
  qed
  have "if current_done S' then sum (cost (heap (mem S'))) (set (ring_ops ring')) <
           sum (cost (heap (mem S))) (set (ring_ops ring))
      else sum (cost (heap (mem S'))) (set (ring_ops ring')) \<le>
           sum (cost (heap (mem S))) (set (ring_ops ring))"
    using c by (simp add: cost_payload [OF sp])
  from that [OF S'(1-3) _ S'(4,5,7) no this] g S'(6) show ?thesis by blast
qed

text \<open>One call and the critical section after it lower the measure, or the patience.\<close>

definition before :: "((('f, 'w) sys \<times> argref ring) \<times> ('f, 'w) sys \<times> argref ring) set" where
  "before = inv_image (less_than <*lex*> less_than) (\<lambda>(S, ring). (measure_of S ring, patience (world S)))"

lemma wf_before: "wf before"
  by (simp add: before_def wf_inv_image wf_lex_prod)

lemma before_iff:
  "((S', ring'), (S, ring)) \<in> before \<longleftrightarrow> measure_of S' ring' < measure_of S ring \<or>
     measure_of S' ring' = measure_of S ring \<and> patience (world S') < patience (world S)"
  by (simp add: before_def)

lemma iteration:
  assumes rep: "sys_rep S ring fs bl" and pc: "wpc S = W_run" and g: "all_good good S ring"
  obtains S' ring' fs' where "steps run 2 S = Inr S'" and "sys_rep S' ring' fs' bl" and "wpc S' = W_check"
    and "all_good good S' ring'" and "same_flags S S'" and "destroyed S' = destroyed S"
    and "w_op S' = None \<longrightarrow> ring' = [] \<and> ops (mem S') = None"
    and "((S', ring'), (S, ring)) \<in> before"
proof -
  from run_step [OF rep pc g] obtain S1 where S1: "worker_run run S = Inr S1"
    "sys_rep S1 ring fs bl" "wpc S1 = W_link" "all_good good S1 ring" "same_flags S S1"
    "destroyed S1 = destroyed S"
    and c1: "let k = (\<lambda>S. sum (cost (heap (mem S))) (set (ring_ops ring))) in
      if current_done S then k S1 = k S
      else k S1 < k S \<or> k S1 = k S \<and> patience (world S1) < patience (world S)" .
  from link_step [OF S1(2-4)] obtain S' ring' fs' where S': "worker_link S1 = Inr S'"
    "sys_rep S' ring' fs' bl" "wpc S' = W_check" "all_good good S' ring'" "same_flags S1 S'"
    "destroyed S' = destroyed S1" "world S' = world S1"
    and no: "w_op S' = None \<longrightarrow> ring' = [] \<and> ops (mem S') = None"
    and c2: "if current_done S'
      then sum (cost (heap (mem S'))) (set (ring_ops ring')) <
           sum (cost (heap (mem S1))) (set (ring_ops ring))
      else sum (cost (heap (mem S'))) (set (ring_ops ring')) \<le>
           sum (cost (heap (mem S1))) (set (ring_ops ring))" .
  have "((S', ring'), (S, ring)) \<in> before"
    using c1 c2 S'(7) by (auto simp: before_iff measure_of_def Let_def split: if_splits)
  moreover have "steps run 2 S = Inr S'"
    using S1 S' pc by (simp add: numeral_2_eq_2)
  moreover have "same_flags S S'" using S1(5) S'(5) by (rule same_flags_trans)
  ultimately show ?thesis using that S'(2-4,6) S1(6) no by simp
qed

definition drained :: "('f, 'w) sys \<Rightarrow> ('f, 'w) sys \<Rightarrow> nat list \<Rightarrow> bool" where
  "drained S S' bl \<longleftrightarrow> (wpc S' = W_check \<or> wpc S' = W_fetch) \<and> w_op S' = None \<and> ops (mem S') = None \<and>
     same_flags S S' \<and> destroyed S' = destroyed S \<and> (\<exists>fs. sys_rep S' [] fs bl)"

lemma drain_from_run:
  assumes "sys_rep S ring fs bl" and "wpc S = W_run" and "all_good good S ring"
    and "ph_abortFlag (handler (mem S)) = 0"
  shows "\<exists>n S'. steps run n S = Inr S' \<and> drained S S' bl"
  using wf_before assms
proof (induction "(S, ring)" arbitrary: S ring fs rule: wf_induct_rule)
  case (less S ring fs)
  from iteration [OF less.prems(1-3)] obtain S1 ring1 fs1 where S1: "steps run 2 S = Inr S1"
    "sys_rep S1 ring1 fs1 bl" "wpc S1 = W_check" "all_good good S1 ring1" "same_flags S S1"
    "destroyed S1 = destroyed S" "w_op S1 = None \<longrightarrow> ring1 = [] \<and> ops (mem S1) = None"
    and m: "((S1, ring1), (S, ring)) \<in> before" .
  show ?case
  proof (cases "w_op S1")
    case None
    with S1 have "drained S S1 bl" by (auto simp: drained_def)
    with S1(1) show ?thesis by blast
  next
    case (Some r)
    let ?S = "S1\<lparr>wpc := W_run\<rparr>"
    have ab: "ph_abortFlag (handler (mem S1)) = 0"
      using less.prems(4) S1(5) by (simp add: same_flags_def)
    then have chk: "worker_check S1 = ?S" using Some by (simp add: worker_check_def)
    with sys_rep_check [OF S1(2,3)] have rep: "sys_rep ?S ring1 fs1 bl" by simp
    have "measure_of ?S ring1 = measure_of S1 ring1"
      using Some by (simp add: measure_of_def current_done_def)
    with m have "((?S, ring1), (S, ring)) \<in> before" by (simp add: before_iff)
    moreover have "all_good good ?S ring1" using S1(4) by (simp add: all_good_def)
    note less.hyps [OF _ rep _ this]
    ultimately obtain n S' where
      n: "steps run n ?S = Inr S'" "drained ?S S' bl" using ab by auto
    have "steps run 3 S = Inr ?S"
      using steps_trans [OF S1(1), of 1 ?S] chk S1(3) by (simp add: numeral_3_eq_3 numeral_2_eq_2)
    from steps_trans [OF this n(1)] have "steps run (3 + n) S = Inr S'" .
    moreover have "drained S S' bl"
      using n(2) S1(5,6) by (simp add: drained_def same_flags_def)
    ultimately show ?thesis by blast
  qed
qed

lemma drain_step:
  assumes "worker_step run S = Inr S1" and "same_flags S S1" and "destroyed S1 = destroyed S"
    and "\<exists>n S'. steps run n S1 = Inr S' \<and> drained S1 S' bl"
  shows "\<exists>n S'. steps run n S = Inr S' \<and> drained S S' bl"
proof -
  from assms(4) obtain n S' where "steps run n S1 = Inr S'" "drained S1 S' bl" by blast
  with assms(1-3) have "steps run (Suc n) S = Inr S' \<and> drained S S' bl"
    by (simp add: drained_def same_flags_def del: worker_step.simps)
  then show ?thesis by blast
qed

lemma drain_awake:
  assumes "sys_rep S ring fs bl" and "wpc S = W_check \<or> wpc S = W_fetch" and "all_good good S ring"
    and "ph_abortFlag (handler (mem S)) = 0"
  shows "\<exists>n S'. steps run n S = Inr S' \<and> drained S S' bl"
proof (cases "cursor S")
  case None
  then have "w_op S = None" "ops (mem S) = None" by (auto simp: cursor_def split: option.splits)
  moreover from assms(1) None have "ring = []" by (auto simp: sys_rep_def dest: queue_inv_None)
  ultimately have "drained S S bl" using assms by (auto simp: drained_def)
  then show ?thesis by (intro exI [of _ 0] exI [of _ S]) simp
next
  case (Some r)
  have run: "\<exists>n S'. steps run n T = Inr S' \<and> drained T S' bl"
    if "sys_rep T ring fs bl" "wpc T = W_run" "same_flags S T" "mem T = mem S" for T
    using drain_from_run [OF that(1,2)] assms(3,4) that(4) by (auto simp: all_good_def)
  have fetch: "\<exists>n S'. steps run n T = Inr S' \<and> drained T S' bl"
    if T: "sys_rep T ring fs bl" "wpc T = W_fetch" "mem T = mem S" "w_op S = None" for T
  proof (rule drain_step)
    show "worker_step run T = Inr (worker_fetch T)" using T(2) by simp
    show "\<exists>n S'. steps run n (worker_fetch T) = Inr S' \<and> drained (worker_fetch T) S' bl"
      using sys_rep_fetch [OF T(1,2)] T Some
      by (intro run) (auto simp: worker_fetch_def Let_def same_flags_def)
  qed (use T in \<open>auto simp: worker_fetch_def Let_def same_flags_def\<close>)
  show ?thesis
  proof (cases "wpc S = W_fetch")
    case True
    with assms(1) have "w_op S = None" by (simp add: sys_rep_def)
    with True assms(1) fetch show ?thesis by blast
  next
    case False
    with assms(2) have pc: "wpc S = W_check" by simp
    show ?thesis
    proof (rule drain_step)
      show "worker_step run S = Inr (worker_check S)" using pc by simp
      show "\<exists>n S'. steps run n (worker_check S) = Inr S' \<and> drained (worker_check S) S' bl"
        using sys_rep_check [OF assms(1) pc] assms(4)
        by (cases "w_op S")
          (auto simp: worker_check_def same_flags_def intro: run fetch)
    qed (auto simp: worker_check_def same_flags_def)
  qed
qed

lemma drain:
  assumes rep: "sys_rep S ring fs bl" and awake: "wpc S \<noteq> W_wait" "wpc S \<noteq> W_exit"
    and g: "all_good good S ring" and ab: "ph_abortFlag (handler (mem S)) = 0"
  shows "\<exists>n S'. steps run n S = Inr S' \<and> drained S S' bl"
proof (cases "wpc S")
  case W_run
  with drain_from_run [OF rep W_run g ab] show ?thesis by blast
next
  case W_link
  from link_step [OF rep W_link g] obtain S1 ring1 fs1 where S1: "worker_link S = Inr S1"
    "sys_rep S1 ring1 fs1 bl" "wpc S1 = W_check" "all_good good S1 ring1" "same_flags S S1"
    "destroyed S1 = destroyed S" by metis
  show ?thesis
  proof (rule drain_step)
    show "worker_step run S = Inr S1" using S1 W_link by simp
    show "\<exists>n S'. steps run n S1 = Inr S' \<and> drained S1 S' bl"
      using drain_awake [OF S1(2)] S1 ab by (auto simp: same_flags_def)
  qed (use S1 in auto)
qed (use drain_awake [OF rep] assms in \<open>auto simp: sys_rep_def\<close>)

text \<open>
  The two consequences. \<open>all_good\<close>, which names the ring, is replaced by \<open>ops_good\<close>.
\<close>

lemma ops_good_ring: "sys_rep S ring fs bl \<Longrightarrow> ops_good good S \<Longrightarrow> all_good good S ring"
  by (auto simp: all_good_def ops_good_def sys_rep_def)

lemma wait_returns:
  assumes rep: "sys_rep S ring fs bl" and "wpc S \<noteq> W_wait" "wpc S \<noteq> W_exit"
    and g: "ops_good good S" and ab: "ph_abortFlag (handler (mem S)) = 0"
  shows "\<exists>n S'. steps run n S = Inr S' \<and> ProxyWaitAllOpFinished_returns S'"
  using drain [OF rep assms(2,3) ops_good_ring [OF rep g] ab]
  by (auto simp: drained_def ProxyWaitAllOpFinished_returns_def)

lemma thread_returns:
  assumes rep: "sys_rep S ring fs bl" and "wpc S \<noteq> W_wait" "wpc S \<noteq> W_exit"
    and g: "ops_good good S" and ab: "ph_abortFlag (handler (mem S)) = 0"
    and st: "ph_stop (handler (mem S))"
  shows "\<exists>n S'. steps run n S = Inr S' \<and> wpc S' = W_exit \<and> ops (mem S') = None"
proof -
  from drain [OF rep assms(2,3) ops_good_ring [OF rep g] ab] obtain n T
    where n: "steps run n S = Inr T" and d: "drained S T bl" by blast
  have "\<exists>m S'. steps run m T = Inr S' \<and> wpc S' = W_exit \<and> ops (mem S') = None"
  proof (cases "wpc T = W_fetch")
    case True
    with d st show ?thesis
      by (intro exI [of _ 1]) (simp add: drained_def worker_fetch_def same_flags_def)
  next
    case False
    with d st ab show ?thesis
      by (intro exI [of _ 2])
        (simp add: drained_def worker_fetch_def worker_check_def same_flags_def numeral_2_eq_2)
  qed
  with steps_trans [OF n] show ?thesis by blast
qed

end

end
