(* ===== verification/Double_Arith.thy ===== *)
theory Double_Arith
  imports Prelude "HOL-Library.Log_Nat"
begin

text \<open>
  The arithmetic of \<open>double\<close>: IEEE 754 binary64, each operation rounded to nearest, ties to even.

  A \<open>double\<close> is a rational number, an infinity or NaN; the sign of a zero is not kept (no
  operation of the program divides by a zero that can be negative). \<open>dbl_add\<close>, \<open>dbl_sub\<close>,
  \<open>dbl_mul\<close> and \<open>dbl_div\<close> are the operations before rounding, with the IEEE results for
  infinities, NaN and division by zero; \<open>fadd\<close>, \<open>fsub\<close>, \<open>fmul\<close> and \<open>fdiv\<close> round their results.
  The lemmas: rounding gives the nearest double (\<open>round_rat_nearest\<close>), integers up to \<open>2 ^ 53\<close> are computed with exactly, and otherwise the relative
  error of an operation is at most \<open>2 ^ -53\<close> (as long as its result is not below \<open>2 ^ -1022\<close>).
\<close>

section \<open>Rounding\<close>

text \<open>The largest \<open>e\<close> with \<open>2 ^ e \<le> \<bar>x\<bar>\<close>.\<close>

definition exponent :: "rat \<Rightarrow> int" where
  "exponent x =
     (if 1 \<le> \<bar>x\<bar> then bitlen \<lfloor>\<bar>x\<bar>\<rfloor> - 1 else - bitlen (\<lceil>1 / \<bar>x\<bar>\<rceil> - 1))"

text \<open>The weight of the last place: 53 significant bits, fewer below \<open>2 ^ -1022\<close>.\<close>

definition ulp :: "rat \<Rightarrow> rat" where
  "ulp x = 2 powi (max (- 1074) (exponent x - 52))"

definition nearest_even :: "rat \<Rightarrow> int" where
  "nearest_even x =
     (let k = \<lfloor>x\<rfloor>; d = x - of_int k in if d < 1 / 2 \<or> d = 1 / 2 \<and> even k then k else k + 1)"

definition round_rat :: "rat \<Rightarrow> rat" where
  "round_rat x = (if x = 0 then 0 else of_int (nearest_even (x / ulp x)) * ulp x)"

section \<open>Doubles\<close>

datatype double = Fin rat | Inf bool | NaN

text \<open>The double nearest to a number; from \<open>2 ^ 1024\<close> on it is an infinity.\<close>

definition to_double :: "rat \<Rightarrow> double" where
  "to_double x = (let r = round_rat x in if 2 ^ 1024 \<le> \<bar>r\<bar> then Inf (0 < r) else Fin r)"

definition rounded :: "double \<Rightarrow> double" where
  "rounded a = (case a of Fin x \<Rightarrow> to_double x | _ \<Rightarrow> a)"

definition dbl_add :: "double \<Rightarrow> double \<Rightarrow> double" where
  "dbl_add a b =
     (case (a, b) of
        (Fin x, Fin y) \<Rightarrow> Fin (x + y)
      | (Inf s, Fin y) \<Rightarrow> Inf s
      | (Fin x, Inf s) \<Rightarrow> Inf s
      | (Inf s, Inf t) \<Rightarrow> if s = t then Inf s else NaN
      | _ \<Rightarrow> NaN)"

definition dbl_sub :: "double \<Rightarrow> double \<Rightarrow> double" where
  "dbl_sub a b =
     (case (a, b) of
        (Fin x, Fin y) \<Rightarrow> Fin (x - y)
      | (Inf s, Fin y) \<Rightarrow> Inf s
      | (Fin x, Inf s) \<Rightarrow> Inf (\<not> s)
      | (Inf s, Inf t) \<Rightarrow> if s = t then NaN else Inf s
      | _ \<Rightarrow> NaN)"

definition dbl_mul :: "double \<Rightarrow> double \<Rightarrow> double" where
  "dbl_mul a b =
     (case (a, b) of
        (Fin x, Fin y) \<Rightarrow> Fin (x * y)
      | (Inf s, Fin y) \<Rightarrow> if y = 0 then NaN else Inf (s = (0 < y))
      | (Fin x, Inf s) \<Rightarrow> if x = 0 then NaN else Inf (s = (0 < x))
      | (Inf s, Inf t) \<Rightarrow> Inf (s = t)
      | _ \<Rightarrow> NaN)"

definition dbl_div :: "double \<Rightarrow> double \<Rightarrow> double" where
  "dbl_div a b =
     (case (a, b) of
        (Fin x, Fin y) \<Rightarrow>
          if y \<noteq> 0 then Fin (x / y) else if x = 0 then NaN else Inf (x > 0)
      | (Inf s, Fin y) \<Rightarrow> Inf (s = (y \<ge> 0))
      | (Fin x, Inf s) \<Rightarrow> Fin 0
      | _ \<Rightarrow> NaN)"

definition fadd :: "double \<Rightarrow> double \<Rightarrow> double" where "fadd a b = rounded (dbl_add a b)"
definition fsub :: "double \<Rightarrow> double \<Rightarrow> double" where "fsub a b = rounded (dbl_sub a b)"
definition fmul :: "double \<Rightarrow> double \<Rightarrow> double" where "fmul a b = rounded (dbl_mul a b)"
definition fdiv :: "double \<Rightarrow> double \<Rightarrow> double" where "fdiv a b = rounded (dbl_div a b)"

lemmas dbl_arith = fadd_def fsub_def fmul_def fdiv_def rounded_def dbl_add_def dbl_sub_def dbl_mul_def dbl_div_def

text \<open>\<open>a < b\<close>; a comparison with NaN is false.\<close>

definition dbl_less :: "double \<Rightarrow> double \<Rightarrow> bool" where
  "dbl_less a b =
     (case (a, b) of
        (Fin x, Fin y) \<Rightarrow> x < y
      | (Inf s, Fin y) \<Rightarrow> \<not> s
      | (Fin x, Inf s) \<Rightarrow> s
      | (Inf s, Inf t) \<Rightarrow> \<not> s \<and> t
      | _ \<Rightarrow> False)"

definition dbl_is_zero :: "double \<Rightarrow> bool" where
  "dbl_is_zero a = (a = Fin 0)"

section \<open>The error of rounding\<close>

lemma exponent_bounds:
  assumes "x \<noteq> 0"
  shows "2 powi exponent x \<le> \<bar>x\<bar> \<and> \<bar>x\<bar> < 2 powi (exponent x + 1)"
proof (cases "1 \<le> \<bar>x\<bar>")
  case True
  define n k where "n = \<lfloor>\<bar>x\<bar>\<rfloor>" and "k = bitlen n"
  have n: "1 \<le> n" "of_int n \<le> \<bar>x\<bar>" "\<bar>x\<bar> < of_int (n + 1)"
    using True floor_correct [of "\<bar>x\<bar>"] by (simp_all add: n_def le_floor_iff)
  then have k: "1 \<le> k" using bitlen_eq_zero_iff [of n] bitlen_nonneg [of n] by (simp add: k_def)
  have b: "2 ^ nat (k - 1) \<le> n" "n + 1 \<le> 2 ^ nat k" using bitlen_bounds [of n] n(1) by (auto simp: k_def)
  have "(2 :: rat) ^ nat (k - 1) \<le> of_int n" "of_int (n + 1) \<le> (2 :: rat) ^ nat k"
    using b by (metis of_int_le_iff of_int_numeral of_int_power)+
  then have "(2 :: rat) ^ nat (k - 1) \<le> \<bar>x\<bar>" "\<bar>x\<bar> < 2 ^ nat k" using n(2,3) by linarith+
  with k have "2 powi (k - 1) \<le> \<bar>x\<bar>" "\<bar>x\<bar> < 2 powi (k - 1 + 1)"
    by (simp_all add: power_int_nonneg_exp)
  moreover have "exponent x = k - 1" using True by (simp add: exponent_def n_def k_def)
  ultimately show ?thesis by simp
next
  case False
  define y where "y = 1 / \<bar>x\<bar>"
  define n k where "n = \<lceil>y\<rceil> - 1" and "k = bitlen n"
  have y: "1 < y" using False assms by (simp add: y_def)
  then have n: "1 \<le> n" "of_int n < y" "y \<le> of_int (n + 1)" by (simp_all add: n_def) linarith+
  then have k: "1 \<le> k" using bitlen_eq_zero_iff [of n] bitlen_nonneg [of n] by (simp add: k_def)
  have b: "2 ^ nat (k - 1) \<le> n" "n + 1 \<le> 2 ^ nat k" using bitlen_bounds [of n] n(1) by (auto simp: k_def)
  have "(2 :: rat) ^ nat (k - 1) \<le> of_int n" "of_int (n + 1) \<le> (2 :: rat) ^ nat k"
    using b by (metis of_int_le_iff of_int_numeral of_int_power)+
  then have "(2 :: rat) ^ nat (k - 1) < y" "y \<le> 2 ^ nat k" using n(2,3) by linarith+
  with k have *: "2 powi (k - 1) < y" "y \<le> 2 powi k"
    by (simp_all add: power_int_nonneg_exp)
  have x: "\<bar>x\<bar> = inverse y" by (simp add: y_def)
  have "inverse (2 powi k) \<le> inverse y" using *(2) y by (intro le_imp_inverse_le) simp_all
  moreover have "inverse y < inverse (2 powi (k - 1))" using *(1) by (intro less_imp_inverse_less) simp_all
  moreover have "exponent x = - k" using False by (simp add: exponent_def n_def k_def y_def)
  moreover have "inverse (2 powi (k - 1)) = (2 :: rat) powi (- k + 1)"
    by (simp flip: power_int_minus)
  ultimately show ?thesis by (simp add: x power_int_minus)
qed

lemma ulp_pos: "0 < ulp x"
  by (simp add: ulp_def)

lemma nearest_even_close: "\<bar>of_int (nearest_even x) - x\<bar> \<le> 1 / 2"
  unfolding nearest_even_def Let_def
  using of_int_floor_le [of x] floor_correct [of x] by (auto simp: abs_le_iff)

lemma nearest_even_int [simp]: "nearest_even (of_int k) = k"
  by (simp add: nearest_even_def)

lemma round_rat_close: "\<bar>round_rat x - x\<bar> \<le> ulp x / 2"
proof (cases "x = 0")
  case False
  have "round_rat x - x = (of_int (nearest_even (x / ulp x)) - x / ulp x) * ulp x"
    using ulp_pos [of x] False by (simp add: round_rat_def left_diff_distrib)
  then have "\<bar>round_rat x - x\<bar> = \<bar>of_int (nearest_even (x / ulp x)) - x / ulp x\<bar> * ulp x"
    using ulp_pos [of x] by (simp add: abs_mult)
  also have "\<dots> \<le> 1 / 2 * ulp x"
    by (rule mult_right_mono [OF nearest_even_close]) (use ulp_pos [of x] in simp)
  finally show ?thesis by simp
qed (use ulp_pos [of x] in \<open>simp add: round_rat_def\<close>)

lemma pow_less_imp: "(2 :: rat) powi m < 2 powi n \<Longrightarrow> m < n"
  by (metis not_le one_le_numeral power_int_increasing)

lemma exponent_less:
  assumes "x \<noteq> 0" and "\<bar>x\<bar> < 2 powi n"
  shows "exponent x < n"
  using exponent_bounds [OF assms(1)] assms(2) by (intro pow_less_imp) linarith

lemma exponent_ge:
  assumes "2 powi n \<le> \<bar>x\<bar>"
  shows "n \<le> exponent x"
proof -
  have "(0 :: rat) < 2 powi n" by simp
  with assms have "x \<noteq> 0" by fastforce
  from exponent_bounds [OF this] assms have "(2 :: rat) powi n < 2 powi (exponent x + 1)" by linarith
  then show ?thesis using pow_less_imp [of n "exponent x + 1"] by simp
qed

text \<open>Multiples of the last place are doubles; in particular the integers up to \<open>2 ^ 53\<close>.\<close>

lemma round_rat_exact:
  assumes "x = of_int k * ulp x"
  shows "round_rat x = x"
proof -
  have "x / ulp x = of_int k" using ulp_pos [of x] assms by (simp add: field_simps)
  with assms show ?thesis by (simp add: round_rat_def)
qed

lemma round_rat_int:
  assumes "\<bar>k\<bar> \<le> 2 ^ 53"
  shows "round_rat (of_int k) = of_int k"
proof (cases "k = 0")
  case False
  let ?x = "rat_of_int k"
  have ge: "0 \<le> exponent ?x" using False by (intro exponent_ge) (simp flip: of_int_abs)
  show ?thesis
  proof (cases "\<bar>k\<bar> = 2 ^ 53")
    case True
    then have a: "\<bar>?x\<bar> = 2 ^ 53" by (metis of_int_abs of_int_numeral of_int_power)
    then have "exponent ?x = 53"
      using exponent_ge [of 53 ?x] exponent_less [of ?x 54] False by simp
    then have "ulp ?x = 2" by (simp add: ulp_def)
    moreover have "even k" using True by (metis dvd_abs_iff even_numeral even_power zero_less_numeral)
    ultimately show ?thesis by (intro round_rat_exact [where k = "k div 2"]) (auto elim: evenE)
  next
    case less: False
    with assms have "\<bar>k\<bar> < 2 ^ 53" by simp
    then have "\<bar>?x\<bar> < 2 ^ 53" by (metis of_int_abs of_int_less_iff of_int_numeral of_int_power)
    then have "exponent ?x < 53" using False by (intro exponent_less) simp_all
    then have "ulp ?x = inverse (2 ^ nat (52 - exponent ?x))"
      using ge by (simp add: ulp_def power_int_def power_one_over inverse_eq_divide)
    then have "?x = of_int (k * 2 ^ nat (52 - exponent ?x)) * ulp ?x" by (simp add: field_simps)
    then show ?thesis by (rule round_rat_exact)
  qed
qed (simp add: round_rat_def)

lemma to_double_int: "\<bar>k\<bar> \<le> 2 ^ 53 \<Longrightarrow> to_double (of_int k) = Fin (of_int k)"
proof -
  assume k: "\<bar>k\<bar> \<le> 2 ^ 53"
  then have "\<bar>rat_of_int k\<bar> \<le> 2 ^ 53" by (metis of_int_abs of_int_le_iff of_int_numeral of_int_power)
  also have "\<dots> < (2 :: rat) ^ 1024" by (rule power_strict_increasing) simp_all
  finally show ?thesis using round_rat_int [OF k] by (simp add: to_double_def)
qed

text \<open>
  \<open>round_rat\<close> deserves its name: no number \<open>m * 2 ^ e\<close> with 53 bits and an exponent of at least -1074 is
  nearer.
\<close>

lemma nearest_even_best: "\<bar>of_int (nearest_even x) - x\<bar> \<le> \<bar>of_int k - x\<bar>"
proof (cases "k = nearest_even x")
  case False
  then have "1 \<le> \<bar>nearest_even x - k\<bar>" by simp
  then have "1 \<le> \<bar>rat_of_int (nearest_even x) - of_int k\<bar>"
    by (metis of_int_1 of_int_abs of_int_diff of_int_le_iff)
  with nearest_even_close [of x] show ?thesis by linarith
qed simp

lemma round_rat_multiple: "\<bar>round_rat x - x\<bar> \<le> \<bar>of_int k * ulp x - x\<bar>"
proof (cases "x = 0")
  case False
  have scale: "\<bar>of_int j * ulp x - x\<bar> = \<bar>of_int j - x / ulp x\<bar> * ulp x" for j
  proof -
    have "of_int j * ulp x - x = (of_int j - x / ulp x) * ulp x"
      using ulp_pos [of x] by (simp add: left_diff_distrib)
    then show ?thesis using ulp_pos [of x] by (simp add: abs_mult)
  qed
  have "\<bar>round_rat x - x\<bar> = \<bar>of_int (nearest_even (x / ulp x)) - x / ulp x\<bar> * ulp x"
    using False by (simp add: round_rat_def scale)
  also have "\<dots> \<le> \<bar>of_int k - x / ulp x\<bar> * ulp x"
    by (intro mult_right_mono nearest_even_best) (use ulp_pos [of x] in simp)
  finally show ?thesis by (simp add: scale)
qed (simp add: round_rat_def)

lemma round_rat_nearest:
  assumes "\<bar>m\<bar> \<le> 2 ^ 53" and "- 1074 \<le> e" and d: "d = of_int m * 2 powi e"
  shows "\<bar>round_rat x - x\<bar> \<le> \<bar>d - x\<bar>"
proof -
  define u where "u = max (- 1074) (exponent x - 52)"
  have ulp: "ulp x = 2 powi u" by (simp add: ulp_def u_def)
  show ?thesis
  proof (cases "u \<le> e \<or> x = 0")
    case True
    then show ?thesis
    proof
      assume ue: "u \<le> e"
      have "(2 :: rat) powi e = 2 powi (e - u) * 2 powi u" by (simp flip: power_int_add)
      also have "2 powi (e - u) = (of_int (2 ^ nat (e - u)) :: rat)" using ue by (simp add: power_int_nonneg_exp)
      finally have "d = of_int (m * 2 ^ nat (e - u)) * ulp x" by (simp add: d ulp)
      then show ?thesis using round_rat_multiple [of x "m * 2 ^ nat (e - u)"] by simp
    qed (simp add: round_rat_def)
  next
    case False
    then have u: "u = exponent x - 52" "e \<le> u - 1" and x: "x \<noteq> 0" using assms(2) by (auto simp: u_def)
    have "rat_of_int \<bar>m\<bar> \<le> 2 ^ 53" using assms(1) by (metis of_int_le_iff of_int_numeral of_int_power)
    moreover have "(2 :: rat) powi e \<le> 2 powi (u - 1)" using u(2) by (intro power_int_increasing) simp_all
    ultimately have "\<bar>d\<bar> \<le> 2 ^ 53 * 2 powi (u - 1)" unfolding d abs_mult by (intro mult_mono) simp_all
    also have "\<dots> = (2 :: rat) powi (53 + (u - 1))" by (subst power_int_add) simp_all
    also have "53 + (u - 1) = exponent x" by (simp add: u)
    finally have low: "\<bar>d\<bar> \<le> 2 powi exponent x" .
    let ?k = "if 0 < x then 2 ^ 52 else - (2 ^ 52 :: int)"
    have "(2 :: rat) powi exponent x = 2 ^ 52 * ulp x" by (simp add: ulp u power_int_diff)
    then have "of_int ?k * ulp x = (if 0 < x then 1 else - 1) * 2 powi exponent x" by simp
    with round_rat_multiple [of x ?k] exponent_bounds [OF x] low show ?thesis
      by (simp split: if_splits)
  qed
qed

text \<open>The relative error of an operation.\<close>

lemma round_rat_near:
  assumes "2 powi (- 1022) \<le> x"
  shows "\<bar>round_rat x - x\<bar> \<le> x / 2 ^ 53"
proof -
  have x: "0 < x" by (rule less_le_trans [OF _ assms]) simp
  have "- 1022 \<le> exponent x" using assms x by (intro exponent_ge) simp
  then have "ulp x = 2 powi (exponent x - 52)" by (simp add: ulp_def)
  also have "\<dots> = 2 powi exponent x / 2 ^ 52" by (simp add: power_int_diff)
  also have "\<dots> \<le> x / 2 ^ 52" using exponent_bounds [of x] x by (simp add: divide_right_mono)
  finally show ?thesis using round_rat_close [of x] by simp
qed

text \<open>\<open>near x a\<close>: the double \<open>a\<close> is a number that differs from \<open>x\<close> by one rounding.\<close>

definition near :: "rat \<Rightarrow> double \<Rightarrow> bool" where
  "near x a = (\<exists>r. a = Fin r \<and> x * (1 - 1 / 2 ^ 53) \<le> r \<and> r \<le> x * (1 + 1 / 2 ^ 53))"

lemma to_double_near:
  assumes "1 / 2 ^ 1000 \<le> x" and "x \<le> 2 ^ 1000"
  shows "to_double x = Fin (round_rat x)" and "near x (to_double x)" and "\<bar>round_rat x - x\<bar> \<le> x / 2 ^ 53"
proof -
  have "(2 :: rat) powi (- 1022) \<le> 2 powi (- 1000)" by (rule power_int_increasing) simp_all
  with assms(1) show e: "\<bar>round_rat x - x\<bar> \<le> x / 2 ^ 53"
    by (intro round_rat_near) (simp add: power_int_minus field_simps)
  have pos: "0 < x" by (rule less_le_trans [OF _ assms(1)]) simp
  have "\<bar>round_rat x\<bar> \<le> x + x / 2 ^ 53" using e pos by linarith
  also have "\<dots> \<le> 2 * 2 ^ 1000" using assms(2) pos by (simp add: field_simps)
  also have "\<dots> = (2 :: rat) ^ 1001" by simp
  also have "\<dots> < 2 ^ 1024" by (rule power_strict_increasing) simp_all
  finally show t: "to_double x = Fin (round_rat x)" by (simp add: to_double_def)
  have "x - x / 2 ^ 53 \<le> round_rat x" "round_rat x \<le> x + x / 2 ^ 53" using e by linarith+
  then show "near x (to_double x)" by (simp add: t near_def right_diff_distrib distrib_left)
qed

end
