(* ===== verification/Benchmarks.thy ===== *)
theory Benchmarks
  imports Proxy_Drain Double_Arith
begin

text \<open>
  The progress functions of the repository: \<open>exampleTask\<close> (\<^verbatim>\<open>examples/proxy_test.cc\<close>),
  \<open>send_benchmark\<close> and \<open>recv_benchmark\<close> (\<^verbatim>\<open>examples/proxy_send_recv.cc\<close>), and the facts that
  make them fit the contracts of the proxy thread (locales \<open>progress_functions\<close> and
  \<open>terminating_progress\<close>).

  The verbs library and the cycle counter are parameters: a record of functions on the state
  \<open>'w\<close> of the device. \<open>v_poll_cq\<close> returns the number of completions and the completions
  written to the array, the other calls their return value.
\<close>

section \<open>The functions\<close>

record ibv_wc =
  wc_id :: "64 word"
  wc_success :: bool

record 'w verbs =
  v_poll_cq :: "nat \<Rightarrow> nat \<Rightarrow> 'w \<Rightarrow> (int \<times> ibv_wc list) \<times> 'w"
  v_post_send :: "nat \<Rightarrow> ibv_send_wr \<Rightarrow> 'w \<Rightarrow> int \<times> 'w"
  v_post_recv :: "nat \<Rightarrow> ibv_recv_wr \<Rightarrow> 'w \<Rightarrow> int \<times> 'w"
  v_get_cycles :: "'w \<Rightarrow> 64 word \<times> 'w"

datatype progress_fn = ExampleTask | SendBenchmark | RecvBenchmark

definition exampleTask :: "'f ProxyArgs \<times> 'w \<Rightarrow> 'f ProxyArgs \<times> 'w" where
  "exampleTask = (\<lambda>(args, w). (args\<lparr>pa_state := ProxyOpNone, pa_idle := False\<rparr>, w))"

definition add_wqes :: "int \<Rightarrow> 'f ProxyArgs \<Rightarrow> 'f ProxyArgs" where
  "add_wqes n args =
     args\<lparr>pa_endpoint := (pa_endpoint args)\<lparr>ep_available_wqes := ep_available_wqes (pa_endpoint args) + n\<rparr>\<rparr>"

definition set_send_id :: "64 word \<Rightarrow> 'f ProxyArgs \<Rightarrow> 'f ProxyArgs" where
  "set_send_id i args =
     args\<lparr>pa_endpoint := (pa_endpoint args)\<lparr>
       ep_send_wr := (ep_send_wr (pa_endpoint args))\<lparr>swr_id := i\<rparr>\<rparr>\<rparr>"

definition set_recv_id :: "64 word \<Rightarrow> 'f ProxyArgs \<Rightarrow> 'f ProxyArgs" where
  "set_recv_id i args =
     args\<lparr>pa_endpoint := (pa_endpoint args)\<lparr>
       ep_recv_wr := (ep_recv_wr (pa_endpoint args))\<lparr>rwr_id := i\<rparr>\<rparr>\<rparr>"

text \<open>The last statement of \<open>send_benchmark\<close>: ten iterations finish the operation.\<close>

definition send_finish :: "'f ProxyArgs \<Rightarrow> 'f ProxyArgs" where
  "send_finish args =
     (if pa_iterations args = 10 then args\<lparr>pa_state := ProxyOpNone, pa_idle := False\<rparr> else args)"

definition send_benchmark :: "'w verbs \<Rightarrow> 'f ProxyArgs \<times> 'w \<Rightarrow> 'f ProxyArgs \<times> 'w" where
  "send_benchmark v = (\<lambda>(args, w).
     let args = (if pa_state args = ProxyOpReady then args\<lparr>pa_state := ProxyOpProgress\<rparr> else args) in
     if pa_state args = ProxyOpProgress \<and> pa_iterations args < 10 then
       let args = args\<lparr>pa_idle := False, pa_iterations := pa_iterations args + 1\<rparr> in
       if ep_available_wqes (pa_endpoint args) = 0 then
         let ((num_completions, _), w) = v_poll_cq v (ep_cq (pa_endpoint args)) 32 w
         in (add_wqes num_completions args, w)
       else
         let args = set_send_id (word_of_int (pa_iterations args)) args;
             (_, w) = v_post_send v (ep_qp (pa_endpoint args)) (ep_send_wr (pa_endpoint args)) w
         in (send_finish (add_wqes (- 1) args), w)
     else (send_finish args, w))"

text \<open>The loop of \<open>recv_benchmark\<close> that posts a receive for every completion.\<close>

fun repost :: "'w verbs \<Rightarrow> ibv_wc list \<Rightarrow> nat list \<Rightarrow> 'f ProxyArgs \<times> 'w \<Rightarrow> 'f ProxyArgs \<times> 'w" where
  "repost v wcs [] (args, w) = (args, w)"
| "repost v wcs (k # ks) (args, w) =
     (let args = set_recv_id (wc_id (wcs ! k)) args;
          (_, w) = v_post_recv v (ep_qp (pa_endpoint args)) (ep_recv_wr (pa_endpoint args)) w
      in repost v wcs ks (args, w))"

definition recv_first_completion :: "'w verbs \<Rightarrow> 'f ProxyArgs \<times> 'w \<Rightarrow> 'f ProxyArgs \<times> 'w" where
  "recv_first_completion v = (\<lambda>(args, w).
     if pa_count args > 0 \<and> pa_first_completion args \<noteq> 0 then
       let (t, w) = v_get_cycles v w
       in (args\<lparr>pa_first_completion := 0, pa_startTick := t, pa_count := 0\<rparr>, w)
     else (args, w))"

definition recv_finish :: "'w verbs \<Rightarrow> 'f ProxyArgs \<times> 'w \<Rightarrow> 'f ProxyArgs \<times> 'w" where
  "recv_finish v = (\<lambda>(args, w).
     if pa_iterations args = 10 then
       let (t, w) = v_get_cycles v w
       in (args\<lparr>pa_state := ProxyOpNone, pa_idle := False, pa_endTick := t\<rparr>, w)
     else (args, w))"

text \<open>A sum or product of C \<open>int\<close>s, in two's complement where it does not fit into 32 bits.\<close>

definition int32 :: "int \<Rightarrow> int" where
  "int32 x = (x + 2147483648) mod 4294967296 - 2147483648"

lemma int32_id: "- (2 ^ 31) \<le> x \<Longrightarrow> x < 2 ^ 31 \<Longrightarrow> int32 x = x"
  by (simp add: int32_def)

definition recv_benchmark :: "'w verbs \<Rightarrow> 'f ProxyArgs \<times> 'w \<Rightarrow> 'f ProxyArgs \<times> 'w" where
  "recv_benchmark v = (\<lambda>(args, w).
     let args = (if pa_state args = ProxyOpReady
                 then args\<lparr>pa_state := ProxyOpProgress, pa_first_completion := 1, pa_count := 0\<rparr>
                 else args) in
     recv_finish v
       (if pa_state args = ProxyOpProgress \<and> pa_iterations args < 10 then
          let args = args\<lparr>pa_idle := False\<rparr>;
              ((n, wcs), w) = v_poll_cq v (ep_cq (pa_endpoint args)) 32 w;
              args = (if n \<noteq> 0 then args\<lparr>pa_iterations := pa_iterations args + 1\<rparr> else args);
              args = args\<lparr>pa_count := int32 (pa_count args + n)\<rparr>
          in recv_first_completion v (repost v wcs [0..<nat n] (args, w))
        else (args, w)))"

text \<open>
  What \<open>recv_benchmark\<close> logs at the end: the bits received, a product of C \<open>int\<close>s, and the elapsed
  nanoseconds (\<open>cycles_t\<close> is unsigned, so the difference wraps).
\<close>

definition recv_bits :: "'f ProxyArgs \<Rightarrow> int" where
  "recv_bits args = int32 (int32 (pa_count args * 65536) * 8)"

definition recv_nanosec :: "double \<Rightarrow> 'f ProxyArgs \<Rightarrow> double" where
  "recv_nanosec mhz args =
     fdiv (fmul (Fin 1000) (to_double (of_int (uint (pa_endTick args - pa_startTick args))))) mhz"

fun progress_fn_run :: "'w verbs \<Rightarrow> progress_fn \<Rightarrow> 'f ProxyArgs \<times> 'w \<Rightarrow> 'f ProxyArgs \<times> 'w" where
  "progress_fn_run v ExampleTask = exampleTask"
| "progress_fn_run v SendBenchmark = send_benchmark v"
| "progress_fn_run v RecvBenchmark = recv_benchmark v"

section \<open>They leave the links alone\<close>

definition links :: "'f ProxyArgs \<Rightarrow> argptr \<times> argptr \<times> tailptr \<times> 'f option" where
  "links a = (pa_next a, pa_nextPeer a, pa_proxyTail a, pa_progress a)"

lemma links_upd [simp]:
  "links (a\<lparr>pa_state := s\<rparr>) = links a" "links (a\<lparr>pa_idle := b\<rparr>) = links a"
  "links (a\<lparr>pa_iterations := i\<rparr>) = links a" "links (a\<lparr>pa_count := i\<rparr>) = links a"
  "links (a\<lparr>pa_first_completion := i\<rparr>) = links a" "links (a\<lparr>pa_startTick := t\<rparr>) = links a"
  "links (a\<lparr>pa_endTick := t\<rparr>) = links a" "links (add_wqes n a) = links a"
  "links (set_send_id x a) = links a" "links (set_recv_id x a) = links a"
  by (simp_all add: links_def add_wqes_def set_send_id_def set_recv_id_def)

lemma links_repost [simp]: "links (fst (repost v wcs ks (args, w))) = links args"
  by (induction ks arbitrary: args w) (simp_all add: Let_def split: prod.split)

lemma links_send: "links (fst (send_benchmark v (args, w))) = links args"
  by (simp add: send_benchmark_def send_finish_def Let_def split: prod.split)

lemma links_first [simp]: "links (fst (recv_first_completion v p)) = links (fst p)"
  by (simp add: recv_first_completion_def split: prod.split)

lemma links_finish [simp]: "links (fst (recv_finish v p)) = links (fst p)"
  by (simp add: recv_finish_def split: prod.split)

lemma links_recv: "links (fst (recv_benchmark v (args, w))) = links args"
  by (simp add: recv_benchmark_def Let_def split: prod.split)

lemma links_run: "links (fst (progress_fn_run v f (args, w))) = links args"
  by (cases f) (simp_all add: links_send links_recv, simp add: exampleTask_def)

interpretation bench: progress_functions "progress_fn_run v" for v :: "'w verbs"
proof
  fix f and a a' :: "progress_fn ProxyArgs" and w w'
  assume "progress_fn_run v f (a, w) = (a', w')"
  with links_run [of v f a w] have "links a' = links a" by simp
  then show "pa_next a' = pa_next a \<and> pa_nextPeer a' = pa_nextPeer a \<and>
       pa_proxyTail a' = pa_proxyTail a \<and> pa_progress a' = pa_progress a"
    by (simp add: links_def)
qed

section \<open>Which of them finish\<close>

text \<open>
  \<open>exampleTask\<close> finishes in one call. \<open>send_benchmark\<close> counts every call, also one that finds
  no free work queue entry, and finishes when the count is 10: from at most 10 it gets there, from
  more (a recycled operation whose counter was not reset) it never does. \<open>recv_benchmark\<close> counts
  only the calls that find completions, so it depends on the peer: it finishes on a device on which
  completions keep arriving (\<open>live\<close>), \<open>patience\<close> being the number of polls until the next one.
\<close>

definition bench_good :: "bool \<Rightarrow> progress_fn \<Rightarrow> 'f ProxyArgs \<Rightarrow> bool" where
  "bench_good live f a = (case f of ExampleTask \<Rightarrow> True | SendBenchmark \<Rightarrow> pa_iterations a \<le> 10
     | RecvBenchmark \<Rightarrow> live \<and> pa_iterations a \<le> 10)"

definition bench_rank :: "progress_fn \<Rightarrow> 'f ProxyArgs \<Rightarrow> nat" where
  "bench_rank f a = (case f of ExampleTask \<Rightarrow> 0 | _ \<Rightarrow> nat (11 - pa_iterations a))"

locale completing_device =
  fixes v :: "'w verbs" and live :: bool and patience :: "'w \<Rightarrow> nat"
  assumes empty_poll: "live \<Longrightarrow> v_poll_cq v cq n w = ((0, wcs), w') \<Longrightarrow> patience w' < patience w"
    and clock_patience: "live \<Longrightarrow> v_get_cycles v w = (t, w') \<Longrightarrow> patience w' = patience w"

lemma send_step:
  assumes "pa_state a \<noteq> ProxyOpNone" and "pa_iterations a \<le> 10"
    and "send_benchmark v (a, w) = (a', w')"
  shows "pa_state a' = ProxyOpNone \<or> pa_iterations a' = pa_iterations a + 1 \<and> pa_iterations a < 10"
  using assms
  by (cases "pa_state a")
    (auto simp: send_benchmark_def send_finish_def add_wqes_def set_send_id_def Let_def
      split: prod.splits if_splits)

lemma repost_frame [simp]:
  "pa_state (fst (repost v wcs ks (a, w))) = pa_state a"
  "pa_iterations (fst (repost v wcs ks (a, w))) = pa_iterations a"
  "pa_count (fst (repost v wcs ks (a, w))) = pa_count a"
  by (induction ks arbitrary: a w) (simp_all add: Let_def set_recv_id_def split: prod.split)

lemma recv_first_frame [simp]:
  "pa_state (fst (recv_first_completion v p)) = pa_state (fst p)"
  "pa_iterations (fst (recv_first_completion v p)) = pa_iterations (fst p)"
  by (simp_all add: recv_first_completion_def split: prod.split)

lemma recv_finish_frame [simp]:
  "pa_state (fst (recv_finish v p)) = (if pa_iterations (fst p) = 10 then ProxyOpNone else pa_state (fst p))"
  "pa_iterations (fst (recv_finish v p)) = pa_iterations (fst p)"
  by (simp_all add: recv_finish_def split: prod.split)

text \<open>A call of \<open>recv_benchmark\<close> counts when its poll finds something, and the tenth finishes.\<close>

lemma recv_counts:
  assumes "pa_state a \<noteq> ProxyOpNone" and "pa_iterations a < 10"
    and "v_poll_cq v (ep_cq (pa_endpoint a)) 32 w = ((n, wcs), w1)"
    and "recv_benchmark v (a, w) = (a', w')"
  shows "pa_iterations a' = pa_iterations a + (if n = 0 then 0 else 1)"
    and "pa_state a' = (if pa_iterations a' = 10 then ProxyOpNone else ProxyOpProgress)"
proof -
  have st: "pa_state a = ProxyOpReady \<or> pa_state a = ProxyOpProgress"
    using assms(1) by (cases "pa_state a") auto
  have a': "a' = fst (recv_benchmark v (a, w))" using assms(4) by simp
  show it: "pa_iterations a' = pa_iterations a + (if n = 0 then 0 else 1)"
    using st assms(2,3) unfolding a' by (auto simp: recv_benchmark_def Let_def)
  show "pa_state a' = (if pa_iterations a' = 10 then ProxyOpNone else ProxyOpProgress)"
    using st assms(2,3) unfolding it unfolding a' by (auto simp: recv_benchmark_def Let_def)
qed

context completing_device
begin

lemma recv_waits:
  assumes "live" and "pa_state a \<noteq> ProxyOpNone" and "pa_iterations a < 10"
    and "v_poll_cq v (ep_cq (pa_endpoint a)) 32 w = ((0, wcs), w1)"
    and "recv_benchmark v (a, w) = (a', w')"
  shows "patience w' < patience w"
proof -
  have st: "pa_state a = ProxyOpReady \<or> pa_state a = ProxyOpProgress"
    using assms(2) by (cases "pa_state a") auto
  have first: "patience (snd (recv_first_completion v p)) = patience (snd p)" for p :: "'f ProxyArgs \<times> 'w"
    using clock_patience [OF assms(1)] by (auto simp: recv_first_completion_def split: prod.split)
  have finish: "patience (snd (recv_finish v p)) = patience (snd p)" for p :: "'f ProxyArgs \<times> 'w"
    using clock_patience [OF assms(1)] by (auto simp: recv_finish_def split: prod.split)
  have "w' = snd (recv_benchmark v (a, w))" using assms(5) by simp
  also have "patience \<dots> = patience w1"
    using st assms(3,4) by (auto simp: recv_benchmark_def Let_def first finish)
  also have "\<dots> < patience w" using empty_poll [OF assms(1,4)] .
  finally show ?thesis .
qed

lemma recv_step:
  assumes "bench_good live RecvBenchmark a" and "pa_state a \<noteq> ProxyOpNone"
    and "recv_benchmark v (a, w) = (a', w')"
  shows "pa_state a' = ProxyOpNone \<or> pa_iterations a' = pa_iterations a + 1 \<and> pa_iterations a < 10 \<or>
     pa_iterations a' = pa_iterations a \<and> patience w' < patience w"
proof (cases "pa_iterations a < 10")
  case True
  obtain n wcs w1 where p: "v_poll_cq v (ep_cq (pa_endpoint a)) 32 w = ((n, wcs), w1)"
    by (metis prod.exhaust)
  with recv_counts [OF assms(2) True p assms(3)] recv_waits [of a w wcs w1 a' w'] assms True
  show ?thesis by (auto simp: bench_good_def)
next
  case False
  with assms(1) have "pa_iterations a = 10" by (simp add: bench_good_def)
  then have "pa_state (fst (recv_benchmark v (a, w))) = ProxyOpNone"
    by (auto simp: recv_benchmark_def Let_def)
  with assms(3) show ?thesis by simp
qed

end

sublocale completing_device \<subseteq> terminating_progress "progress_fn_run v" "bench_good live" bench_rank patience
proof
  fix f and a :: "progress_fn ProxyArgs"
  show "bench_good live f (work a) = bench_good live f a" "bench_rank f (work a) = bench_rank f a"
    by (simp_all add: bench_good_def bench_rank_def work_def split: progress_fn.split)
next
  fix f and a a' :: "progress_fn ProxyArgs" and w w' :: 'w
  assume g: "bench_good live f a" "pa_state a \<noteq> ProxyOpNone" "progress_fn_run v f (a, w) = (a', w')"
  then have "pa_state a' = ProxyOpNone \<or> bench_good live f a' \<and>
      (bench_rank f a' < bench_rank f a \<or> bench_rank f a' = bench_rank f a \<and> patience w' < patience w)"
    using send_step [of a v w a' w'] recv_step [of a w a' w']
    by (cases f) (auto simp: bench_good_def bench_rank_def exampleTask_def)
  then show "pa_state a' = ProxyOpNone \<or> bench_good live f a'"
    "pa_state a' = ProxyOpNone \<or> bench_rank f a' < bench_rank f a \<or>
       bench_rank f a' = bench_rank f a \<and> patience w' < patience w" by blast+
qed

context completing_device
begin

lemma terminating: "terminating_progress (progress_fn_run v) (bench_good live) bench_rank patience"
  by unfold_locales

end

lemmas completing_progress = completing_device.terminating

text \<open>Without receive operations nothing is asked of the device.\<close>

interpretation bench: completing_device v False "\<lambda>_. 0" for v :: "'w verbs"
  by unfold_locales simp_all

text \<open>A device on which two of three polls find nothing; its state counts the polls to come.\<close>

definition slow_verbs :: "nat verbs" where
  "slow_verbs =
     \<lparr>v_poll_cq = (\<lambda>_ _ k. if k = 0 then ((1, [\<lparr>wc_id = 0, wc_success = True\<rparr>]), 2) else ((0, []), k - 1)),
      v_post_send = (\<lambda>_ _ k. (0, k)), v_post_recv = (\<lambda>_ _ k. (0, k)), v_get_cycles = (\<lambda>k. (0, k))\<rparr>"

interpretation slow: completing_device slow_verbs True "\<lambda>k. k"
  by unfold_locales (auto simp: slow_verbs_def split: if_splits)

section \<open>Repeated calls\<close>

lemma send_finishes:
  "pa_state a \<noteq> ProxyOpNone \<Longrightarrow> pa_iterations a \<le> 10 \<Longrightarrow>
   \<exists>n \<le> nat (11 - pa_iterations a). pa_state (fst ((send_benchmark v ^^ n) (a, w))) = ProxyOpNone"
proof (induction "nat (11 - pa_iterations a)" arbitrary: a w)
  case (Suc k)
  obtain a' w' where r: "send_benchmark v (a, w) = (a', w')" by fastforce
  show ?case
  proof (cases "pa_state a' = ProxyOpNone")
    case True
    with r Suc.hyps(2) show ?thesis by (intro exI [of _ 1]) simp
  next
    case False
    with send_step [OF Suc.prems r] have i: "pa_iterations a' = pa_iterations a + 1"
      "pa_iterations a < 10" by auto
    with Suc.hyps(2) False have "\<exists>n \<le> nat (11 - pa_iterations a').
        pa_state (fst ((send_benchmark v ^^ n) (a', w'))) = ProxyOpNone"
      by (intro Suc.hyps(1)) auto
    then obtain n where "n \<le> nat (11 - pa_iterations a')"
      "pa_state (fst ((send_benchmark v ^^ n) (a', w'))) = ProxyOpNone" by blast
    with r i show ?thesis by (intro exI [of _ "Suc n"]) (simp add: funpow_swap1)
  qed
qed simp

text \<open>
  What keeps the counters of \<open>recv_benchmark\<close> small. \<open>ibv_poll_cq\<close> returns at most as many completions
  as it is asked for, or a negative value when it fails, and that is an error number: \<open>failure\<close>
  bounds it (the error numbers of Linux are below 134).
\<close>

definition poll_bounded :: "int \<Rightarrow> 'w verbs \<Rightarrow> bool" where
  "poll_bounded failure v \<longleftrightarrow> (\<forall>cq n w. - failure \<le> fst (fst (v_poll_cq v cq n w)) \<and>
     fst (fst (v_poll_cq v cq n w)) \<le> int n)"

text \<open>
  The counters while the operation runs: every call that counts something counts an iteration.
  \<open>start\<close> is what the iterations were at the start.
\<close>

definition recv_bounded :: "int \<Rightarrow> int \<Rightarrow> 'f ProxyArgs \<Rightarrow> bool" where
  "recv_bounded failure start a \<longleftrightarrow> pa_state a \<noteq> ProxyOpReady \<and>
     start \<le> pa_iterations a \<and> pa_iterations a \<le> max 10 start \<and>
     - failure * 10 \<le> pa_count a \<and> pa_count a \<le> 32 * 10 \<and>
     (pa_iterations a < 10 \<longrightarrow>
        - failure * pa_iterations a \<le> pa_count a \<and> pa_count a \<le> 32 * pa_iterations a)"

lemma recv_first_bounded:
  "recv_bounded e i (fst p) \<Longrightarrow> 0 \<le> e \<Longrightarrow> 0 \<le> i \<Longrightarrow> recv_bounded e i (fst (recv_first_completion v p))"
  by (auto simp: recv_first_completion_def recv_bounded_def split: prod.splits)

lemma recv_finish_bounded: "recv_bounded e i (fst p) \<Longrightarrow> recv_bounded e i (fst (recv_finish v p))"
  by (auto simp: recv_finish_def recv_bounded_def split: prod.splits)

text \<open>One poll.\<close>

lemma recv_poll_bounded:
  assumes b: "recv_bounded e i b" "pa_iterations b < 10" and e: "0 \<le> e" "e \<le> 409" and i: "0 \<le> i"
    and n: "- e \<le> n" "n \<le> 32"
  shows "recv_bounded e i (let c = b\<lparr>pa_idle := False\<rparr>;
      c = (if n \<noteq> 0 then c\<lparr>pa_iterations := pa_iterations c + 1\<rparr> else c)
    in c\<lparr>pa_count := int32 (pa_count c + n)\<rparr>)"
proof -
  let ?k = "pa_iterations b"
  have k: "0 \<le> ?k" "- e * ?k \<le> pa_count b" "pa_count b \<le> 32 * ?k"
    using b i by (simp_all add: recv_bounded_def)
  have low: "- e * (?k + 1) \<le> pa_count b + n" using k(2) n(1) by (simp add: algebra_simps)
  have high: "pa_count b + n \<le> 32 * (?k + 1)" using k(3) n(2) by simp
  have top: "e * (?k + 1) \<le> e * 10" using b(2) e(1) by (intro mult_left_mono) simp_all
  have "int32 (pa_count b + n) = pa_count b + n"
    using low high top b(2) e(2) by (intro int32_id) simp_all
  then show ?thesis
    using b k low high top e i by (auto simp: recv_bounded_def Let_def)
qed

lemma recv_bounded_step:
  assumes v: "poll_bounded e v" and e: "0 \<le> e" "e \<le> 409" and i: "0 \<le> i"
    and a: "recv_bounded e i a \<or> pa_state a = ProxyOpReady \<and> pa_iterations a = i"
  shows "recv_bounded e i (fst (recv_benchmark v (a, w)))"
proof -
  define b where "b = (if pa_state a = ProxyOpReady
    then a\<lparr>pa_state := ProxyOpProgress, pa_first_completion := 1, pa_count := 0\<rparr> else a)"
  have b: "recv_bounded e i b" using a e i by (auto simp: b_def recv_bounded_def)
  let ?poll = "v_poll_cq v (ep_cq (pa_endpoint b)) 32 w"
  obtain n wcs w1 where p: "?poll = ((n, wcs), w1)" by (metis prod.exhaust)
  have n: "- e \<le> n" "n \<le> 32" using v p unfolding poll_bounded_def by (metis fst_conv of_nat_numeral)+
  define c where "c = (let c = b\<lparr>pa_idle := False\<rparr>;
      c = (if n \<noteq> 0 then c\<lparr>pa_iterations := pa_iterations c + 1\<rparr> else c)
    in c\<lparr>pa_count := int32 (pa_count c + n)\<rparr>)"
  have c: "recv_bounded e i c" if "pa_iterations b < 10"
    using recv_poll_bounded [OF b that e i n] unfolding c_def .
  then have "recv_bounded e i (fst (repost v wcs [0..<nat n] (c, w1)))" if "pa_iterations b < 10"
    using that by (simp add: recv_bounded_def)
  moreover have "recv_benchmark v (a, w) = recv_finish v
      (if pa_state b = ProxyOpProgress \<and> pa_iterations b < 10
       then recv_first_completion v (repost v wcs [0..<nat n] (c, w1)) else (b, w))"
    using p unfolding recv_benchmark_def Let_def prod.case b_def [symmetric]
    by (simp add: c_def Let_def)
  ultimately show ?thesis
    using b e i by (auto intro!: recv_finish_bounded recv_first_bounded)
qed

lemma recv_bounded_funpow:
  assumes "poll_bounded e v" and "0 \<le> e" and "e \<le> 409" and "pa_state a = ProxyOpReady" and "0 \<le> pa_iterations a"
  shows "recv_bounded e (pa_iterations a) (fst ((recv_benchmark v ^^ Suc n) (a, w)))"
proof (induction n)
  case 0
  show ?case using recv_bounded_step [OF assms(1-3,5), of a w] assms(4) by simp
next
  case (Suc n)
  then show ?case
    using recv_bounded_step [OF assms(1-3,5), of "fst ((recv_benchmark v ^^ Suc n) (a, w))"
        "snd ((recv_benchmark v ^^ Suc n) (a, w))"] by simp
qed

lemma recv_bounded_bits:
  assumes "recv_bounded e i a" and "0 \<le> e" and "e \<le> 409"
  shows "recv_bits a = pa_count a * 65536 * 8"
proof -
  have c: "- 4090 \<le> pa_count a" "pa_count a \<le> 320" using assms by (simp_all add: recv_bounded_def)
  then have "int32 (pa_count a * 65536) = pa_count a * 65536" by (intro int32_id) simp_all
  moreover have "int32 (pa_count a * 65536 * 8) = pa_count a * 65536 * 8"
    using c by (intro int32_id) simp_all
  ultimately show ?thesis by (simp only: recv_bits_def)
qed

end
