(* ===== verification/Proxy_Passes.thy ===== *)
theory Proxy_Passes
  imports Proxy_Safety
begin

text \<open>
  The passes of the proxy thread over its ring, as an observer sees them. The observer looks at the
  operations only, not at the thread's variables: after every visit of an operation at its \<open>idle\<close>
  field, and at the end of every pass (the thread has come back to \<open>handler->ops\<close>) it notes whether
  all visits of the pass were idle. \<open>watched\<close> are the reachable states with these notes; the lemmas
  relate them to the locals \<open>idle\<close> and \<open>idleSpin\<close> of \<open>persistentThread\<close> and to its yields.
\<close>

section \<open>The observer\<close>

text \<open>
  The notes: the passes so far, the latest one first, \<open>True\<close> for an idle one, and whether the visits
  of the current pass have been idle.
\<close>

type_synonym pass_notes = "bool list \<times> bool"

definition found_idle :: "argptr \<Rightarrow> ('f, 'w) sys \<Rightarrow> bool" where
  "found_idle op S =
     (case op of None \<Rightarrow> False | Some r \<Rightarrow> (case heap (mem S) r of None \<Rightarrow> False | Some a \<Rightarrow> pa_idle a))"

text \<open>What the observer notes when an action leads from \<open>S\<close> to \<open>S'\<close>.\<close>

definition observe :: "'f action \<Rightarrow> ('f, 'w) sys \<Rightarrow> ('f, 'w) sys \<Rightarrow> pass_notes \<Rightarrow> pass_notes" where
  "observe act S S' = (\<lambda>(passes, current).
     case act of
       Worker \<Rightarrow>
         if wpc S = W_run then (passes, current \<and> found_idle (w_op S) S')
         else if wpc S = W_link \<and> w_op S' = ops (mem S') then (current # passes, True)
         else (passes, current)
     | _ \<Rightarrow> (passes, current))"

inductive watched :: "('f, 'w) progress_run \<Rightarrow> 'w \<Rightarrow> ('f, 'w) sys \<Rightarrow> pass_notes \<Rightarrow> bool"
  for run :: "('f, 'w) progress_run" and w :: 'w where
  watch_init: "watched run w (init_sys w) ([], True)"
| watch_step: "watched run w S h \<Longrightarrow> legal act S \<Longrightarrow> exec run act S = Some (Inr S') \<Longrightarrow>
     watched run w S' (observe act S S' h)"

text \<open>Observing does not restrict the system.\<close>

lemma reachable_watched: "reachable run w S \<longleftrightarrow> (\<exists>h. watched run w S h)"
proof
  show "reachable run w S \<Longrightarrow> \<exists>h. watched run w S h"
    by (induction rule: reachable.induct) (blast intro: watched.intros)+
next
  assume "\<exists>h. watched run w S h"
  then obtain h where "watched run w S h" ..
  then show "reachable run w S" by induction (blast intro: reachable.intros)+
qed

fun observe_all ::
  "('f, 'w) progress_run \<Rightarrow> 'f action list \<Rightarrow> ('f, 'w) sys \<Rightarrow> pass_notes \<Rightarrow> (('f, 'w) sys \<times> pass_notes) option" where
  "observe_all run [] S h = Some (S, h)"
| "observe_all run (act # acts) S h =
     (if legal act S
      then (case exec run act S of
              Some (Inr S') \<Rightarrow> observe_all run acts S' (observe act S S' h)
            | _ \<Rightarrow> None)
      else None)"

lemma watched_observe_all:
  "watched run w S h \<Longrightarrow> observe_all run acts S h = Some (S', h') \<Longrightarrow> watched run w S' h'"
proof (induction acts arbitrary: S h)
  case (Cons act acts)
  then obtain T where "legal act S" "exec run act S = Some (Inr T)"
    "observe_all run acts T (observe act S T h) = Some (S', h')"
    by (auto split: option.splits sum.splits if_splits)
  with Cons watch_step [of run w S h act T] show ?case by blast
qed simp

section \<open>Idle passes in a row\<close>

definition idle_in_a_row :: "bool list \<Rightarrow> nat" where
  "idle_in_a_row passes = length (takeWhile (\<lambda>idle. idle) passes)"

lemma idle_in_a_row_simps [simp]:
  "idle_in_a_row [] = 0" "idle_in_a_row (True # ps) = Suc (idle_in_a_row ps)"
  "idle_in_a_row (False # ps) = 0"
  by (simp_all add: idle_in_a_row_def)

text \<open>
  What the thread knows of this: \<open>idle\<close> is the current pass, and \<open>idleSpin\<close> counts the idle passes in
  a row, from the last yield on; it is reset in the critical section after the first visit that
  is not idle.
\<close>

definition spin_right :: "('f, 'w) sys \<Rightarrow> pass_notes \<Rightarrow> bool" where
  "spin_right S = (\<lambda>(passes, current).
     w_idle S = current \<and>
     (w_idleSpin S = int (idle_in_a_row passes mod 10) \<or> \<not> current \<and> w_idleSpin S = 0))"

lemma spin_right_simps [simp]:
  "spin_right S (passes, current) \<longleftrightarrow> w_idle S = current \<and>
     (w_idleSpin S = int (idle_in_a_row passes mod 10) \<or> \<not> current \<and> w_idleSpin S = 0)"
  by (simp add: spin_right_def)

lemma worker_run_idle:
  assumes "worker_run run S = Inr S'"
  shows "w_idle S' = (w_idle S \<and> found_idle (w_op S) S')" and "w_idleSpin S' = w_idleSpin S"
proof -
  from assms have "\<exists>a. load (w_op S) (mem S') = Inr a \<and> w_idle S' = (w_idle S \<and> pa_idle a) \<and>
      w_idleSpin S' = w_idleSpin S"
    by (auto simp: worker_run_def sum_bind_eq_Inr split: if_splits prod.splits)
  then obtain a where a: "load (w_op S) (mem S') = Inr a" "w_idle S' = (w_idle S \<and> pa_idle a)"
    "w_idleSpin S' = w_idleSpin S" by blast
  from a(1) have "found_idle (w_op S) S' = pa_idle a"
    by (auto simp: load_def found_idle_def split: option.splits)
  with a(2,3) show "w_idle S' = (w_idle S \<and> found_idle (w_op S) S')" "w_idleSpin S' = w_idleSpin S"
    by simp_all
qed

lemma mod_Suc_10: "Suc n mod 10 = (if n mod 10 = 9 then 0 else Suc (n mod 10))"
  by (simp add: mod_Suc)

text \<open>The second critical section, in one piece.\<close>

lemma worker_link_spin:
  assumes "worker_link S = Inr S'"
  shows "w_op S' = ops (mem S') \<Longrightarrow> w_idle S'"
    and "w_op S' \<noteq> ops (mem S') \<Longrightarrow> w_idle S' = w_idle S \<and> log S' = log S \<and>
      w_idleSpin S' = (if w_idle S then w_idleSpin S else 0)"
    and "w_op S' = ops (mem S') \<Longrightarrow> w_idleSpin S' =
      (if w_idle S then if w_idleSpin S = 9 then 0 else w_idleSpin S + 1 else 0)"
    and "w_op S' = ops (mem S') \<Longrightarrow>
      log S' = (if w_idle S \<and> w_idleSpin S = 9 then log S @ [Yield] else log S)"
proof -
  from assms obtain op nx m where u: "w_op S = Some op" "unlink_next op (mem S) = Inr (nx, m)"
    by (cases "w_idle S") (auto simp: worker_link_def sum_bind_eq_Inr Let_def split: option.splits)
  define T where "T = S\<lparr>mem := m, w_op := nx, w_idleSpin := (if w_idle S then w_idleSpin S else 0)\<rparr>"
  have S': "S' = (if nx = ops m then end_of_pass T else T)\<lparr>wpc := W_check\<rparr>"
    using assms u by (cases "w_idle S") (auto simp: worker_link_def Let_def T_def end_of_pass_def)
  have T: "w_op T = nx" "mem T = m" "log T = log S" "w_idle T = w_idle S"
    "w_idleSpin T = (if w_idle S then w_idleSpin S else 0)" by (simp_all add: T_def)
  have at: "w_op S' = nx" "mem S' = m" by (simp_all add: S' T)
  show "w_op S' = ops (mem S') \<Longrightarrow> w_idle S'"
    and "w_op S' \<noteq> ops (mem S') \<Longrightarrow> w_idle S' = w_idle S \<and> log S' = log S \<and>
      w_idleSpin S' = (if w_idle S then w_idleSpin S else 0)"
    and "w_op S' = ops (mem S') \<Longrightarrow> w_idleSpin S' =
      (if w_idle S then if w_idleSpin S = 9 then 0 else w_idleSpin S + 1 else 0)"
    and "w_op S' = ops (mem S') \<Longrightarrow>
      log S' = (if w_idle S \<and> w_idleSpin S = 9 then log S @ [Yield] else log S)"
    unfolding at by (auto simp: S' T end_of_pass_def Let_def)
qed

lemma spin_right_worker:
  assumes "spin_right S h" and "worker_step run S = Inr S'"
  shows "spin_right S' (observe Worker S S' h)"
proof -
  obtain ps cur where h: "h = (ps, cur)" by (metis prod.exhaust)
  show ?thesis
  proof (cases "wpc S")
    case W_run
    with assms worker_run_idle [of run S S'] show ?thesis by (auto simp: h observe_def)
  next
    case W_link
    with assms(2) have "worker_link S = Inr S'" by simp
    note link = worker_link_spin [OF this]
    show ?thesis
    proof (cases "w_op S' = ops (mem S')")
      case True
      with link(1,3) assms(1) W_link show ?thesis
        by (cases cur) (auto simp: h observe_def mod_Suc_10)
    next
      case False
      with link(2) assms(1) W_link show ?thesis by (cases cur) (auto simp: h observe_def)
    qed
  qed (use assms in \<open>auto simp: h observe_def worker_check_def worker_fetch_def Let_def split: if_splits\<close>)
qed

lemma spin_right_exec:
  assumes "spin_right S h" and "exec run act S = Some (Inr S')"
  shows "spin_right S' (observe act S S' h)"
proof -
  obtain ps cur where h: "h = (ps, cur)" by (metis prod.exhaust)
  show ?thesis
  proof (cases act)
    case Worker
    with assms(2) have "worker_step run S = Inr S'" by simp
    from spin_right_worker [OF assms(1) this] Worker show ?thesis by simp
  qed (use assms in \<open>auto simp: h observe_def signal_def ProxyStart_def ProxyDestroy_begin_def
         ProxyDestroy_finish_def sum_bind_eq_Inr split: if_splits option.splits sum.splits\<close>)
qed

lemma spin_right_watched: "watched run w S h \<Longrightarrow> spin_right S h"
proof (induction rule: watched.induct)
  case watch_init
  show ?case by (simp add: init_sys_def ProxyCreate_def zero_handler_def)
qed (rule spin_right_exec)

text \<open>When the thread yields.\<close>

lemma yields_iff:
  assumes "spin_right S (passes, current)" and "worker_step run S = Inr S'"
  shows "log S' = log S @ [Yield] \<longleftrightarrow>
    wpc S = W_link \<and> w_op S' = ops (mem S') \<and> current \<and> 10 dvd Suc (idle_in_a_row passes)"
proof (cases "wpc S")
  case W_link
  with assms(2) have "worker_link S = Inr S'" by simp
  note link = worker_link_spin [OF this]
  have "10 dvd Suc (idle_in_a_row passes) \<longleftrightarrow> idle_in_a_row passes mod 10 = 9"
    by (simp add: dvd_eq_mod_eq_0 mod_Suc_10)
  with link(2,4) assms(1) W_link show ?thesis by (cases "w_op S' = ops (mem S')") auto
next
  case W_run
  with assms(2) worker_run_log [of run S S'] show ?thesis by auto
qed (use assms(2) in \<open>auto simp: worker_check_def worker_fetch_def Let_def split: if_splits\<close>)

end
