(* ===== verification/Proxy_Properties.thy ===== *)
theory Proxy_Properties
  imports Benchmarks Proxy_Passes
begin

text \<open>
  The properties of the proxy module, stated for the system of client and thread that runs the
  repository's progress functions, and for the queue and the pool by themselves.
\<close>

section \<open>Concrete states for the examples\<close>

text \<open>A device on which nothing ever completes, and the client of \<^verbatim>\<open>examples/proxy_test.cc\<close>.\<close>

definition quiet_verbs :: "unit verbs" where
  "quiet_verbs = \<lparr>v_poll_cq = (\<lambda>_ _ w. ((0, []), w)), v_post_send = (\<lambda>_ _ w. (0, w)),
     v_post_recv = (\<lambda>_ _ w. (0, w)), v_get_cycles = (\<lambda>w. (0, w))\<rparr>"

definition submit :: "nat option \<Rightarrow> argref \<Rightarrow> nat \<Rightarrow> progress_fn \<Rightarrow> progress_fn action list" where
  "submit m r t f =
     [Alloc m,
      Fill r (\<lambda>a. a\<lparr>pa_state := ProxyOpReady, pa_progress := Some f, pa_proxyTail := Some t\<rparr>),
      Append r]"

definition demo :: "progress_fn action list" where
  "demo = NewTail 0 # NewTail 1 # submit (Some 0) (Elem 0 0) 0 SendBenchmark @
     submit None (Elem 0 1) 0 ExampleTask @ submit None (Elem 0 2) 1 ExampleTask"

abbreviation quiet_run :: "progress_fn \<Rightarrow> progress_fn ProxyArgs \<times> unit \<Rightarrow> progress_fn ProxyArgs \<times> unit" where
  "quiet_run \<equiv> progress_fn_run quiet_verbs"

lemma demo_runs:
  "case exec_all quiet_run demo (init_sys ()) of
     Some (Inr S) \<Rightarrow> ops (mem S) = Some (Elem 0 0) \<and> wpc S = W_check \<and> \<not> destroyed S \<and>
       ph_abortFlag (handler (mem S)) = 0 \<and> pool (mem S) \<noteq> None \<and> w_op S = None
   | _ \<Rightarrow> False"
  by code_simp

lemma demo_legal: "legal_all quiet_run demo (init_sys ())"
  by code_simp

lemma demo_good:
  "case exec_all quiet_run demo (init_sys ()) of
     Some (Inr S) \<Rightarrow> ops_good (bench_good False) S | _ \<Rightarrow> False"
  by (simp add: demo_def submit_def init_sys_def ProxyCreate_def zero_handler_def allocateArgs_def
      refill_pool_eq Let_def block_heap_def zero_args_def ProxyArgsAppend_def
      PROXYARGS_ALLOCATE_SIZE_def)
    (auto simp: ops_good_def op_good_def bench_good_def zero_args_def split: argref.split)

text \<open>The state \<open>demo\<close> leads to, with what the examples below need of it.\<close>

lemma demo_state:
  obtains S where "reachable quiet_run () S" and "exec_all quiet_run demo (init_sys ()) = Some (Inr S)"
    and "ops (mem S) = Some (Elem 0 0)" and "wpc S = W_check" and "\<not> destroyed S"
    and "ph_abortFlag (handler (mem S)) = 0" and "pool (mem S) \<noteq> None" and "w_op S = None"
    and "ops_good (bench_good False) S"
proof -
  from demo_runs obtain S where S: "exec_all quiet_run demo (init_sys ()) = Some (Inr S)"
    by (auto split: option.splits sum.splits)
  with reachable_exec_all [OF reach_init demo_legal] have "reachable quiet_run () S" by blast
  with S demo_runs demo_good that show ?thesis by simp
qed

section \<open>The system\<close>

text \<open>
  C1. No fault. In every state that a client which keeps the rules of the interface and the
  thread can reach, and for every next step either of them takes, the code dereferences no null
  pointer and no dangling pointer and calls no null function; it can only end the process, when
  \<open>malloc\<close> fails in \<open>allocateArgs\<close>.
\<close>

theorem proxy_no_fault:
  assumes "reachable (progress_fn_run v) w S" and "legal act S"
  shows "(\<exists>S'. exec (progress_fn_run v) act S = Some (Inr S')) \<or>
     act = Alloc None \<and> exec (progress_fn_run v) act S = Some (Inl ExitOutOfMemory)"
  using bench.sys_inv_exec [OF bench.sys_inv_reachable [OF assms(1)] assms(2)] by blast

theorem proxy_no_fault_witness:
  "\<exists>S. reachable quiet_run () S \<and> ops (mem S) = Some (Elem 0 0) \<and> legal Worker S \<and>
     (\<exists>S'. exec quiet_run Worker S = Some (Inr S'))"
proof -
  obtain S where S: "reachable quiet_run () S" "ops (mem S) = Some (Elem 0 0)" "\<not> destroyed S"
    by (rule demo_state)
  then have "legal Worker S" by simp
  with proxy_no_fault [OF S(1) this] S show ?thesis by blast
qed

text \<open>
  C2. Waiting ends. From any reachable state in which the abort flag is not set, the thread has
  not returned, and every unfinished operation is one whose progress function finishes
  (\<open>exampleTask\<close>, \<open>send_benchmark\<close> with a counter of at most 10, and, on a device on which
  completions keep arriving, \<open>recv_benchmark\<close> with such a counter), after \<open>ProxyStart\<close> the
  thread by itself gets to a state in which \<open>ProxyWaitAllOpFinished\<close> returns.
\<close>

theorem proxy_wait_returns:
  assumes "reachable (progress_fn_run v) w S" and "\<not> destroyed S" and "wpc S \<noteq> W_exit"
    and "ph_abortFlag (handler (mem S)) = 0" and "ops_good (bench_good live) S"
    and "completing_device v live patience"
  shows "\<exists>n S'. steps (progress_fn_run v) n (ProxyStart S) = Inr S' \<and>
     ProxyWaitAllOpFinished_returns S'"
proof (cases "ops (mem S)")
  case None
  then show ?thesis
    by (intro exI [of _ 0] exI [of _ S]) (simp add: ProxyStart_def ProxyWaitAllOpFinished_returns_def)
next
  case (Some r)
  obtain ring fs bl where "sys_rep S ring fs bl" using assms(1,2) by (rule bench.reachable_rep)
  then have "sys_rep (ProxyStart S) ring fs bl" by (rule sys_rep_same_data) simp
  then show ?thesis
    using terminating_progress.wait_returns [OF completing_progress [OF assms(6)], of "ProxyStart S" ring fs bl]
      Some assms(3-5)
    by (auto simp: ProxyStart_def signal_def set_stop_def ops_good_def)
qed

theorem proxy_wait_returns_witness:
  "\<exists>S n S'. reachable quiet_run () S \<and> ops (mem S) = Some (Elem 0 0) \<and>
     steps quiet_run n (ProxyStart S) = Inr S' \<and> ProxyWaitAllOpFinished_returns S'"
proof -
  obtain S where S: "reachable quiet_run () S" "ops (mem S) = Some (Elem 0 0)" "wpc S = W_check"
    "\<not> destroyed S" "ph_abortFlag (handler (mem S)) = 0" "ops_good (bench_good False) S" by (rule demo_state)
  with proxy_wait_returns [OF S(1,4) _ S(5,6) bench.completing_device_axioms] show ?thesis by auto
qed

text \<open>
  C3. \<open>ProxyDestroy\<close> ends and frees everything. Under the same conditions, after the first
  critical section of \<open>ProxyDestroy\<close> the thread finishes the queued operations and returns, so
  \<open>pthread_join\<close> does, and the loop of the second one ends, with every block of the pool freed.
\<close>

theorem proxy_destroy_returns:
  assumes "reachable (progress_fn_run v) w S" and "\<not> destroyed S" and "wpc S \<noteq> W_exit"
    and "ph_abortFlag (handler (mem S)) = 0" and "ops_good (bench_good live) S"
    and "completing_device v live patience"
  shows "\<exists>n S' S''. steps (progress_fn_run v) n (ProxyDestroy_begin S) = Inr S' \<and>
     wpc S' = W_exit \<and> ops (mem S') = None \<and> ProxyDestroy_finish S' = Some (Inr S'') \<and>
     heap (mem S'') = Map.empty \<and> blocks (mem S'') = Map.empty \<and> pools (mem S'') = None"
proof -
  let ?S = "ProxyDestroy_begin S"
  obtain ring fs bl where "sys_rep S ring fs bl" using assms(1,2) by (rule bench.reachable_rep)
  then have rep: "sys_rep ?S ring fs bl" by (rule sys_rep_same_data) simp
  have "\<exists>n S'. steps (progress_fn_run v) n ?S = Inr S' \<and> wpc S' = W_exit \<and> ops (mem S') = None"
    using assms(3-5)
    by (intro terminating_progress.thread_returns [OF completing_progress [OF assms(6)] rep])
      (auto simp: ProxyDestroy_begin_def signal_def set_stop_def ops_good_def)
  then obtain n S' where n: "steps (progress_fn_run v) n ?S = Inr S'" "wpc S' = W_exit"
    "ops (mem S') = None" by blast
  with bench.sys_rep_steps [OF rep, of v n] obtain ring' fs' where "sys_rep S' ring' fs' bl" by auto
  from sys_rep_destroy [OF this] n show ?thesis by blast
qed

theorem proxy_destroy_returns_witness:
  "\<exists>S n S' S''. reachable quiet_run () S \<and> ops (mem S) = Some (Elem 0 0) \<and>
     steps quiet_run n (ProxyDestroy_begin S) = Inr S' \<and> wpc S' = W_exit \<and>
     ProxyDestroy_finish S' = Some (Inr S'') \<and> heap (mem S'') = Map.empty"
proof -
  obtain S where S: "reachable quiet_run () S" "ops (mem S) = Some (Elem 0 0)" "wpc S = W_check"
    "\<not> destroyed S" "ph_abortFlag (handler (mem S)) = 0" "ops_good (bench_good False) S" by (rule demo_state)
  from S(3) have "wpc S \<noteq> W_exit" by simp
  from proxy_destroy_returns [OF S(1,4) this S(5,6) bench.completing_device_axioms] S(1,2) show ?thesis by blast
qed

text \<open>
  C4. First in, first out. In every reachable state the queue is a ring of channels (\<open>sys_rep\<close>),
  and a step changes the operations \<open>chan_of t\<close> of channel \<open>t\<close> only in this way: appending to the
  channel adds the operation at its end, the thread removes the first one, when it is done.
\<close>

theorem proxy_channel_fifo:
  assumes "reachable (progress_fn_run v) w S" and "legal act S" and "act \<noteq> DestroyFinish"
    and "exec (progress_fn_run v) act S = Some (Inr S')"
  shows "\<exists>ring fs bl ring' fs' bl'. sys_rep S ring fs bl \<and> sys_rep S' ring' fs' bl' \<and>
     (\<forall>t. chan_change act S t (chan_of t ring) (chan_of t ring'))"
proof -
  from assms(2) have "\<not> destroyed S" by (cases act) auto
  with assms(1) obtain ring fs bl where rep: "sys_rep S ring fs bl" by (rule bench.reachable_rep)
  have "act \<noteq> Alloc None \<or> fs \<noteq> []"
    using alloc_out_of_memory [of S ring bl "progress_fn_run v"] rep assms(4) by auto
  from bench.sys_rep_exec [OF rep assms(2,3) this, of v] assms(4) rep show ?thesis by fastforce
qed

theorem proxy_channel_fifo_witness:
  "\<exists>S S' ring fs bl ring' fs' bl'. reachable quiet_run () S \<and> ops (mem S) = Some (Elem 0 0) \<and>
     exec quiet_run Worker S = Some (Inr S') \<and> sys_rep S ring fs bl \<and> sys_rep S' ring' fs' bl' \<and>
     (\<forall>t. chan_change Worker S t (chan_of t ring) (chan_of t ring'))"
proof -
  obtain S where S: "reachable quiet_run () S" "ops (mem S) = Some (Elem 0 0)" "\<not> destroyed S"
    by (rule demo_state)
  then have l: "legal Worker S" by simp
  from bench.sys_inv_exec [OF bench.sys_inv_reachable [OF S(1)] l] obtain S' where
    S': "exec quiet_run Worker S = Some (Inr S')" by blast
  from proxy_channel_fifo [OF S(1) l _ S'] S S' show ?thesis by blast
qed

text \<open>
  C5. Only the oldest operation of a channel runs. A step of the thread that calls a progress
  function calls it for the operation at the head of its channel.
\<close>

theorem proxy_runs_heads:
  assumes "reachable (progress_fn_run v) w S" and "\<not> destroyed S"
    and "worker_step (progress_fn_run v) S = Inr S'" and "log S' = log S @ [Progress r]"
  shows "\<exists>ring fs bl t c. sys_rep S ring fs bl \<and> tail_of (heap (mem S)) r = Some t \<and>
     chan_of t ring = r # c"
proof -
  obtain ring fs bl where rep: "sys_rep S ring fs bl" using assms(1,2) by (rule bench.reachable_rep)
  have op: "w_op S = Some r" using assms(3,4) by (rule worker_step_log)
  from rep op have r: "r \<in> set (heads ring)" by (rule sys_rep_current)
  from rep have rr: "ring_rep (heap (mem S)) (tails (mem S)) (cursor S) ring"
    by (simp add: sys_rep_def queue_inv_def)
  then have "ring_wf ring" by (simp add: ring_rep_def)
  then obtain t c where tc: "(t, r # c) \<in> set ring" "chan_of t ring = r # c"
    using r by (rule heads_chan)
  from ring_rep_chan [OF rr tc(1)] have "tail_of (heap (mem S)) r = Some t" by (simp add: chan_rep_def)
  with rep tc show ?thesis by blast
qed

text \<open>The state of \<open>demo\<close> in which the thread is about to call the first progress function.\<close>

lemma demo_run_state:
  "case exec_all quiet_run (demo @ [Worker, Worker]) (init_sys ()) of
     Some (Inr S) \<Rightarrow> \<not> destroyed S \<and> log S = [] \<and>
       (case worker_step quiet_run S of Inr S' \<Rightarrow> log S' = [Progress (Elem 0 0)] | _ \<Rightarrow> False)
   | _ \<Rightarrow> False"
  by code_simp

theorem proxy_runs_heads_witness:
  "\<exists>S S' ring fs bl t c. reachable quiet_run () S \<and> worker_step quiet_run S = Inr S' \<and>
     log S' = log S @ [Progress (Elem 0 0)] \<and>
     sys_rep S ring fs bl \<and> tail_of (heap (mem S)) (Elem 0 0) = Some t \<and>
     chan_of t ring = Elem 0 0 # c"
proof -
  from demo_run_state obtain S where S: "exec_all quiet_run (demo @ [Worker, Worker]) (init_sys ()) =
      Some (Inr S)" by (auto split: option.splits sum.splits)
  with demo_run_state obtain S' where S': "worker_step quiet_run S = Inr S'"
    "log S = []" "log S' = [Progress (Elem 0 0)]" "\<not> destroyed S"
    by (auto split: sum.splits simp del: worker_step.simps)
  have "legal_all quiet_run (demo @ [Worker, Worker]) (init_sys ())" by code_simp
  from reachable_exec_all [OF reach_init this S] have "reachable quiet_run () S" .
  moreover from proxy_runs_heads [OF this S'(4,1), of "Elem 0 0"] S'(2,3) obtain ring fs bl t c where
    "sys_rep S ring fs bl" "tail_of (heap (mem S)) (Elem 0 0) = Some t" "chan_of t ring = Elem 0 0 # c"
    by auto
  moreover have "log S' = log S @ [Progress (Elem 0 0)]" using S' by simp
  ultimately show ?thesis using S'(1) by blast
qed

section \<open>The queue and the pool\<close>

text \<open>
  C6. \<open>ProxyArgsAppend\<close> implements the ring of channels. On memory that represents a ring, read
  from \<open>handler->ops\<close>, and for an operation the client owns, it succeeds, and the new memory
  represents the ring with the operation appended to its channel: behind the channel's last
  operation, or as a new channel after the first one. It writes link fields, tail cells and
  \<open>handler->ops\<close> only.
\<close>

theorem append_refines:
  assumes "queue_inv s (ops s) ring fs" and "appendable s ring fs a t"
  shows "\<exists>s'. ProxyArgsAppend a s = Inr s' \<and>
     queue_inv s' (ops s') (ring_append t a ring) fs \<and> queue_step s s'"
  using assms by (rule append_implements)

text \<open>A client memory with two operations, the first of them queued.\<close>

definition two_ops :: "progress_fn proxy" where
  "two_ops =
     \<lparr>handler = zero_handler\<lparr>ph_ops := Some (Elem 0 0)\<rparr>,
      heap = [Elem 0 0 \<mapsto> zero_args\<lparr>pa_proxyTail := Some 0, pa_next := Some (Elem 0 0)\<rparr>,
              Elem 0 1 \<mapsto> zero_args\<lparr>pa_proxyTail := Some 0\<rparr>],
      tails = [0 \<mapsto> Some (Elem 0 0)], blocks = [0 \<mapsto> None]\<rparr>"

lemma two_ops_inv: "queue_inv two_ops (Some (Elem 0 0)) [(0, [Elem 0 0])] []"
  by (auto simp: two_ops_def queue_inv_def ring_rep_def chan_rep_def pool_rep_def ops_in_def
      zero_handler_def zero_args_def link_defs split: if_splits)

theorem append_refines_witness:
  "\<exists>s'. ProxyArgsAppend (Elem 0 1) two_ops = Inr s' \<and>
     queue_inv s' (ops s') [(0, [Elem 0 0, Elem 0 1])] []"
proof -
  have "appendable two_ops [(0, [Elem 0 0])] [] (Elem 0 1) 0"
    by (simp add: appendable_def two_ops_def zero_args_def)
  moreover have "ops two_ops = Some (Elem 0 0)" by (simp add: two_ops_def)
  ultimately show ?thesis
    using append_refines [of two_ops "[(0, [Elem 0 0])]" "[]" "Elem 0 1" 0] two_ops_inv
    by (auto simp: ring_append_def)
qed

text \<open>
  C7. The thread's critical section implements the ring too. On memory that represents a ring,
  read from the thread's operation \<open>op\<close>, unlinking succeeds; the new memory represents the ring
  advanced by one channel, with the operation now at the front dropped when it is done (its peer
  takes its place, or the channel disappears), and a dropped operation is the first of the free
  list.
\<close>

theorem unlink_refines:
  assumes "queue_inv s (Some op) ring fs"
  shows "\<exists>nx s'. unlink_next op s = Inr (nx, s') \<and>
     queue_inv s' nx (ring_advance (op_done (heap s)) ring)
       (retire_to (ring_retired (op_done (heap s)) ring) fs) \<and> queue_step s s'"
  using unlink_implements [OF assms] by blast

theorem unlink_refines_witness:
  "\<exists>nx s'. unlink_next (Elem 0 0) two_ops = Inr (nx, s') \<and> queue_inv s' nx [] [Elem 0 0]"
  using unlink_refines [OF two_ops_inv]
  by (auto simp: ring_advance_def ring_retired_def two_ops_def op_done_def zero_args_def)

text \<open>
  C8. \<open>allocateArgs\<close>. On a represented queue and pool it takes the first operation of the free
  list without calling \<open>malloc\<close>; when the list is empty it takes the first element of a new block,
  whose other 31 elements become the free list; when \<open>malloc\<close> then fails it ends the process. The
  operation handed out is in no channel and not free any more, its links are null, and nothing
  else of the operations in use has changed (\<open>taken\<close>).
\<close>

theorem allocate_correct:
  assumes "queue_inv s cur ring fs" and "block_inv s bl" and "malloc_ok m s"
  shows "case fs of
      r # fs' \<Rightarrow> (\<exists>s'. allocateArgs m s = Inr (Some r, s') \<and> queue_inv s' cur ring fs' \<and>
        block_inv s' bl \<and> taken s r s')
    | [] \<Rightarrow> (case m of
        None \<Rightarrow> allocateArgs m s = Inl ExitOutOfMemory
      | Some b \<Rightarrow> (\<exists>s'. allocateArgs m s = Inr (Some (Elem b 0), s') \<and>
          queue_inv s' cur ring (List.map (Elem b) [1..<32]) \<and> block_inv s' (b # bl) \<and>
          taken s (Elem b 0) s'))"
proof (cases fs)
  case Nil
  show ?thesis
  proof (cases m)
    case None
    with Nil assms(1) show ?thesis
      by (simp add: queue_inv_def pool_rep_def allocateArgs_def refill_pool_def calloc_pool_def)
  next
    case (Some b)
    with assms(3) have "b \<notin> dom (blocks s)" by (simp add: malloc_ok_def)
    from allocate_from_block [OF assms(1) [unfolded Nil] assms(2) this] Nil Some show ?thesis
      by (auto simp: block_elems_Cons PROXYARGS_ALLOCATE_SIZE_def)
  qed
next
  case (Cons r fs')
  with allocate_from_list [OF assms(1) [unfolded Cons] assms(2), of m] show ?thesis by auto
qed

theorem allocate_correct_witness:
  "\<exists>s'. allocateArgs (Some 7) \<lparr>handler = zero_handler, heap = Map.empty, tails = Map.empty,
       blocks = Map.empty\<rparr> = Inr (Some (Elem 7 0), s' :: progress_fn proxy) \<and>
     queue_inv s' None [] (List.map (Elem 7) [1..<32]) \<and> block_inv s' [7]"
  using allocate_correct [of "\<lparr>handler = zero_handler, heap = Map.empty, tails = Map.empty,
       blocks = Map.empty\<rparr> :: progress_fn proxy" None "[]" "[]" "[]" "Some 7"]
  by (auto simp: queue_inv_def ring_rep_def pool_rep_def ops_in_def block_inv_def malloc_ok_def
      zero_handler_def)

section \<open>Sleeping, yielding and the end\<close>

text \<open>
  C9. No lost wakeup. After \<open>ProxyStart\<close>, and as long as the client appends nothing more, the
  thread never sleeps on the condition variable while there are operations in the queue, whatever
  else the client and the thread do and however often the wait ends spuriously.
\<close>

theorem proxy_no_lost_wakeup:
  assumes "exec_all (progress_fn_run v) (Start # acts) S = Some (Inr S')"
    and "\<forall>act \<in> set acts. (\<nexists>r. act = Append r) \<and> act \<noteq> DestroyFinish"
  shows "\<not> sleeps_with_work S'"
proof -
  have start: "\<not> sleeps_with_work (ProxyStart S)"
    by (simp add: sleeps_with_work_def ProxyStart_def signal_def)
  have "\<not> sleeps_with_work S'"
    if "exec_all (progress_fn_run v) acts T = Some (Inr S')" "\<not> sleeps_with_work T" for T
    using that assms(2)
  proof (induction acts arbitrary: T)
    case (Cons act acts)
    then obtain U where U: "exec (progress_fn_run v) act T = Some (Inr U)"
      "exec_all (progress_fn_run v) acts U = Some (Inr S')" by (auto split: option.splits sum.splits)
    with exec_sleeps [OF U(1)] Cons.prems have "\<not> sleeps_with_work U" by auto
    with Cons U(2) show ?case by simp
  qed simp
  with start assms(1) show ?thesis by simp
qed

text \<open>A client that starts the thread only when it sleeps already.\<close>

definition late_start :: "progress_fn action list" where
  "late_start = [Start, Worker, Worker]"

lemma late_start_runs:
  "case exec_all quiet_run ([Worker, Worker] @ demo) (init_sys ()) of
     Some (Inr S) \<Rightarrow> sleeps_with_work S \<and>
       (case exec_all quiet_run late_start S of Some (Inr S') \<Rightarrow> ops (mem S') \<noteq> None | _ \<Rightarrow> False)
   | _ \<Rightarrow> False"
  unfolding sleeps_with_work_def by code_simp

theorem proxy_no_lost_wakeup_witness:
  "\<exists>S S'. sleeps_with_work S \<and> exec_all quiet_run late_start S = Some (Inr S') \<and>
     ops (mem S') \<noteq> None \<and> \<not> sleeps_with_work S'"
proof -
  from late_start_runs obtain S S' where S: "sleeps_with_work S"
    and S': "exec_all quiet_run late_start S = Some (Inr S')" "ops (mem S') \<noteq> None"
    unfolding run_ok_iff by blast
  with proxy_no_lost_wakeup [of quiet_verbs "[Worker, Worker]" S S'] S(1)
  show ?thesis by (auto simp: late_start_def simp del: exec_all.simps)
qed

text \<open>
  C10. Yielding. Whatever the progress functions do: an observer who notes, pass by pass over the
  ring, whether every operation visited was left idle, finds that the next step of the thread calls
  \<open>sched_yield\<close> exactly when it ends an idle pass and the number of idle passes in a row, since the
  last pass that was not idle, has become a multiple of 10. The local \<open>idleSpin\<close> is that number
  modulo 10, or 0 once the current pass has been found busy.
\<close>

theorem proxy_yield:
  assumes "watched run w S (passes, current)" and "worker_step run S = Inr S'"
  shows "(log S' = log S @ [Yield] \<longleftrightarrow>
       wpc S = W_link \<and> w_op S' = ops (mem S') \<and> current \<and> 10 dvd Suc (idle_in_a_row passes)) \<and>
     (w_idleSpin S = int (idle_in_a_row passes mod 10) \<or> \<not> current \<and> w_idleSpin S = 0)"
proof -
  have "spin_right S (passes, current)" using assms(1) by (rule spin_right_watched)
  with yields_iff [OF this assms(2)] show ?thesis by simp
qed

text \<open>An operation that always reports that it was idle, and ten passes over it.\<close>

definition idle_run :: "unit \<Rightarrow> unit ProxyArgs \<times> unit \<Rightarrow> unit ProxyArgs \<times> unit" where
  "idle_run _ = (\<lambda>(a, w). (a\<lparr>pa_idle := True\<rparr>, w))"

definition idle_passes :: "unit action list" where
  "idle_passes =
     [NewTail 0, Alloc (Some 0),
      Fill (Elem 0 0) (\<lambda>a. a\<lparr>pa_state := ProxyOpReady, pa_progress := Some (), pa_proxyTail := Some 0\<rparr>),
      Append (Elem 0 0), Worker, Worker] @ concat (replicate 9 [Worker, Worker, Worker]) @ [Worker]"

lemma idle_passes_run:
  "case observe_all idle_run idle_passes (init_sys ()) ([], True) of
     Some (S, h) \<Rightarrow> h = (replicate 9 True, True) \<and> wpc S = W_link \<and>
       (case worker_step idle_run S of Inr S' \<Rightarrow> w_op S' = ops (mem S') | _ \<Rightarrow> False)
   | None \<Rightarrow> False"
  by code_simp

theorem proxy_yield_witness:
  "\<exists>S S'. watched idle_run () S (replicate 9 True, True) \<and> worker_step idle_run S = Inr S' \<and>
     log S' = log S @ [Yield]"
proof -
  obtain S S' where S: "observe_all idle_run idle_passes (init_sys ()) ([], True) = Some (S, (replicate 9 True, True))"
    "wpc S = W_link" "worker_step idle_run S = Inr S'" "w_op S' = ops (mem S')"
    using idle_passes_run by (auto split: option.splits sum.splits simp del: worker_step.simps)
  have w: "watched idle_run () S (replicate 9 True, True)"
    by (rule watched_observe_all [OF watch_init S(1)])
  have ten: "idle_in_a_row (replicate 9 True) = 9" by (simp add: idle_in_a_row_def)
  from proxy_yield [OF w S(3)] S(2,4) ten have "log S' = log S @ [Yield]" by simp
  with w S(3) show ?thesis by blast
qed

text \<open>
  The progress functions of the repository never report that they were idle, so with them no pass
  is idle and the thread never yields.
\<close>

lemma repost_idle: "pa_idle (fst (repost v wcs ks p)) = pa_idle (fst p)"
  by (induction v wcs ks p rule: repost.induct) (simp_all add: Let_def set_recv_id_def split: prod.split)

lemma recv_parts_idle:
  "\<not> pa_idle (fst p) \<Longrightarrow> \<not> pa_idle (fst (recv_finish v p))"
  "\<not> pa_idle (fst p) \<Longrightarrow> \<not> pa_idle (fst (recv_first_completion v p))"
  by (auto simp: recv_finish_def recv_first_completion_def split: prod.splits)

lemma examples_not_idle:
  assumes "\<not> pa_idle a"
  shows "\<not> pa_idle (fst (progress_fn_run v f (a, w)))"
proof (cases f)
  case RecvBenchmark
  with assms show ?thesis
    by (auto simp: recv_benchmark_def Let_def repost_idle split: prod.split intro!: recv_parts_idle)
qed (use assms in \<open>auto simp: exampleTask_def send_benchmark_def send_finish_def add_wqes_def
       set_send_id_def Let_def split: prod.splits\<close>)

lemma examples_visit:
  assumes "worker_run (progress_fn_run v) S = Inr S'"
  shows "\<not> found_idle (w_op S) S'"
proof -
  from assms obtain r a where r: "w_op S = Some r" "heap (mem S) r = Some a"
    by (auto simp: worker_run_def sum_bind_eq_Inr store_def split: option.splits)
  let ?a = "a\<lparr>pa_idle := False\<rparr>"
  from assms r have "heap (mem S') r = Some ?a \<or>
      (\<exists>f. heap (mem S') r = Some (fst (progress_fn_run v f (?a, world S))))"
    by (cases "pa_progress a"; cases "progress_fn_run v (the (pa_progress a)) (?a, world S)")
      (auto simp: worker_run_def sum_bind_eq_Inr call_progress_def split: if_splits intro: exI [of _ "the (pa_progress a)"])
  with examples_not_idle [of ?a v] show ?thesis by (auto simp: found_idle_def r)
qed

lemma examples_never_idle:
  "watched (progress_fn_run v) w S h \<Longrightarrow> True \<notin> set (fst h) \<and> (wpc S = W_link \<longrightarrow> \<not> snd h)"
proof (induction rule: watched.induct)
  case watch_init
  show ?case by (simp add: init_sys_def ProxyCreate_def zero_handler_def)
next
  case (watch_step S h act S')
  obtain ps cur where h: "h = (ps, cur)" by (metis prod.exhaust)
  show ?case
  proof (cases act)
    case Worker
    with watch_step.hyps(3) have st: "worker_step (progress_fn_run v) S = Inr S'" by simp
    show ?thesis
    proof (cases "wpc S")
      case W_run
      with st examples_visit [of v S S'] watch_step.IH Worker show ?thesis
        by (simp add: h observe_def)
    next
      case W_link
      with st worker_link_wpc [of S S'] watch_step.IH Worker show ?thesis
        by (auto simp: h observe_def)
    qed (use st watch_step.IH Worker in
        \<open>auto simp: h observe_def worker_check_def worker_fetch_def Let_def split: if_splits\<close>)
  qed (use watch_step.hyps(3) watch_step.IH in \<open>auto simp: h observe_def signal_def ProxyStart_def
      ProxyDestroy_begin_def ProxyDestroy_finish_def sum_bind_eq_Inr
      split: if_splits option.splits sum.splits\<close>)
qed

lemma examples_never_yield:
  assumes "reachable (progress_fn_run v) w S" and "worker_step (progress_fn_run v) S = Inr S'"
  shows "log S' \<noteq> log S @ [Yield]"
proof -
  obtain ps cur where h: "watched (progress_fn_run v) w S (ps, cur)"
    using assms(1) by (auto simp: reachable_watched)
  with yields_iff [OF spin_right_watched [OF h] assms(2)] examples_never_idle [OF h] show ?thesis by auto
qed

text \<open>
  C11. The handler is not usable after \<open>ProxyDestroy\<close>. \<open>ProxyDestroy\<close> frees the pool but leaves
  \<open>handler->pool\<close> and the thread handle as they were: when the free list was not empty, the next
  \<open>allocateArgs\<close> reads freed memory, and \<open>ProxyCreate\<close> starts no new thread.
\<close>

theorem proxy_destroy_dangles:
  assumes "reachable (progress_fn_run v) w S" and "legal DestroyFinish S"
    and "exec (progress_fn_run v) DestroyFinish S = Some (Inr S')"
    and "pool (mem S) \<noteq> None" and "ph_proxyThread (handler (mem S))"
  shows "allocateArgs m (mem S') = Inl WildDeref \<and> ProxyCreate S' = S'"
proof -
  from assms(2) have "\<not> destroyed S" by simp
  with assms(1) obtain ring fs bl where "sys_rep S ring fs bl" by (rule bench.reachable_rep)
  from sys_rep_destroy [OF this] assms(3-5) have "heap (mem S') = Map.empty"
    "pool (mem S') \<noteq> None" "ph_proxyThread (handler (mem S'))" by auto
  then show ?thesis by (simp add: allocate_after_free ProxyCreate_def)
qed

definition short_life :: "progress_fn action list" where
  "short_life = [Alloc (Some 0), DestroyBegin, Worker, Worker]"

lemma short_life_runs:
  "case exec_all quiet_run short_life (init_sys ()) of
     Some (Inr S) \<Rightarrow> legal DestroyFinish S \<and> pool (mem S) = Some (Elem 0 1) \<and>
       ph_proxyThread (handler (mem S)) \<and>
       (case exec quiet_run DestroyFinish S of Some (Inr _) \<Rightarrow> True | _ \<Rightarrow> False)
   | _ \<Rightarrow> False"
  by code_simp

theorem proxy_destroy_dangles_witness:
  "\<exists>S S'. exec_all quiet_run short_life (init_sys ()) = Some (Inr S) \<and>
     exec quiet_run DestroyFinish S = Some (Inr S') \<and>
     allocateArgs (Some 1) (mem S') = Inl WildDeref"
proof -
  have l: "legal_all quiet_run short_life (init_sys ())" by code_simp
  from short_life_runs obtain S where S: "exec_all quiet_run short_life (init_sys ()) = Some (Inr S)"
    unfolding run_ok_iff by blast
  with short_life_runs obtain S' where S': "legal DestroyFinish S" "pool (mem S) \<noteq> None"
    "ph_proxyThread (handler (mem S))" "exec quiet_run DestroyFinish S = Some (Inr S')"
    by (auto split: option.splits sum.splits simp del: exec_all.simps)
  have "reachable quiet_run () S" using reach_init l S by (rule reachable_exec_all)
  from proxy_destroy_dangles [OF this S'(1,4,2,3), of "Some 1"] S S'(4) show ?thesis by blast
qed

section \<open>The benchmark functions\<close>

text \<open>
  C12. The benchmark functions finish. Started with a counter of at most 10, \<open>send_benchmark\<close> sets
  the state of its operation to \<open>ProxyOpNone\<close> within \<open>11 - iterations\<close> calls, whatever the device
  returns (a call that finds no free work queue entry counts as an iteration too); \<open>recv_benchmark\<close>
  does when completions keep arriving, however many of its polls find nothing.
\<close>

theorem benchmarks_finish:
  fixes a :: "progress_fn ProxyArgs"
  assumes "pa_state a \<noteq> ProxyOpNone" and "pa_iterations a \<le> 10" and "completing_device v live patience"
  shows "(\<exists>n \<le> nat (11 - pa_iterations a). pa_state (fst ((send_benchmark v ^^ n) (a, w))) = ProxyOpNone) \<and>
     (live \<longrightarrow> (\<exists>n. pa_state (fst ((recv_benchmark v ^^ n) (a, w))) = ProxyOpNone))"
  using send_finishes [OF assms(1,2)] assms(2)
    terminating_progress.calls_finish [OF completing_progress [OF assms(3)] _ assms(1), of RecvBenchmark]
  by (simp add: bench_good_def)

theorem benchmarks_finish_witness:
  "\<exists>n. pa_state (fst ((recv_benchmark slow_verbs ^^ n)
     (zero_args\<lparr>pa_state := ProxyOpReady\<rparr> :: progress_fn ProxyArgs, 2))) = ProxyOpNone"
  using benchmarks_finish [OF _ _ slow.completing_device_axioms,
      of "zero_args\<lparr>pa_state := ProxyOpReady\<rparr> :: progress_fn ProxyArgs" 2]
  by (simp add: zero_args_def)

text \<open>
  C13. A recycled operation skips its work. \<open>allocateArgs\<close> resets only the links of an operation
  from the free list. One that has run \<open>send_benchmark\<close> or \<open>recv_benchmark\<close> to the end comes back
  with its counter at 10, and unless the client resets it, the next \<open>send_benchmark\<close> on it is
  over in one call that sends nothing.
\<close>

theorem recycled_send_skips:
  assumes "queue_inv s cur ring (r # fs)" and "block_inv s bl"
    and "heap s r = Some x" and "pa_iterations x = 10"
  shows "\<exists>s' y. allocateArgs m s = Inr (Some r, s') \<and> heap s' r = Some y \<and>
     send_benchmark v (y\<lparr>pa_state := ProxyOpReady\<rparr>, w) =
       (y\<lparr>pa_state := ProxyOpNone, pa_idle := False\<rparr>, w)"
proof -
  from allocate_from_list [OF assms(1,2), of m] obtain s' where
    s': "allocateArgs m s = Inr (Some r, s')" "taken s r s'" by blast
  then obtain y where y: "heap s' r = Some y" "payload y = payload x"
    using assms(3) by (auto simp: taken_def)
  then have "pa_iterations (payload y) = pa_iterations (payload x)" by simp
  then have "pa_iterations y = 10" using assms(4) by (simp add: payload_def)
  with s' y show ?thesis by (simp add: send_benchmark_def send_finish_def)
qed

definition recycled :: "progress_fn proxy" where
  "recycled =
     \<lparr>handler = zero_handler\<lparr>ph_pool := Some (Elem 0 0), ph_pools := Some 0\<rparr>,
      heap = (block_heap 0 Map.empty)(Elem 0 0 \<mapsto> zero_args\<lparr>pa_iterations := 10, pa_next := Some (Elem 0 1)\<rparr>),
      tails = Map.empty, blocks = [0 \<mapsto> None]\<rparr>"

lemma recycled_inv:
  "queue_inv recycled None [] (Elem 0 0 # List.map (Elem 0) [1..<PROXYARGS_ALLOCATE_SIZE])"
  "block_inv recycled [0]"
proof -
  have n: "nxt (heap recycled) = nxt (block_heap 0 Map.empty :: progress_fn heap)"
    by (simp add: recycled_def fun_eq_iff nxt_def)
      (simp add: block_heap_def PROXYARGS_ALLOCATE_SIZE_def zero_args_def)
  have d: "dom (heap recycled) = dom (block_heap 0 Map.empty :: progress_fn heap)"
    by (simp add: recycled_def, intro insert_absorb) (simp add: dom_def block_heap_def)
  have "pool_rep (block_heap 0 Map.empty :: progress_fn heap) (Some (Elem 0 0)) (block_elems 0)"
    by (rule pool_rep_block)
  then have "pool_rep (heap recycled) (Some (Elem 0 0)) (block_elems 0)"
    using n d by (simp add: pool_rep_def)
  then show "queue_inv recycled None [] (Elem 0 0 # List.map (Elem 0) [1..<PROXYARGS_ALLOCATE_SIZE])"
    by (simp add: queue_inv_def ring_rep_def ops_in_def recycled_def zero_handler_def block_elems_Cons)
  show "block_inv recycled [0]"
    unfolding block_inv_def d
    by (auto simp: recycled_def zero_handler_def block_next_def block_heap_def split: argref.splits if_splits)
qed

theorem recycled_send_skips_witness:
  "\<exists>s' y. allocateArgs None recycled = Inr (Some (Elem 0 0), s') \<and> heap s' (Elem 0 0) = Some y \<and>
     send_benchmark quiet_verbs (y\<lparr>pa_state := ProxyOpReady\<rparr>, ()) =
       (y\<lparr>pa_state := ProxyOpNone, pa_idle := False\<rparr>, ())"
  by (rule recycled_send_skips [OF recycled_inv,
        where x = "zero_args\<lparr>pa_iterations := 10, pa_next := Some (Elem 0 1)\<rparr>"]) (simp_all add: recycled_def zero_args_def)

text \<open>
  C14. The \<open>int\<close>s of \<open>recv_benchmark\<close> do not overflow. When \<open>ibv_poll_cq\<close> returns at most as many
  completions as asked for, and its failures are error numbers down to \<open>- failure\<close> (at least -409;
  those of Linux are above -134), then after any number of calls the iterations are between what
  they were at the start and 10 (or stay there when they were more), between \<open>- 10 failure\<close> and 320
  completions are counted, and the product that the throughput is computed from, in C \<open>int\<close>s that
  wrap, is the exact product, within 32 bits. \<open>failure\<close> being 0, the sum is never negative.
\<close>

theorem recv_benchmark_bits:
  assumes "poll_bounded failure v" and "0 \<le> failure" and "failure \<le> 409"
    and "pa_state a = ProxyOpReady" and "0 \<le> pa_iterations a"
  shows "let a' = fst ((recv_benchmark v ^^ Suc n) (a, w)) in
     pa_iterations a \<le> pa_iterations a' \<and> pa_iterations a' \<le> max 10 (pa_iterations a) \<and>
     - 10 * failure \<le> pa_count a' \<and> pa_count a' \<le> 320 \<and>
     recv_bits a' = pa_count a' * 65536 * 8 \<and>
     - (2 ^ 31) \<le> pa_count a' * 65536 * 8 \<and> pa_count a' * 65536 * 8 < 2 ^ 31"
  using recv_bounded_funpow [OF assms, of n w] recv_bounded_bits [OF _ assms(2,3)] assms(2,3)
  by (simp add: recv_bounded_def Let_def)

text \<open>A device on which every poll fails with -1.\<close>

definition failing_verbs :: "unit verbs" where
  "failing_verbs = quiet_verbs\<lparr>v_poll_cq := (\<lambda>_ _ w. ((- 1, []), w))\<rparr>"

theorem recv_benchmark_bits_witness:
  "- 10 \<le> pa_count (fst ((recv_benchmark failing_verbs ^^ Suc 20)
     (zero_args\<lparr>pa_state := ProxyOpReady\<rparr> :: progress_fn ProxyArgs, ())))"
proof -
  have "poll_bounded 1 failing_verbs" by (simp add: poll_bounded_def failing_verbs_def)
  from recv_benchmark_bits [OF this, of "zero_args\<lparr>pa_state := ProxyOpReady\<rparr> :: progress_fn ProxyArgs" 20 "()"]
  show ?thesis by (simp add: zero_args_def Let_def)
qed

end
