(* ===== verification/Rdma_Utils.thy ===== *)
theory Rdma_Utils
  imports Prelude
begin

text \<open>
  Device and queue pair set-up (\<^verbatim>\<open>csrc/rdma_utils.h\<close>, \<^verbatim>\<open>csrc/rdma_utils.cc\<close>).

  The verbs library is a parameter: \<open>ibv_open_device\<close> as a function to an optional context,
  \<open>ibv_modify_qp\<close> as a function \<open>modify\<close> of the attributes, the mask and the device state.
  What the code relies on is the table of its manual page, which attributes each transition of
  a queue pair requires and allows: \<open>qp_modify_spec\<close> states it, and \<open>doc_modify\<close> is a
  device that behaves so. \<open>qp_modify_may_fail\<close> promises less: a call may also fail when its mask fits.
\<close>

section \<open>Data\<close>

record ibv_gid =
  subnet_prefix :: "64 word"
  interface_id :: "64 word"

record QpInfo =
  qi_rkey :: "32 word"
  qi_raddr :: "64 word"
  qi_qp_num :: "32 word"
  qi_psn :: "32 word"
  qi_gid :: ibv_gid
  qi_lid :: "16 word"

definition IB_PORT :: "8 word" where "IB_PORT = 1"
definition GID_INDEX :: "8 word" where "GID_INDEX = 3"

definition kMinRnrTimer :: "8 word" where "kMinRnrTimer = 0x12"
definition kTimeout :: "8 word" where "kTimeout = 14"
definition kRetryCount :: "8 word" where "kRetryCount = 7"
definition kRnrRetry :: "8 word" where "kRnrRetry = 7"
definition kMaxDestRdAtomic :: "8 word" where "kMaxDestRdAtomic = 0"
definition kMaxRdAtomic :: "8 word" where "kMaxRdAtomic = 1"

text \<open>Enumerations; the last constructor is a value that is none of the enumerators.\<close>

datatype ibv_port_state =
    IBV_PORT_NOP | IBV_PORT_DOWN | IBV_PORT_INIT | IBV_PORT_ARMED | IBV_PORT_ACTIVE
  | IBV_PORT_ACTIVE_DEFER | port_state_other int

datatype ibv_mtu =
    IBV_MTU_256 | IBV_MTU_512 | IBV_MTU_1024 | IBV_MTU_2048 | IBV_MTU_4096 | mtu_other int

datatype ibv_qp_type = IBV_QPT_RC | IBV_QPT_UC

datatype ibv_qp_state = IBV_QPS_RESET | IBV_QPS_INIT | IBV_QPS_RTR | IBV_QPS_RTS | IBV_QPS_ERR

datatype ibv_access = IBV_ACCESS_LOCAL_WRITE | IBV_ACCESS_REMOTE_WRITE | IBV_ACCESS_ZERO_BASED

datatype ibv_qp_attr_mask =
    IBV_QP_STATE | IBV_QP_CUR_STATE | IBV_QP_ACCESS_FLAGS | IBV_QP_PKEY_INDEX | IBV_QP_PORT
  | IBV_QP_AV | IBV_QP_PATH_MTU | IBV_QP_TIMEOUT | IBV_QP_RETRY_CNT | IBV_QP_RNR_RETRY
  | IBV_QP_RQ_PSN | IBV_QP_MAX_QP_RD_ATOMIC | IBV_QP_ALT_PATH | IBV_QP_MIN_RNR_TIMER
  | IBV_QP_SQ_PSN | IBV_QP_MAX_DEST_RD_ATOMIC | IBV_QP_PATH_MIG_STATE | IBV_QP_DEST_QPN

record ibv_ah_attr =
  ah_dgid :: ibv_gid
  ah_sgid_index :: "8 word"
  ah_flow_label :: "32 word"
  ah_hop_limit :: "8 word"
  ah_traffic_class :: "8 word"
  ah_dlid :: "16 word"
  ah_sl :: "8 word"
  ah_src_path_bits :: "8 word"
  ah_is_global :: "8 word"
  ah_port_num :: "8 word"

record ibv_qp_attr =
  at_qp_state :: ibv_qp_state
  at_path_mtu :: ibv_mtu
  at_rq_psn :: "32 word"
  at_sq_psn :: "32 word"
  at_dest_qp_num :: "32 word"
  at_qp_access_flags :: "ibv_access list"
  at_ah_attr :: ibv_ah_attr
  at_pkey_index :: "16 word"
  at_port_num :: "8 word"
  at_max_rd_atomic :: "8 word"
  at_max_dest_rd_atomic :: "8 word"
  at_min_rnr_timer :: "8 word"
  at_timeout :: "8 word"
  at_retry_cnt :: "8 word"
  at_rnr_retry :: "8 word"

text \<open>\<open>memset(&attributes, 0, sizeof(attributes))\<close>; also what an initialiser leaves unnamed.\<close>

definition zero_ah_attr :: ibv_ah_attr where
  "zero_ah_attr =
     \<lparr>ah_dgid = \<lparr>subnet_prefix = 0, interface_id = 0\<rparr>, ah_sgid_index = 0, ah_flow_label = 0,
      ah_hop_limit = 0, ah_traffic_class = 0, ah_dlid = 0, ah_sl = 0, ah_src_path_bits = 0,
      ah_is_global = 0, ah_port_num = 0\<rparr>"

definition zero_qp_attr :: ibv_qp_attr where
  "zero_qp_attr =
     \<lparr>at_qp_state = IBV_QPS_RESET, at_path_mtu = mtu_other 0, at_rq_psn = 0, at_sq_psn = 0,
      at_dest_qp_num = 0, at_qp_access_flags = [], at_ah_attr = zero_ah_attr, at_pkey_index = 0,
      at_port_num = 0, at_max_rd_atomic = 0, at_max_dest_rd_atomic = 0, at_min_rnr_timer = 0,
      at_timeout = 0, at_retry_cnt = 0, at_rnr_retry = 0\<rparr>"

text \<open>A failed \<open>CHECK\<close> ends the process with a message.\<close>

datatype check_error = CheckFailed string

type_synonym 'w modify_qp = "ibv_qp_attr \<Rightarrow> ibv_qp_attr_mask list \<Rightarrow> 'w \<Rightarrow> int \<times> 'w"

section \<open>Finding a device\<close>

text \<open>
  The loop over the device list: the first device with the name is stored to \<open>*device\<close>, which
  keeps its old value when there is none. A device is a pair of a handle and its name.
\<close>

fun find_device :: "('d \<times> string) list \<Rightarrow> string \<Rightarrow> 'd option \<Rightarrow> 'd option" where
  "find_device [] device_name device = device"
| "find_device ((d, nm) # devices) device_name device =
     (if nm = device_name then Some d else find_device devices device_name device)"

text \<open>
  The result is the new value of \<open>*device\<close> and the context. \<open>None\<close> as the argument of
  \<open>open_device\<close> is the null pointer (the examples start with \<open>device = nullptr\<close>).
\<close>

definition init_ibv_device ::
  "('d \<times> string) list option \<Rightarrow> ('d option \<Rightarrow> 'c option) \<Rightarrow> string \<Rightarrow> 'd option \<Rightarrow>
   check_error + 'd option \<times> 'c" where
  "init_ibv_device device_list open_device device_name device =
     (case device_list of
        None \<Rightarrow> Inl (CheckFailed ''No RDMA devices found'')
      | Some devices \<Rightarrow>
          let device = find_device devices device_name device in
          (case open_device device of
             None \<Rightarrow> Inl (CheckFailed ''Failed to open RDMA device: %s'')
           | Some context \<Rightarrow> Inr (device, context)))"

section \<open>Queue pair transitions\<close>

definition init_attr :: ibv_qp_attr where
  "init_attr =
     zero_qp_attr\<lparr>at_qp_state := IBV_QPS_INIT, at_port_num := IB_PORT, at_pkey_index := 0,
       at_qp_access_flags := [IBV_ACCESS_LOCAL_WRITE, IBV_ACCESS_REMOTE_WRITE]\<rparr>"

definition modify_qp_to_init :: "'w modify_qp \<Rightarrow> 'w \<Rightarrow> int \<times> 'w" where
  "modify_qp_to_init modify w =
     modify init_attr
       [IBV_QP_STATE, IBV_QP_PORT, IBV_QP_PKEY_INDEX, IBV_QP_ACCESS_FLAGS] w"

definition rtr_attr_uc :: "QpInfo \<Rightarrow> ibv_mtu \<Rightarrow> ibv_qp_attr" where
  "rtr_attr_uc neighbor mtu =
     zero_qp_attr\<lparr>at_qp_state := IBV_QPS_RTR, at_dest_qp_num := qi_qp_num neighbor,
       at_rq_psn := qi_psn neighbor, at_max_dest_rd_atomic := kMaxDestRdAtomic,
       at_min_rnr_timer := kMinRnrTimer, at_path_mtu := mtu,
       at_ah_attr := zero_ah_attr\<lparr>ah_is_global := 1, ah_dlid := qi_lid neighbor, ah_sl := 0,
         ah_src_path_bits := 0, ah_port_num := IB_PORT, ah_dgid := qi_gid neighbor,
         ah_sgid_index := GID_INDEX, ah_flow_label := 0, ah_hop_limit := 0xFF,
         ah_traffic_class := 0\<rparr>\<rparr>"

definition modify_qp_to_rtr_uc :: "'w modify_qp \<Rightarrow> QpInfo \<Rightarrow> ibv_mtu \<Rightarrow> 'w \<Rightarrow> int \<times> 'w" where
  "modify_qp_to_rtr_uc modify neighbor mtu w =
     modify (rtr_attr_uc neighbor mtu)
       [IBV_QP_STATE, IBV_QP_PATH_MTU, IBV_QP_DEST_QPN, IBV_QP_RQ_PSN, IBV_QP_AV] w"

definition rts_attr_uc :: ibv_qp_attr where
  "rts_attr_uc =
     zero_qp_attr\<lparr>at_qp_state := IBV_QPS_RTS, at_sq_psn := 0, at_timeout := kTimeout,
       at_retry_cnt := kRetryCount, at_rnr_retry := kRnrRetry, at_max_rd_atomic := kMaxRdAtomic\<rparr>"

definition modify_qp_to_rts_uc :: "'w modify_qp \<Rightarrow> 'w \<Rightarrow> int \<times> 'w" where
  "modify_qp_to_rts_uc modify w = modify rts_attr_uc [IBV_QP_STATE, IBV_QP_SQ_PSN] w"

text \<open>\<open>modify_qp_to_rts_rc\<close> makes two transitions, each of them checked.\<close>

definition rtr_attr_rc :: "QpInfo \<Rightarrow> ibv_mtu \<Rightarrow> ibv_qp_attr" where
  "rtr_attr_rc neighbor mtu =
     zero_qp_attr\<lparr>at_qp_state := IBV_QPS_RTR, at_path_mtu := mtu, at_rq_psn := 0,
       at_dest_qp_num := qi_qp_num neighbor,
       at_ah_attr := zero_ah_attr\<lparr>ah_dlid := qi_lid neighbor, ah_sl := 0, ah_src_path_bits := 0,
         ah_is_global := 1, ah_port_num := IB_PORT, ah_sgid_index := GID_INDEX,
         ah_dgid := qi_gid neighbor, ah_hop_limit := 0xFF, ah_flow_label := 0,
         ah_traffic_class := 0\<rparr>,
       at_max_dest_rd_atomic := 1, at_min_rnr_timer := 0x12\<rparr>"

definition rts_attr_rc :: ibv_qp_attr where
  "rts_attr_rc =
     zero_qp_attr\<lparr>at_qp_state := IBV_QPS_RTS, at_sq_psn := 0, at_max_rd_atomic := 1,
       at_timeout := 14, at_retry_cnt := 7, at_rnr_retry := 7\<rparr>"

definition modify_qp_to_rts_rc ::
  "'w modify_qp \<Rightarrow> QpInfo \<Rightarrow> ibv_mtu \<Rightarrow> 'w \<Rightarrow> check_error + int \<times> 'w" where
  "modify_qp_to_rts_rc modify neighbor mtu w =
     (let (ret, w) = modify (rtr_attr_rc neighbor mtu)
            [IBV_QP_STATE, IBV_QP_AV, IBV_QP_PATH_MTU, IBV_QP_DEST_QPN, IBV_QP_RQ_PSN,
             IBV_QP_MAX_DEST_RD_ATOMIC, IBV_QP_MIN_RNR_TIMER] w
      in if ret \<noteq> 0 then Inl (CheckFailed ''Failed to change qp to rtr, ret = '')
         else
           let (ret, w) = modify rts_attr_rc
                 [IBV_QP_STATE, IBV_QP_TIMEOUT, IBV_QP_RETRY_CNT, IBV_QP_RNR_RETRY,
                  IBV_QP_SQ_PSN, IBV_QP_MAX_QP_RD_ATOMIC] w
           in if ret \<noteq> 0 then Inl (CheckFailed ''Failed to change qp to rts.'')
              else Inr (0, w))"

definition modify_qp_to_rts ::
  "'w modify_qp \<Rightarrow> QpInfo \<Rightarrow> ibv_mtu \<Rightarrow> int \<Rightarrow> 'w \<Rightarrow> check_error + int \<times> 'w" where
  "modify_qp_to_rts modify neighbor mtu reliable w =
     (if reliable \<noteq> 0 then modify_qp_to_rts_rc modify neighbor mtu w
      else
        let (ret, w) = modify_qp_to_rtr_uc modify neighbor mtu w
        in if ret \<noteq> 0 then Inl (CheckFailed ''Failed to modify QP to RTR, ret = '')
           else Inr (modify_qp_to_rts_uc modify w))"

section \<open>What the manual page of ibv_modify_qp promises\<close>

text \<open>A queue pair as its attributes; \<open>required\<close> and \<open>optional\<close> are the manual page's table.\<close>

record qp =
  qp_type :: ibv_qp_type
  qp_attr :: ibv_qp_attr

fun required :: "ibv_qp_type \<Rightarrow> ibv_qp_state \<Rightarrow> ibv_qp_state \<Rightarrow> ibv_qp_attr_mask list option" where
  "required ty IBV_QPS_RESET IBV_QPS_INIT =
     Some [IBV_QP_STATE, IBV_QP_PKEY_INDEX, IBV_QP_PORT, IBV_QP_ACCESS_FLAGS]"
| "required IBV_QPT_UC IBV_QPS_INIT IBV_QPS_RTR =
     Some [IBV_QP_STATE, IBV_QP_AV, IBV_QP_PATH_MTU, IBV_QP_DEST_QPN, IBV_QP_RQ_PSN]"
| "required IBV_QPT_RC IBV_QPS_INIT IBV_QPS_RTR =
     Some [IBV_QP_STATE, IBV_QP_AV, IBV_QP_PATH_MTU, IBV_QP_DEST_QPN, IBV_QP_RQ_PSN,
       IBV_QP_MAX_DEST_RD_ATOMIC, IBV_QP_MIN_RNR_TIMER]"
| "required IBV_QPT_UC IBV_QPS_RTR IBV_QPS_RTS = Some [IBV_QP_STATE, IBV_QP_SQ_PSN]"
| "required IBV_QPT_RC IBV_QPS_RTR IBV_QPS_RTS =
     Some [IBV_QP_STATE, IBV_QP_SQ_PSN, IBV_QP_MAX_QP_RD_ATOMIC, IBV_QP_RETRY_CNT,
       IBV_QP_RNR_RETRY, IBV_QP_TIMEOUT]"
| "required _ _ _ = None"

fun optional :: "ibv_qp_type \<Rightarrow> ibv_qp_state \<Rightarrow> ibv_qp_attr_mask list" where
  "optional _ IBV_QPS_RTR = [IBV_QP_ACCESS_FLAGS, IBV_QP_PKEY_INDEX, IBV_QP_ALT_PATH]"
| "optional IBV_QPT_UC IBV_QPS_RTS =
     [IBV_QP_CUR_STATE, IBV_QP_ACCESS_FLAGS, IBV_QP_ALT_PATH, IBV_QP_PATH_MIG_STATE]"
| "optional IBV_QPT_RC IBV_QPS_RTS =
     [IBV_QP_CUR_STATE, IBV_QP_ACCESS_FLAGS, IBV_QP_ALT_PATH, IBV_QP_PATH_MIG_STATE,
      IBV_QP_MIN_RNR_TIMER]"
| "optional _ _ = []"

definition mask_ok ::
  "ibv_qp_type \<Rightarrow> ibv_qp_state \<Rightarrow> ibv_qp_state \<Rightarrow> ibv_qp_attr_mask list \<Rightarrow> bool" where
  "mask_ok ty st st' flags =
     (case required ty st st' of
        None \<Rightarrow> False
      | Some req \<Rightarrow> set req \<subseteq> set flags \<and> set flags \<subseteq> set req \<union> set (optional ty st'))"

text \<open>The attributes a successful call sets are the ones the mask names.\<close>

fun set_attr :: "ibv_qp_attr \<Rightarrow> ibv_qp_attr_mask \<Rightarrow> ibv_qp_attr \<Rightarrow> ibv_qp_attr" where
  "set_attr new IBV_QP_STATE a = a\<lparr>at_qp_state := at_qp_state new\<rparr>"
| "set_attr new IBV_QP_PORT a = a\<lparr>at_port_num := at_port_num new\<rparr>"
| "set_attr new IBV_QP_PKEY_INDEX a = a\<lparr>at_pkey_index := at_pkey_index new\<rparr>"
| "set_attr new IBV_QP_ACCESS_FLAGS a = a\<lparr>at_qp_access_flags := at_qp_access_flags new\<rparr>"
| "set_attr new IBV_QP_AV a = a\<lparr>at_ah_attr := at_ah_attr new\<rparr>"
| "set_attr new IBV_QP_PATH_MTU a = a\<lparr>at_path_mtu := at_path_mtu new\<rparr>"
| "set_attr new IBV_QP_DEST_QPN a = a\<lparr>at_dest_qp_num := at_dest_qp_num new\<rparr>"
| "set_attr new IBV_QP_RQ_PSN a = a\<lparr>at_rq_psn := at_rq_psn new\<rparr>"
| "set_attr new IBV_QP_SQ_PSN a = a\<lparr>at_sq_psn := at_sq_psn new\<rparr>"
| "set_attr new IBV_QP_MAX_QP_RD_ATOMIC a = a\<lparr>at_max_rd_atomic := at_max_rd_atomic new\<rparr>"
| "set_attr new IBV_QP_MAX_DEST_RD_ATOMIC a = a\<lparr>at_max_dest_rd_atomic := at_max_dest_rd_atomic new\<rparr>"
| "set_attr new IBV_QP_MIN_RNR_TIMER a = a\<lparr>at_min_rnr_timer := at_min_rnr_timer new\<rparr>"
| "set_attr new IBV_QP_TIMEOUT a = a\<lparr>at_timeout := at_timeout new\<rparr>"
| "set_attr new IBV_QP_RETRY_CNT a = a\<lparr>at_retry_cnt := at_retry_cnt new\<rparr>"
| "set_attr new IBV_QP_RNR_RETRY a = a\<lparr>at_rnr_retry := at_rnr_retry new\<rparr>"
| "set_attr _ _ a = a"

definition apply_attr :: "ibv_qp_attr \<Rightarrow> ibv_qp_attr_mask list \<Rightarrow> qp \<Rightarrow> qp" where
  "apply_attr new flags q = q\<lparr>qp_attr := fold (set_attr new) flags (qp_attr q)\<rparr>"

text \<open>
  \<open>view\<close> reads the queue pair off the device state. A call whose mask fits the transition
  returns 0 and sets the attributes, any other call returns an error and leaves the queue pair
  as it was. The locale is the interface; the functions above are its client.
\<close>

locale qp_modify_spec =
  fixes modify :: "'w modify_qp" and view :: "'w \<Rightarrow> qp"
  assumes modify_ok:
    "mask_ok (qp_type (view w)) (at_qp_state (qp_attr (view w))) (at_qp_state new) flags \<Longrightarrow>
       fst (modify new flags w) = 0 \<and> view (snd (modify new flags w)) = apply_attr new flags (view w)"
    and modify_error:
    "\<not> mask_ok (qp_type (view w)) (at_qp_state (qp_attr (view w))) (at_qp_state new) flags \<Longrightarrow>
       fst (modify new flags w) \<noteq> 0 \<and> view (snd (modify new flags w)) = view w"

text \<open>A queue pair that is ready to send to \<open>neighbor\<close>.\<close>

definition connected_to :: "QpInfo \<Rightarrow> ibv_mtu \<Rightarrow> ibv_qp_attr \<Rightarrow> bool" where
  "connected_to neighbor mtu a \<longleftrightarrow>
     at_qp_state a = IBV_QPS_RTS \<and> at_dest_qp_num a = qi_qp_num neighbor \<and>
     at_path_mtu a = mtu \<and> ah_dgid (at_ah_attr a) = qi_gid neighbor \<and>
     ah_dlid (at_ah_attr a) = qi_lid neighbor \<and> ah_is_global (at_ah_attr a) = 1 \<and>
     ah_sgid_index (at_ah_attr a) = GID_INDEX \<and> ah_port_num (at_ah_attr a) = IB_PORT"

lemmas qp_attr_defs = init_attr_def rtr_attr_rc_def rts_attr_rc_def rtr_attr_uc_def rts_attr_uc_def

context qp_modify_spec
begin

lemma modify_okE:
  assumes "mask_ok (qp_type (view w)) (at_qp_state (qp_attr (view w))) (at_qp_state new) flags"
  obtains w' where "modify new flags w = (0, w')" and "view w' = apply_attr new flags (view w)"
  using modify_ok [OF assms] by (cases "modify new flags w") auto

lemma modify_errorE:
  assumes "\<not> mask_ok (qp_type (view w)) (at_qp_state (qp_attr (view w))) (at_qp_state new) flags"
  obtains e w' where "modify new flags w = (e, w')" and "e \<noteq> 0" and "view w' = view w"
  using modify_error [OF assms] by (cases "modify new flags w") auto

lemma to_init:
  assumes "at_qp_state (qp_attr (view w)) = IBV_QPS_RESET"
  obtains w' where "modify_qp_to_init modify w = (0, w')" and "qp_type (view w') = qp_type (view w)"
    and "at_qp_state (qp_attr (view w')) = IBV_QPS_INIT"
    and "set (at_qp_access_flags (qp_attr (view w'))) = {IBV_ACCESS_LOCAL_WRITE, IBV_ACCESS_REMOTE_WRITE}"
proof -
  let ?flags = "[IBV_QP_STATE, IBV_QP_PORT, IBV_QP_PKEY_INDEX, IBV_QP_ACCESS_FLAGS]"
  have "mask_ok (qp_type (view w)) (at_qp_state (qp_attr (view w))) (at_qp_state init_attr) ?flags"
    using assms by (auto simp: mask_ok_def init_attr_def)
  then obtain w' where w': "modify init_attr ?flags w = (0, w')"
    "view w' = apply_attr init_attr ?flags (view w)" by (rule modify_okE)
  show ?thesis
  proof (rule that [of w'])
    show "modify_qp_to_init modify w = (0, w')" by (simp add: modify_qp_to_init_def w'(1))
  qed (simp_all add: w'(2) apply_attr_def qp_attr_defs)
qed

lemma rc_to_rts:
  assumes ty: "qp_type (view w) = IBV_QPT_RC" and st: "at_qp_state (qp_attr (view w)) = IBV_QPS_INIT"
  obtains w' where "modify_qp_to_rts_rc modify neighbor mtu w = Inr (0, w')"
    and "connected_to neighbor mtu (qp_attr (view w'))"
    and "at_rq_psn (qp_attr (view w')) = 0" and "at_sq_psn (qp_attr (view w')) = 0"
proof -
  let ?f1 = "[IBV_QP_STATE, IBV_QP_AV, IBV_QP_PATH_MTU, IBV_QP_DEST_QPN, IBV_QP_RQ_PSN,
             IBV_QP_MAX_DEST_RD_ATOMIC, IBV_QP_MIN_RNR_TIMER]"
  let ?f2 = "[IBV_QP_STATE, IBV_QP_TIMEOUT, IBV_QP_RETRY_CNT, IBV_QP_RNR_RETRY,
                  IBV_QP_SQ_PSN, IBV_QP_MAX_QP_RD_ATOMIC]"
  have "mask_ok (qp_type (view w)) (at_qp_state (qp_attr (view w)))
      (at_qp_state (rtr_attr_rc neighbor mtu)) ?f1"
    using ty st by (auto simp: mask_ok_def rtr_attr_rc_def)
  then obtain w1 where w1: "modify (rtr_attr_rc neighbor mtu) ?f1 w = (0, w1)"
    "view w1 = apply_attr (rtr_attr_rc neighbor mtu) ?f1 (view w)" by (rule modify_okE)
  have "mask_ok (qp_type (view w1)) (at_qp_state (qp_attr (view w1))) (at_qp_state rts_attr_rc) ?f2"
    using ty w1(2) by (auto simp: mask_ok_def apply_attr_def qp_attr_defs)
  then obtain w2 where w2: "modify rts_attr_rc ?f2 w1 = (0, w2)"
    "view w2 = apply_attr rts_attr_rc ?f2 (view w1)" by (rule modify_okE)
  show ?thesis
  proof (rule that [of w2])
    show "modify_qp_to_rts_rc modify neighbor mtu w = Inr (0, w2)"
      by (simp add: modify_qp_to_rts_rc_def w1(1) w2(1))
  qed (simp_all add: w1(2) w2(2) apply_attr_def connected_to_def qp_attr_defs)
qed

lemma uc_to_rts:
  assumes ty: "qp_type (view w) = IBV_QPT_UC" and st: "at_qp_state (qp_attr (view w)) = IBV_QPS_INIT"
  obtains w' where "modify_qp_to_rts modify neighbor mtu 0 w = Inr (0, w')"
    and "connected_to neighbor mtu (qp_attr (view w'))"
    and "at_rq_psn (qp_attr (view w')) = qi_psn neighbor" and "at_sq_psn (qp_attr (view w')) = 0"
proof -
  let ?f1 = "[IBV_QP_STATE, IBV_QP_PATH_MTU, IBV_QP_DEST_QPN, IBV_QP_RQ_PSN, IBV_QP_AV]"
  let ?f2 = "[IBV_QP_STATE, IBV_QP_SQ_PSN]"
  have "mask_ok (qp_type (view w)) (at_qp_state (qp_attr (view w)))
      (at_qp_state (rtr_attr_uc neighbor mtu)) ?f1"
    using ty st by (auto simp: mask_ok_def qp_attr_defs)
  then obtain w1 where w1: "modify (rtr_attr_uc neighbor mtu) ?f1 w = (0, w1)"
    "view w1 = apply_attr (rtr_attr_uc neighbor mtu) ?f1 (view w)" by (rule modify_okE)
  have "mask_ok (qp_type (view w1)) (at_qp_state (qp_attr (view w1))) (at_qp_state rts_attr_uc) ?f2"
    using ty w1(2) by (auto simp: mask_ok_def apply_attr_def qp_attr_defs)
  then obtain w2 where w2: "modify rts_attr_uc ?f2 w1 = (0, w2)"
    "view w2 = apply_attr rts_attr_uc ?f2 (view w1)" by (rule modify_okE)
  show ?thesis
  proof (rule that [of w2])
    show "modify_qp_to_rts modify neighbor mtu 0 w = Inr (0, w2)"
      by (simp add: modify_qp_to_rts_def modify_qp_to_rtr_uc_def modify_qp_to_rts_uc_def w1(1) w2(1))
  qed (simp_all add: w1(2) w2(2) apply_attr_def connected_to_def qp_attr_defs)
qed

text \<open>Using the transitions of the other transport fails at the first step.\<close>

lemma wrong_transport:
  assumes st: "at_qp_state (qp_attr (view w)) = IBV_QPS_INIT"
    and ty: "(qp_type (view w) = IBV_QPT_RC) = (reliable = 0)"
  shows "\<exists>m. modify_qp_to_rts modify neighbor mtu reliable w = Inl (CheckFailed m)"
proof (cases "reliable = 0")
  case True
  with ty st have "\<not> mask_ok (qp_type (view w)) (at_qp_state (qp_attr (view w)))
      (at_qp_state (rtr_attr_uc neighbor mtu))
      [IBV_QP_STATE, IBV_QP_PATH_MTU, IBV_QP_DEST_QPN, IBV_QP_RQ_PSN, IBV_QP_AV]"
    by (auto simp: mask_ok_def qp_attr_defs)
  then show ?thesis
    by (rule modify_errorE) (simp add: modify_qp_to_rts_def modify_qp_to_rtr_uc_def True)
next
  case False
  with ty have "qp_type (view w) = IBV_QPT_UC" by (cases "qp_type (view w)") auto
  with st have "\<not> mask_ok (qp_type (view w)) (at_qp_state (qp_attr (view w)))
      (at_qp_state (rtr_attr_rc neighbor mtu))
      [IBV_QP_STATE, IBV_QP_AV, IBV_QP_PATH_MTU, IBV_QP_DEST_QPN, IBV_QP_RQ_PSN,
             IBV_QP_MAX_DEST_RD_ATOMIC, IBV_QP_MIN_RNR_TIMER]"
    by (auto simp: mask_ok_def qp_attr_defs)
  then show ?thesis
    by (rule modify_errorE) (simp add: modify_qp_to_rts_def modify_qp_to_rts_rc_def False)
qed

end

text \<open>
  The same without the promise that a call with a fitting mask succeeds: a call may fail for other
  reasons (a resource, the firmware), with any result but 0. What is left is that success has had
  the fitting mask and has set the attributes, and that failure leaves the queue pair alone.
\<close>

locale qp_modify_may_fail =
  fixes modify :: "'w modify_qp" and view :: "'w \<Rightarrow> qp"
  assumes success: "modify new flags w = (0, w') \<Longrightarrow>
      mask_ok (qp_type (view w)) (at_qp_state (qp_attr (view w))) (at_qp_state new) flags \<and>
      view w' = apply_attr new flags (view w)"
    and failure: "modify new flags w = (ret, w') \<Longrightarrow> ret \<noteq> 0 \<Longrightarrow> view w' = view w"

sublocale qp_modify_spec \<subseteq> qp_modify_may_fail
proof
  fix new flags w w' ret
  assume "modify new flags w = (0, w')"
  then show "mask_ok (qp_type (view w)) (at_qp_state (qp_attr (view w))) (at_qp_state new) flags \<and>
      view w' = apply_attr new flags (view w)"
    using modify_ok [of w new flags] modify_error [of w new flags] by fastforce
next
  fix new flags w w' ret
  assume "modify new flags w = (ret, w')" "ret \<noteq> 0"
  then show "view w' = view w"
    using modify_ok [of w new flags] modify_error [of w new flags] by fastforce
qed

context qp_modify_spec
begin

lemma may_fail: "qp_modify_may_fail modify view"
  by unfold_locales

end

text \<open>A queue pair that is ready to receive from \<open>neighbor\<close>, but not to send.\<close>

definition receives_from :: "QpInfo \<Rightarrow> ibv_mtu \<Rightarrow> ibv_qp_attr \<Rightarrow> bool" where
  "receives_from neighbor mtu a \<longleftrightarrow>
     at_qp_state a = IBV_QPS_RTR \<and> at_dest_qp_num a = qi_qp_num neighbor \<and>
     at_path_mtu a = mtu \<and> ah_dgid (at_ah_attr a) = qi_gid neighbor \<and>
     ah_dlid (at_ah_attr a) = qi_lid neighbor \<and> ah_is_global (at_ah_attr a) = 1 \<and>
     ah_sgid_index (at_ah_attr a) = GID_INDEX \<and> ah_port_num (at_ah_attr a) = IB_PORT"

context qp_modify_may_fail
begin

lemma init_succeeds:
  assumes "modify_qp_to_init modify w = (0, w')"
  shows "qp_type (view w') = qp_type (view w) \<and> at_qp_state (qp_attr (view w')) = IBV_QPS_INIT"
  using success [OF assms [unfolded modify_qp_to_init_def]]
  by (simp add: apply_attr_def qp_attr_defs)

text \<open>\<open>modify_qp_to_rts\<close> checks the transition to RTR, and returns the result of the one to RTS.\<close>

lemma uc_gets_through:
  assumes "modify_qp_to_rts modify neighbor mtu 0 w = Inr (ret, w')"
  shows "qp_type (view w') = qp_type (view w) \<and> at_rq_psn (qp_attr (view w')) = qi_psn neighbor \<and>
     (if ret = 0 then connected_to neighbor mtu (qp_attr (view w')) \<and> at_sq_psn (qp_attr (view w')) = 0
      else receives_from neighbor mtu (qp_attr (view w')) \<and> (\<exists>v. modify_qp_to_rts_uc modify v = (ret, w')))"
proof -
  let ?f1 = "[IBV_QP_STATE, IBV_QP_PATH_MTU, IBV_QP_DEST_QPN, IBV_QP_RQ_PSN, IBV_QP_AV]"
  obtain r1 w1 where r1: "modify (rtr_attr_uc neighbor mtu) ?f1 w = (r1, w1)" by fastforce
  with assms have "r1 = 0" and r2: "modify rts_attr_uc [IBV_QP_STATE, IBV_QP_SQ_PSN] w1 = (ret, w')"
    by (simp_all add: modify_qp_to_rts_def modify_qp_to_rtr_uc_def modify_qp_to_rts_uc_def split: if_splits)
  with success r1 have w1: "view w1 = apply_attr (rtr_attr_uc neighbor mtu) ?f1 (view w)" by blast
  show ?thesis
  proof (cases "ret = 0")
    case True
    with success r2 have "view w' = apply_attr rts_attr_uc [IBV_QP_STATE, IBV_QP_SQ_PSN] (view w1)" by blast
    with True show ?thesis by (simp add: w1 apply_attr_def connected_to_def qp_attr_defs)
  next
    case False
    with failure r2 have "view w' = view w1" by blast
    moreover have "\<exists>v. modify_qp_to_rts_uc modify v = (ret, w')"
      using r2 by (auto simp: modify_qp_to_rts_uc_def)
    ultimately show ?thesis using False by (simp add: w1 apply_attr_def receives_from_def qp_attr_defs)
  qed
qed

end

text \<open>A device with one queue pair that behaves as documented.\<close>

definition doc_modify :: "qp modify_qp" where
  "doc_modify new flags q =
     (if mask_ok (qp_type q) (at_qp_state (qp_attr q)) (at_qp_state new) flags
      then (0, apply_attr new flags q) else (22, q))"

interpretation doc_qp: qp_modify_spec doc_modify id
  by unfold_locales (simp_all add: doc_modify_def)

text \<open>One whose transitions to RTS fail, with \<open>ENOMEM\<close>, say: it keeps only the weaker promise.\<close>

definition starved_modify :: "qp modify_qp" where
  "starved_modify new flags q = (if at_qp_state new = IBV_QPS_RTS then (12, q) else doc_modify new flags q)"

interpretation starved_qp: qp_modify_may_fail starved_modify id
  by unfold_locales (auto simp: starved_modify_def doc_modify_def split: if_splits)

end
