(* ===== verification/Rdma_Print.thy ===== *)
theory Rdma_Print
  imports Rdma_Utils
begin

text \<open>
  The printing functions of \<^verbatim>\<open>csrc/rdma_utils.cc\<close>: \<open>port_state_to_string\<close>, \<open>mtu_to_string\<close> and
  \<open>print_port_attributes\<close>, with the decimal and hexadecimal output of \<open>std::ostringstream\<close>.
\<close>

section \<open>The code\<close>

definition port_state_to_string :: "ibv_port_state \<Rightarrow> string" where
  "port_state_to_string state =
     (case state of
        IBV_PORT_NOP \<Rightarrow> ''NOP''
      | IBV_PORT_DOWN \<Rightarrow> ''DOWN''
      | IBV_PORT_INIT \<Rightarrow> ''INIT''
      | IBV_PORT_ARMED \<Rightarrow> ''ARMED''
      | IBV_PORT_ACTIVE \<Rightarrow> ''ACTIVE''
      | IBV_PORT_ACTIVE_DEFER \<Rightarrow> ''ACTIVE_DEFER''
      | port_state_other _ \<Rightarrow> ''UNKNOWN'')"

definition mtu_to_string :: "ibv_mtu \<Rightarrow> string" where
  "mtu_to_string mtu =
     (case mtu of
        IBV_MTU_256 \<Rightarrow> ''256''
      | IBV_MTU_512 \<Rightarrow> ''512''
      | IBV_MTU_1024 \<Rightarrow> ''1024''
      | IBV_MTU_2048 \<Rightarrow> ''2048''
      | IBV_MTU_4096 \<Rightarrow> ''4096''
      | mtu_other _ \<Rightarrow> ''UNKNOWN'')"

record ibv_port_attr =
  pt_state :: ibv_port_state
  pt_max_mtu :: ibv_mtu
  pt_active_mtu :: ibv_mtu
  pt_gid_tbl_len :: "32 word"
  pt_port_cap_flags :: "32 word"
  pt_max_msg_sz :: "32 word"
  pt_bad_pkey_cntr :: "32 word"
  pt_qkey_viol_cntr :: "32 word"
  pt_pkey_tbl_len :: "16 word"
  pt_lid :: "16 word"
  pt_sm_lid :: "16 word"
  pt_lmc :: "8 word"
  pt_max_vl_num :: "8 word"
  pt_sm_sl :: "8 word"
  pt_subnet_timeout :: "8 word"
  pt_init_type_reply :: "8 word"
  pt_active_width :: "8 word"
  pt_active_speed :: "8 word"
  pt_phys_state :: "8 word"
  pt_link_layer :: "8 word"
  pt_flags :: "8 word"
  pt_port_cap_flags2 :: "16 word"

text \<open>Output of integers: \<open>std::dec\<close> and \<open>std::hex\<close>; \<open>gid_tbl_len\<close> is an \<open>int\<close>.\<close>

definition digit_chars :: string where
  "digit_chars = ''0123456789abcdef''"

fun render :: "nat \<Rightarrow> nat \<Rightarrow> string" where
  "render b n =
     (if b < 2 \<or> n < b then [digit_chars ! n]
      else render b (n div b) @ [digit_chars ! (n mod b)])"

declare render.simps [simp del]

definition dec :: "'a::len word \<Rightarrow> string" where
  "dec x = render 10 (unat x)"

definition hex :: "'a::len word \<Rightarrow> string" where
  "hex x = render 16 (unat x)"

definition dec_int :: "32 word \<Rightarrow> string" where
  "dec_int x = (if sint x < 0 then ''-'' @ render 10 (nat (- sint x)) else render 10 (nat (sint x)))"

definition newline :: char where
  "newline = CHR 0x0A"

definition port_attribute_lines :: "ibv_port_attr \<Rightarrow> string list" where
  "port_attribute_lines attr =
     [''State: '' @ port_state_to_string (pt_state attr),
      ''Max MTU: '' @ mtu_to_string (pt_max_mtu attr),
      ''Active MTU: '' @ mtu_to_string (pt_active_mtu attr),
      ''GID Table Length: '' @ dec_int (pt_gid_tbl_len attr),
      ''Port Capability Flags: 0x'' @ hex (pt_port_cap_flags attr),
      ''Max Message Size: '' @ dec (pt_max_msg_sz attr),
      ''Bad PKey Counter: '' @ dec (pt_bad_pkey_cntr attr),
      ''QKey Violation Counter: '' @ dec (pt_qkey_viol_cntr attr),
      ''PKey Table Length: '' @ dec (pt_pkey_tbl_len attr),
      ''LID: 0x'' @ hex (pt_lid attr),
      ''SM LID: 0x'' @ hex (pt_sm_lid attr),
      ''LMC: 0x'' @ hex (pt_lmc attr),
      ''Max VL Number: '' @ dec (pt_max_vl_num attr),
      ''SM SL: '' @ dec (pt_sm_sl attr),
      ''Subnet Timeout: '' @ dec (pt_subnet_timeout attr),
      ''Init Type Reply: 0x'' @ hex (pt_init_type_reply attr),
      ''Active Width: '' @ dec (pt_active_width attr),
      ''Active Speed: '' @ dec (pt_active_speed attr),
      ''Physical State: '' @ dec (pt_phys_state attr),
      ''Link Layer: '' @ dec (pt_link_layer attr),
      ''Flags: 0x'' @ hex (pt_flags attr),
      ''Port Capability Flags 2: 0x'' @ hex (pt_port_cap_flags2 attr)]"

datatype log_message = LogError string | LogInfo string

definition print_port_attributes :: "ibv_port_attr option \<Rightarrow> log_message" where
  "print_port_attributes attr =
     (case attr of
        None \<Rightarrow> LogError ''Null ibv_port_attr pointer''
      | Some attr \<Rightarrow>
          LogInfo (concat (List.map (\<lambda>l. l @ [newline])
              (''===== IBV Port Attributes ====='' # port_attribute_lines attr)) @
            ''===============================''))"

section \<open>Numbers can be read back\<close>

definition digit_val :: "char \<Rightarrow> nat" where
  "digit_val c = length (takeWhile (\<lambda>x. x \<noteq> c) digit_chars)"

definition read_num :: "nat \<Rightarrow> string \<Rightarrow> nat" where
  "read_num b s = foldl (\<lambda>n c. n * b + digit_val c) 0 s"

lemma digit_val_chars: "n < 16 \<Longrightarrow> digit_val (digit_chars ! n) = n"
proof -
  have "\<forall>n \<in> set [0..<16]. digit_val (digit_chars ! n) = n" by code_simp
  then show "n < 16 \<Longrightarrow> ?thesis" by simp
qed

lemma read_render:
  assumes "2 \<le> b" and "b \<le> 16"
  shows "read_num b (render b n) = n"
proof (induction n rule: less_induct)
  case (less n)
  show ?case
  proof (cases "n < b")
    case True
    with assms show ?thesis by (simp add: render.simps [of b n] read_num_def digit_val_chars)
  next
    case False
    with assms less.IH [of "n div b"] have "read_num b (render b (n div b)) = n div b" by simp
    moreover have "n mod b < 16" using assms by (meson less_le_trans mod_less_divisor pos2 le_trans)
    ultimately show ?thesis using False assms
      by (simp add: render.simps [of b n] read_num_def digit_val_chars)
  qed
qed

lemma render_inj: "2 \<le> b \<Longrightarrow> b \<le> 16 \<Longrightarrow> render b m = render b n \<longleftrightarrow> m = n"
  by (metis read_render)

lemma dec_inj [simp]: "dec x = dec y \<longleftrightarrow> x = y"
  by (simp add: dec_def render_inj word_unat_eq_iff)

lemma hex_inj [simp]: "hex x = hex y \<longleftrightarrow> x = y"
  by (simp add: hex_def render_inj word_unat_eq_iff)

lemma render_chars: "b \<le> 16 \<Longrightarrow> 2 \<le> b \<Longrightarrow> set (render b n) \<subseteq> set digit_chars"
proof (induction n rule: less_induct)
  case (less n)
  have nth: "digit_chars ! k \<in> set digit_chars" if "k < 16" for k
    using that by (intro nth_mem) (simp add: digit_chars_def)
  show ?case
  proof (cases "n < b")
    case False
    with less have "set (render b (n div b)) \<subseteq> set digit_chars" by simp
    moreover have "n mod b < 16" using less.prems by (meson less_le_trans mod_less_divisor pos2)
    ultimately show ?thesis using False less.prems nth by (simp add: render.simps [of b n])
  qed (use less.prems nth in \<open>simp add: render.simps [of b n]\<close>)
qed

lemma newline_render: "newline \<notin> set (render 10 n)" "newline \<notin> set (render 16 n)"
proof -
  have "newline \<notin> set digit_chars" by (simp add: newline_def digit_chars_def)
  then show "newline \<notin> set (render 10 n)" "newline \<notin> set (render 16 n)"
    using render_chars [of 10 n] render_chars [of 16 n] by auto
qed

lemma minus_render: "CHR ''-'' \<notin> set (render 10 n)"
  using render_chars [of 10 n] by (auto simp: digit_chars_def)

lemma dec_int_inj [simp]: "dec_int x = dec_int y \<longleftrightarrow> x = y"
proof
  assume eq: "dec_int x = dec_int y"
  have neg: "sint z < 0 \<longleftrightarrow> CHR ''-'' \<in> set (dec_int z)" for z
    using minus_render by (auto simp: dec_int_def)
  then have "sint x < 0 \<longleftrightarrow> sint y < 0" by (simp add: eq)
  with eq have "sint x = sint y"
    by (auto simp: dec_int_def render_inj split: if_splits)
  then show "x = y" by (rule signed_word_eqI)
qed simp

lemma newline_numbers [simp]:
  "newline \<notin> set (dec x)" "newline \<notin> set (hex x)" "newline \<notin> set (dec_int y)"
  using newline_render by (auto simp: dec_def hex_def dec_int_def newline_def [symmetric])
    (simp add: newline_def)

section \<open>The printed text determines the attributes\<close>

lemma split_at_newline:
  "newline \<notin> set xs \<Longrightarrow> newline \<notin> set ys \<Longrightarrow>
   xs @ newline # as = ys @ newline # bs \<longleftrightarrow> xs = ys \<and> as = bs"
proof (induction xs arbitrary: ys)
  case Nil
  then show ?case by (cases ys) auto
next
  case (Cons x xs)
  then show ?case by (cases ys) auto
qed

lemma lines_inj:
  assumes "\<forall>l \<in> set ls. newline \<notin> set l" and "\<forall>l \<in> set ms. newline \<notin> set l"
    and "length ls = length ms"
    and "concat (List.map (\<lambda>l. l @ [newline]) ls) @ e = concat (List.map (\<lambda>l. l @ [newline]) ms) @ e"
  shows "ls = ms"
  using assms
proof (induction ls arbitrary: ms)
  case (Cons l ls)
  then obtain m ms' where "ms = m # ms'" by (cases ms) auto
  let ?t = "\<lambda>ls. concat (List.map (\<lambda>l. l @ [newline]) ls) @ e"
  have "l @ newline # ?t ls = m @ newline # ?t ms'" using Cons.prems(4) \<open>ms = m # ms'\<close> by simp
  then have "l = m \<and> ?t ls = ?t ms'"
    using Cons.prems(1,2) \<open>ms = m # ms'\<close> by (subst (asm) split_at_newline) simp_all
  with Cons.IH [of ms'] Cons.prems(1-3) \<open>ms = m # ms'\<close> show ?case by simp
qed simp

definition known_enums :: "ibv_port_attr \<Rightarrow> bool" where
  "known_enums a \<longleftrightarrow>
     (\<forall>i. pt_state a \<noteq> port_state_other i \<and> pt_max_mtu a \<noteq> mtu_other i \<and> pt_active_mtu a \<noteq> mtu_other i)"

lemma port_state_inj:
  "\<forall>i. s \<noteq> port_state_other i \<Longrightarrow> \<forall>i. t \<noteq> port_state_other i \<Longrightarrow>
   port_state_to_string s = port_state_to_string t \<Longrightarrow> s = t"
  by (cases s; cases t) (simp_all add: port_state_to_string_def)

lemma mtu_inj:
  "\<forall>i. s \<noteq> mtu_other i \<Longrightarrow> \<forall>i. t \<noteq> mtu_other i \<Longrightarrow>
   mtu_to_string s = mtu_to_string t \<Longrightarrow> s = t"
  by (cases s; cases t) (simp_all add: mtu_to_string_def)

lemma newline_names [simp]:
  "newline \<notin> set (port_state_to_string s)" "newline \<notin> set (mtu_to_string m)"
  by (cases s; simp add: port_state_to_string_def newline_def)
    (cases m; simp add: mtu_to_string_def newline_def)

lemma newline_lines: "\<forall>l \<in> set (port_attribute_lines a). newline \<notin> set l"
proof -
  have "newline \<notin> set l" if "l = p @ t" "newline \<notin> set p" "newline \<notin> set t" for l p t
    using that by simp
  then show ?thesis
    unfolding port_attribute_lines_def by (simp add: newline_def [symmetric]) (simp add: newline_def)
qed

lemma port_attributes_inj:
  assumes "known_enums a" and "known_enums b"
    and "print_port_attributes (Some a) = print_port_attributes (Some b)"
  shows "a = b"
proof -
  have "port_attribute_lines a = port_attribute_lines b"
    by (rule lines_inj [OF newline_lines newline_lines])
      (use assms(3) in \<open>simp_all add: print_port_attributes_def port_attribute_lines_def\<close>)
  then show ?thesis
    using assms(1,2) port_state_inj mtu_inj
    by (cases a; cases b) (simp add: port_attribute_lines_def known_enums_def)
qed

end
