(* ===== verification/Rdma_Properties.thy ===== *)
theory Rdma_Properties
  imports Rdma_Print
begin

text \<open>
  The properties of the RDMA set-up. Those about queue pairs hold for every device on which
  \<open>ibv_modify_qp\<close> behaves as documented (\<open>qp_modify_spec\<close>); the examples use \<open>doc_modify\<close>.
\<close>

definition fresh_qp :: "ibv_qp_type \<Rightarrow> qp" where
  "fresh_qp ty = \<lparr>qp_type = ty, qp_attr = zero_qp_attr\<rparr>"

definition sample_info :: "32 word \<Rightarrow> 32 word \<Rightarrow> QpInfo" where
  "sample_info qpn psn =
     \<lparr>qi_rkey = 7, qi_raddr = 4096, qi_qp_num = qpn, qi_psn = psn,
      qi_gid = \<lparr>subnet_prefix = 1, interface_id = 2\<rparr>, qi_lid = 5\<rparr>"

lemma doc_spec: "qp_modify_spec doc_modify id"
  by (rule doc_qp.qp_modify_spec_axioms)

text \<open>
  C15. A reliable connection comes up. From a reset RC queue pair, \<open>modify_qp_to_init\<close> and
  \<open>modify_qp_to_rts\<close> with \<open>reliable\<close> set succeed, no \<open>CHECK\<close> fails, and the queue pair is ready to
  send to the neighbour's queue pair at its GID with the given MTU; both packet sequence numbers
  start at 0.
\<close>

theorem rc_comes_up:
  assumes "qp_modify_spec modify view" and "qp_type (view w) = IBV_QPT_RC"
    and "at_qp_state (qp_attr (view w)) = IBV_QPS_RESET" and "reliable \<noteq> 0"
  shows "\<exists>w1 w2. modify_qp_to_init modify w = (0, w1) \<and>
     modify_qp_to_rts modify neighbor mtu reliable w1 = Inr (0, w2) \<and>
     connected_to neighbor mtu (qp_attr (view w2)) \<and>
     at_rq_psn (qp_attr (view w2)) = 0 \<and> at_sq_psn (qp_attr (view w2)) = 0"
proof -
  obtain w1 where w1: "modify_qp_to_init modify w = (0, w1)" "qp_type (view w1) = IBV_QPT_RC"
    "at_qp_state (qp_attr (view w1)) = IBV_QPS_INIT"
    using qp_modify_spec.to_init [OF assms(1,3)] assms(2) by metis
  obtain w2 where "modify_qp_to_rts_rc modify neighbor mtu w1 = Inr (0, w2)"
    "connected_to neighbor mtu (qp_attr (view w2))"
    "at_rq_psn (qp_attr (view w2)) = 0" "at_sq_psn (qp_attr (view w2)) = 0"
    using qp_modify_spec.rc_to_rts [OF assms(1) w1(2,3)] by metis
  with w1 assms(4) show ?thesis by (auto simp: modify_qp_to_rts_def)
qed

theorem rc_comes_up_witness:
  "\<exists>q1 q2. modify_qp_to_init doc_modify (fresh_qp IBV_QPT_RC) = (0, q1) \<and>
     modify_qp_to_rts doc_modify (sample_info 17 300) IBV_MTU_256 1 q1 = Inr (0, q2) \<and>
     at_dest_qp_num (qp_attr q2) = 17"
  using rc_comes_up [OF doc_spec, of "fresh_qp IBV_QPT_RC" 1 "sample_info 17 300" IBV_MTU_256]
  by (auto simp: fresh_qp_def zero_qp_attr_def connected_to_def sample_info_def)

text \<open>
  C16. An unreliable connection comes up, but its sequence numbers fit only when 0 was
  advertised. Two reset UC queue pairs, each set up with the information of the other, both get
  ready to send. The sequence number each of them expects is the one the other advertised, while
  the one each of them starts with is always 0; so they fit in both directions exactly when both
  advertised 0.
\<close>

theorem uc_comes_up:
  assumes "qp_modify_spec modify view"
    and "qp_type (view wa) = IBV_QPT_UC" and "at_qp_state (qp_attr (view wa)) = IBV_QPS_RESET"
    and "qp_type (view wb) = IBV_QPT_UC" and "at_qp_state (qp_attr (view wb)) = IBV_QPS_RESET"
  shows "\<exists>a1 a2 b1 b2. modify_qp_to_init modify wa = (0, a1) \<and> modify_qp_to_init modify wb = (0, b1) \<and>
     modify_qp_to_rts modify info_b mtu 0 a1 = Inr (0, a2) \<and>
     modify_qp_to_rts modify info_a mtu 0 b1 = Inr (0, b2) \<and>
     connected_to info_b mtu (qp_attr (view a2)) \<and> connected_to info_a mtu (qp_attr (view b2)) \<and>
     at_rq_psn (qp_attr (view a2)) = qi_psn info_b \<and> at_sq_psn (qp_attr (view a2)) = 0 \<and>
     at_rq_psn (qp_attr (view b2)) = qi_psn info_a \<and> at_sq_psn (qp_attr (view b2)) = 0 \<and>
     (at_rq_psn (qp_attr (view a2)) = at_sq_psn (qp_attr (view b2)) \<and>
      at_rq_psn (qp_attr (view b2)) = at_sq_psn (qp_attr (view a2)) \<longleftrightarrow>
      qi_psn info_a = 0 \<and> qi_psn info_b = 0)"
proof -
  have up: "\<exists>w1 w2. modify_qp_to_init modify w = (0, w1) \<and>
      modify_qp_to_rts modify info mtu 0 w1 = Inr (0, w2) \<and> connected_to info mtu (qp_attr (view w2)) \<and>
      at_rq_psn (qp_attr (view w2)) = qi_psn info \<and> at_sq_psn (qp_attr (view w2)) = 0"
    if "qp_type (view w) = IBV_QPT_UC" "at_qp_state (qp_attr (view w)) = IBV_QPS_RESET" for w info
  proof -
    note ty = that(1) and st = that(2)
    obtain w1 where w1: "modify_qp_to_init modify w = (0, w1)" "qp_type (view w1) = IBV_QPT_UC"
      "at_qp_state (qp_attr (view w1)) = IBV_QPS_INIT"
      using qp_modify_spec.to_init [OF assms(1) st] ty by metis
    then show ?thesis using qp_modify_spec.uc_to_rts [OF assms(1) w1(2,3)] by metis
  qed
  from up [OF assms(2,3), of info_b] up [OF assms(4,5), of info_a] show ?thesis by metis
qed

theorem uc_comes_up_witness:
  "\<exists>a1 a2. modify_qp_to_init doc_modify (fresh_qp IBV_QPT_UC) = (0, a1) \<and>
     modify_qp_to_rts doc_modify (sample_info 17 301) IBV_MTU_256 0 a1 = Inr (0, a2) \<and>
     at_dest_qp_num (qp_attr a2) = 17 \<and> at_rq_psn (qp_attr a2) = 301 \<and>
     at_sq_psn (qp_attr a2) = 0"
  using uc_comes_up [OF doc_spec, of "fresh_qp IBV_QPT_UC" "fresh_qp IBV_QPT_UC" "sample_info 17 301"
      IBV_MTU_256 "sample_info 18 300"]
  by (auto simp: fresh_qp_def zero_qp_attr_def connected_to_def sample_info_def)

text \<open>
  C17. The transport has to match. On an initialised queue pair, \<open>modify_qp_to_rts\<close> gets to its
  end exactly when \<open>reliable\<close> agrees with the type the queue pair was created with; otherwise the
  first transition is refused and the process ends with a failed \<open>CHECK\<close>.
\<close>

theorem transport_must_match:
  assumes "qp_modify_spec modify view" and "at_qp_state (qp_attr (view w)) = IBV_QPS_INIT"
  shows "(\<exists>w'. modify_qp_to_rts modify neighbor mtu reliable w = Inr (0, w')) \<longleftrightarrow>
     (qp_type (view w) = IBV_QPT_RC \<longleftrightarrow> reliable \<noteq> 0)"
proof (cases "qp_type (view w) = IBV_QPT_RC \<longleftrightarrow> reliable \<noteq> 0")
  case False
  then have "(qp_type (view w) = IBV_QPT_RC) = (reliable = 0)" by blast
  from qp_modify_spec.wrong_transport [OF assms this, of neighbor mtu] False show ?thesis by auto
next
  case True
  show ?thesis
  proof (cases "reliable = 0")
    case r: True
    with True have "qp_type (view w) = IBV_QPT_UC" by (cases "qp_type (view w)") auto
    then obtain w' where "modify_qp_to_rts modify neighbor mtu 0 w = Inr (0, w')"
      using qp_modify_spec.uc_to_rts [OF assms(1) _ assms(2)] by metis
    with r True show ?thesis by blast
  next
    case r: False
    with True obtain w' where "modify_qp_to_rts_rc modify neighbor mtu w = Inr (0, w')"
      using qp_modify_spec.rc_to_rts [OF assms(1) _ assms(2)] by metis
    with r True show ?thesis by (auto simp: modify_qp_to_rts_def)
  qed
qed

theorem transport_must_match_witness:
  "\<not> (\<exists>q. modify_qp_to_rts doc_modify (sample_info 17 0) IBV_MTU_256 1
     \<lparr>qp_type = IBV_QPT_UC, qp_attr = init_attr\<rparr> = Inr (0, q))"
  using transport_must_match [OF doc_spec, of "\<lparr>qp_type = IBV_QPT_UC, qp_attr = init_attr\<rparr>"
      "sample_info 17 0" IBV_MTU_256 1]
  by (simp add: init_attr_def)

text \<open>
  C18. \<open>init_ibv_device\<close> opens the first device with the given name; when no device has it, it
  opens whatever \<open>*device\<close> pointed to before, the null pointer in all the examples, without
  noticing.
\<close>

theorem init_device_choice:
  "init_ibv_device (Some devices) open_device device_name device =
     (let device = (case filter (\<lambda>(d, nm). nm = device_name) devices of
            [] \<Rightarrow> device | (d, _) # _ \<Rightarrow> Some d)
      in case open_device device of
           None \<Rightarrow> Inl (CheckFailed ''Failed to open RDMA device: %s'')
         | Some context \<Rightarrow> Inr (device, context))"
proof -
  have "find_device devices device_name device =
      (case filter (\<lambda>(d, nm). nm = device_name) devices of [] \<Rightarrow> device | (d, _) # _ \<Rightarrow> Some d)"
    by (induction devices device_name device rule: find_device.induct) auto
  then show ?thesis by (simp add: init_ibv_device_def Let_def)
qed

text \<open>
  C19. The port attributes can be read off the log. \<open>print_port_attributes\<close> prints different texts
  for different attributes (as long as the three enumerations hold one of their enumerators):
  every field is printed, in a form that determines it.
\<close>

theorem print_port_attributes_faithful:
  assumes "known_enums a" and "known_enums b"
    and "print_port_attributes (Some a) = print_port_attributes (Some b)"
  shows "a = b"
  using assms by (rule port_attributes_inj)

definition sample_port :: ibv_port_attr where
  "sample_port =
     \<lparr>pt_state = IBV_PORT_ACTIVE, pt_max_mtu = IBV_MTU_4096, pt_active_mtu = IBV_MTU_1024,
      pt_gid_tbl_len = 255, pt_port_cap_flags = 0x4010000, pt_max_msg_sz = 0x40000000,
      pt_bad_pkey_cntr = 0, pt_qkey_viol_cntr = 0, pt_pkey_tbl_len = 1, pt_lid = 0, pt_sm_lid = 0,
      pt_lmc = 0, pt_max_vl_num = 0, pt_sm_sl = 0, pt_subnet_timeout = 0, pt_init_type_reply = 0,
      pt_active_width = 2, pt_active_speed = 32, pt_phys_state = 5, pt_link_layer = 2,
      pt_flags = 1, pt_port_cap_flags2 = 0\<rparr>"

theorem print_port_attributes_faithful_witness:
  "print_port_attributes (Some sample_port) \<noteq>
     print_port_attributes (Some (sample_port\<lparr>pt_lid := 16\<rparr>))"
proof
  assume "print_port_attributes (Some sample_port) =
     print_port_attributes (Some (sample_port\<lparr>pt_lid := 16\<rparr>))"
  then have "sample_port = sample_port\<lparr>pt_lid := 16\<rparr>"
    by (intro print_port_attributes_faithful) (simp_all add: known_enums_def sample_port_def)
  then show False by (simp add: sample_port_def)
qed

end
