(* ===== verification/Socket_Endpoint.thy ===== *)
theory Socket_Endpoint
  imports Prelude
begin

text \<open>
  The TCP rendezvous of two processes (\<^verbatim>\<open>csrc/socket_endpoint.h\<close>, \<^verbatim>\<open>csrc/socket_endpoint.cc\<close>):
  the two constructors, the destructor and \<open>syncData\<close>.

  The sockets interface of the operating system is a parameter: a record of functions on its state
  \<open>'w\<close>, over addresses \<open>'a\<close>. File descriptors are integers, negative ones are failures. The
  logging functions of the class do nothing and are left out.
\<close>

section \<open>The interface of the operating system\<close>

type_synonym byte = "8 word"

record ('a, 'w) sockets =
  s_asprintf :: "int \<Rightarrow> 'w \<Rightarrow> int \<times> 'w"
  s_getaddrinfo :: "string option \<Rightarrow> int \<Rightarrow> 'w \<Rightarrow> (int \<times> 'a list) \<times> 'w"
  s_socket :: "'a \<Rightarrow> 'w \<Rightarrow> int \<times> 'w"
  s_setsockopt :: "int \<Rightarrow> 'w \<Rightarrow> int \<times> 'w"
  s_bind :: "int \<Rightarrow> 'a \<Rightarrow> 'w \<Rightarrow> int \<times> 'w"
  s_connect :: "int \<Rightarrow> 'a \<Rightarrow> 'w \<Rightarrow> int \<times> 'w"
  s_listen :: "int \<Rightarrow> 'w \<Rightarrow> int \<times> 'w"
  s_accept :: "int \<Rightarrow> 'w \<Rightarrow> int \<times> 'w"
  s_close :: "int \<Rightarrow> 'w \<Rightarrow> 'w"
  s_sleep :: "nat \<Rightarrow> 'w \<Rightarrow> 'w"
  s_send :: "int \<Rightarrow> byte list \<Rightarrow> 'w \<Rightarrow> int \<times> 'w"
  s_recv :: "int \<Rightarrow> nat \<Rightarrow> 'w \<Rightarrow> (int \<times> byte list) \<times> 'w"

text \<open>A thrown \<open>std::runtime_error\<close>; the numbers in the messages are left out.\<close>

datatype exn = RuntimeError string

record SocketEndpoint =
  se_sockfd :: int
  se_isDaemon :: bool

section \<open>The server\<close>

text \<open>
  The loop over the addresses: the first socket that can be bound, or a negative number. The
  third argument is the value of \<open>sockfd\<close> so far.
\<close>

fun bind_first :: "('a, 'w) sockets \<Rightarrow> 'a list \<Rightarrow> int \<Rightarrow> 'w \<Rightarrow> int \<times> 'w" where
  "bind_first os [] sockfd w = (sockfd, w)"
| "bind_first os (t # ts) _ w =
     (let (sockfd, w) = s_socket os t w in
      if sockfd \<ge> 0 then
        let (_, w) = s_setsockopt os sockfd w;
            (r, w) = s_bind os sockfd t w
        in if r = 0 then (sockfd, w)
           else bind_first os ts (- 1) (s_close os sockfd w)
      else bind_first os ts sockfd w)"

definition startListening :: "('a, 'w) sockets \<Rightarrow> int \<Rightarrow> 'w \<Rightarrow> (exn + int) \<times> 'w" where
  "startListening os port w =
     (let (n, w) = s_asprintf os port w in
      if n < 0 then (Inl (RuntimeError ''asprintf failed''), w)
      else
        let ((n, res), w) = s_getaddrinfo os None port w in
        if n < 0 then (Inr (- 1), w)
        else
          let (sockfd, w) = bind_first os res (- 1) w in
          if sockfd < 0 then (Inl (RuntimeError ''Couldn't listen to port ''), w)
          else let (_, w) = s_listen os sockfd w in (Inr sockfd, w))"

definition SocketEndpoint_server ::
  "('a, 'w) sockets \<Rightarrow> int \<Rightarrow> 'w \<Rightarrow> (exn + SocketEndpoint) \<times> 'w" where
  "SocketEndpoint_server os port w =
     (case startListening os port w of
        (Inl e, w) \<Rightarrow> (Inl e, w)
      | (Inr sockfd, w) \<Rightarrow>
          let (connfd, w) = s_accept os sockfd w;
              w = s_close os sockfd w
          in if connfd < 0 then (Inl (RuntimeError ''accept() failed''), w)
             else (Inr \<lparr>se_sockfd = connfd, se_isDaemon = True\<rparr>, w))"

section \<open>The client\<close>

fun connect_first :: "('a, 'w) sockets \<Rightarrow> 'a list \<Rightarrow> int \<Rightarrow> 'w \<Rightarrow> int \<times> 'w" where
  "connect_first os [] sockfd w = (sockfd, w)"
| "connect_first os (t # ts) _ w =
     (let (sockfd, w) = s_socket os t w in
      if sockfd \<ge> 0 then
        let (r, w) = s_connect os sockfd t w
        in if r = 0 then (sockfd, w)
           else connect_first os ts (- 1) (s_close os sockfd w)
      else connect_first os ts sockfd w)"

text \<open>The label \<open>connect:\<close> and the \<open>goto\<close> to it; the first argument is \<open>5 - retry\<close>.\<close>

fun connect_retry :: "nat \<Rightarrow> ('a, 'w) sockets \<Rightarrow> 'a list \<Rightarrow> int \<Rightarrow> 'w \<Rightarrow> int \<times> 'w" where
  "connect_retry 0 os res sockfd w = connect_first os res sockfd w"
| "connect_retry (Suc left) os res sockfd w =
     (let (sockfd, w) = connect_first os res sockfd w in
      if sockfd < 0 then connect_retry left os res sockfd (s_sleep os 1 w)
      else (sockfd, w))"

definition SocketEndpoint_client ::
  "('a, 'w) sockets \<Rightarrow> string \<Rightarrow> int \<Rightarrow> 'w \<Rightarrow> (exn + SocketEndpoint) \<times> 'w" where
  "SocketEndpoint_client os serverName port w =
     (let (n, w) = s_asprintf os port w in
      if n < 0 then (Inl (RuntimeError ''asprintf failed''), w)
      else
        let ((n, res), w) = s_getaddrinfo os (Some serverName) port w in
        if n < 0 then (Inl (RuntimeError ''getaddrinfo failed''), w)
        else
          let (sockfd, w) = connect_retry 5 os res (- 1) w in
          if sockfd < 0 then (Inl (RuntimeError ''Couldn't connect to ''), w)
          else (Inr \<lparr>se_sockfd = sockfd, se_isDaemon = False\<rparr>, w))"

definition SocketEndpoint_destructor :: "('a, 'w) sockets \<Rightarrow> SocketEndpoint \<Rightarrow> 'w \<Rightarrow> 'w" where
  "SocketEndpoint_destructor os ep w = s_close os (se_sockfd ep) w"

section \<open>Exchanging data\<close>

text \<open>\<open>recv\<close> overwrites the beginning of the buffer with the bytes it received.\<close>

definition recv_into ::
  "('a, 'w) sockets \<Rightarrow> int \<Rightarrow> nat \<Rightarrow> byte list \<Rightarrow> 'w \<Rightarrow> int \<times> byte list \<times> 'w" where
  "recv_into os fd sz inBuf w =
     (let ((rc, bytes), w) = s_recv os fd sz w
      in (rc, bytes @ drop (length bytes) inBuf, w))"

definition syncData ::
  "('a, 'w) sockets \<Rightarrow> SocketEndpoint \<Rightarrow> nat \<Rightarrow> byte list \<Rightarrow> byte list \<Rightarrow> 'w \<Rightarrow> int \<times> byte list \<times> 'w" where
  "syncData os ep sz outBuf inBuf w =
     (if se_isDaemon ep then
        let (rc, w) = s_send os (se_sockfd ep) (take sz outBuf) w in
        if rc \<le> 0 then (rc, inBuf, w)
        else
          let (rc, inBuf, w) = recv_into os (se_sockfd ep) sz inBuf w in
          if rc \<le> 0 then (rc, inBuf, w) else (0, inBuf, w)
      else
        let (rc, inBuf, w) = recv_into os (se_sockfd ep) sz inBuf w in
        if rc \<le> 0 then (rc, inBuf, w)
        else
          let (rc, w) = s_send os (se_sockfd ep) (take sz outBuf) w in
          if rc \<le> 0 then (rc, inBuf, w) else (0, inBuf, w))"

text \<open>
  \<open>syncReady\<close> sends and receives one byte in the same variable; when the client sends, it sends
  back what it received.
\<close>

definition syncReady :: "('a, 'w) sockets \<Rightarrow> SocketEndpoint \<Rightarrow> 'w \<Rightarrow> int \<times> 'w" where
  "syncReady os ep w =
     (let cmBuf = [0x61] in
      if se_isDaemon ep then (let (rc, _, w) = syncData os ep 1 cmBuf cmBuf w in (rc, w))
      else
        let (rc, cmBuf, w) = recv_into os (se_sockfd ep) 1 cmBuf w in
        if rc \<le> 0 then (rc, w)
        else
          let (rc, w) = s_send os (se_sockfd ep) (take 1 cmBuf) w in
          if rc \<le> 0 then (rc, w) else (0, w))"

section \<open>File descriptors\<close>

text \<open>
  What the manual pages promise about descriptors: \<open>socket\<close> and \<open>accept\<close> return a new one or
  a negative number, \<open>close\<close> releases one, the other calls leave them alone.
\<close>

locale descriptors =
  fixes os :: "('a, 'w) sockets" and fds :: "'w \<Rightarrow> int set"
  assumes socket_fd: "s_socket os t w = (fd, w') \<Longrightarrow>
      if fd \<ge> 0 then fd \<notin> fds w \<and> fds w' = insert fd (fds w) else fds w' = fds w"
    and accept_fd: "s_accept os lfd w = (fd, w') \<Longrightarrow>
      if fd \<ge> 0 then fd \<notin> fds w \<and> fds w' = insert fd (fds w) else fds w' = fds w"
    and close_fd: "fds (s_close os fd w) = fds w - {fd}"
    and fd_nonneg: "fd \<in> fds w \<Longrightarrow> 0 \<le> fd"
    and asprintf_fd: "fds (snd (s_asprintf os port w)) = fds w"
    and getaddrinfo_fd: "fds (snd (s_getaddrinfo os host port w)) = fds w"
    and setsockopt_fd: "fds (snd (s_setsockopt os fd w)) = fds w"
    and bind_fd: "fds (snd (s_bind os fd t w)) = fds w"
    and connect_fd: "fds (snd (s_connect os fd t w)) = fds w"
    and listen_fd: "fds (snd (s_listen os fd w)) = fds w"
    and sleep_fd: "fds (s_sleep os n w) = fds w"
    and send_fd: "fds (snd (s_send os fd bs w)) = fds w"
    and recv_fd: "fds (snd (s_recv os fd n w)) = fds w"
begin

definition gained :: "int \<Rightarrow> 'w \<Rightarrow> 'w \<Rightarrow> bool" where
  "gained fd w w' \<longleftrightarrow>
     (if fd \<ge> 0 then fd \<notin> fds w \<and> fds w' = insert fd (fds w) else fds w' = fds w)"

lemma bind_first_fd: "bind_first os ts fd0 w = (fd, w') \<Longrightarrow> fd0 < 0 \<Longrightarrow> gained fd w w'"
proof (induction ts arbitrary: w fd0)
  case (Cons t ts)
  obtain s w1 where s: "s_socket os t w = (s, w1)" by fastforce
  obtain x w2 where o: "s_setsockopt os s w1 = (x, w2)" by fastforce
  obtain r w3 where b: "s_bind os s t w2 = (r, w3)" by fastforce
  have fd: "fds w2 = fds w1" "fds w3 = fds w1" "fds (s_close os s w3) = fds w1 - {s}"
    using setsockopt_fd [of s w1] bind_fd [of s t w2] close_fd [of s w3] o b by simp_all
  show ?case
  proof (cases "s < 0")
    case True
    with s socket_fd [OF s] Cons have "gained fd w1 w'" "fds w1 = fds w" by auto
    then show ?thesis by (simp only: gained_def)
  next
    case False
    with socket_fd [OF s] fd have closed: "fds (s_close os s w3) = fds w" by auto
    show ?thesis
    proof (cases "r = 0")
      case True
      with Cons.prems s o b False socket_fd [OF s] fd show ?thesis by (simp add: gained_def)
    next
      case r: False
      with Cons.prems s o b False have "gained fd (s_close os s w3) w'"
        by (intro Cons.IH [of "- 1"]) simp_all
      then show ?thesis by (simp only: gained_def closed)
    qed
  qed
qed (simp add: gained_def)

lemma connect_first_fd: "connect_first os ts fd0 w = (fd, w') \<Longrightarrow> fd0 < 0 \<Longrightarrow> gained fd w w'"
proof (induction ts arbitrary: w fd0)
  case (Cons t ts)
  obtain s w1 where s: "s_socket os t w = (s, w1)" by fastforce
  obtain r w2 where c: "s_connect os s t w1 = (r, w2)" by fastforce
  have fd: "fds w2 = fds w1" "fds (s_close os s w2) = fds w1 - {s}"
    using connect_fd [of s t w1] close_fd [of s w2] c by simp_all
  show ?case
  proof (cases "s < 0")
    case True
    with s socket_fd [OF s] Cons have "gained fd w1 w'" "fds w1 = fds w" by auto
    then show ?thesis by (simp only: gained_def)
  next
    case False
    with socket_fd [OF s] fd have closed: "fds (s_close os s w2) = fds w" by auto
    show ?thesis
    proof (cases "r = 0")
      case True
      with Cons.prems s c False socket_fd [OF s] fd show ?thesis by (simp add: gained_def)
    next
      case r: False
      with Cons.prems s c False have "gained fd (s_close os s w2) w'"
        by (intro Cons.IH [of "- 1"]) simp_all
      then show ?thesis by (simp only: gained_def closed)
    qed
  qed
qed (simp add: gained_def)

lemma gained_sleep: "gained fd (s_sleep os n w) w' \<Longrightarrow> gained fd w w'"
  by (simp only: gained_def sleep_fd)

lemma connect_retry_fd:
  "connect_retry n os ts fd0 w = (fd, w') \<Longrightarrow> fd0 < 0 \<Longrightarrow> gained fd w w'"
proof (induction n arbitrary: w fd0)
  case 0
  then show ?case by (simp add: connect_first_fd)
next
  case (Suc n)
  obtain fd1 w1 where c: "connect_first os ts fd0 w = (fd1, w1)" by fastforce
  with Suc.prems have g: "gained fd1 w w1" by (simp add: connect_first_fd)
  show ?case
  proof (cases "fd1 < 0")
    case True
    with c Suc.prems have "connect_retry n os ts fd1 (s_sleep os 1 w1) = (fd, w')" by simp
    then have "gained fd (s_sleep os 1 w1) w'" using True by (rule Suc.IH)
    then have "gained fd w1 w'" by (rule gained_sleep)
    moreover from g True have "fds w1 = fds w" by (simp add: gained_def)
    ultimately show ?thesis by (simp only: gained_def)
  next
    case False
    with c g Suc.prems show ?thesis by simp
  qed
qed

text \<open>The outcome of a constructor: an exception and nothing open, or one descriptor more.\<close>

definition constructed :: "(exn + SocketEndpoint) \<times> 'w \<Rightarrow> 'w \<Rightarrow> bool" where
  "constructed res w \<longleftrightarrow>
     (case res of
        (Inl _, w') \<Rightarrow> fds w' = fds w
      | (Inr ep, w') \<Rightarrow> 0 \<le> se_sockfd ep \<and> se_sockfd ep \<notin> fds w \<and>
          fds w' = insert (se_sockfd ep) (fds w))"

lemma client_constructed: "constructed (SocketEndpoint_client os nm port w) w"
proof -
  obtain n w1 where a: "s_asprintf os port w = (n, w1)" by fastforce
  obtain m res w2 where g: "s_getaddrinfo os (Some nm) port w1 = ((m, res), w2)"
    by (metis prod.exhaust)
  obtain fd w3 where c: "connect_retry 5 os res (- 1) w2 = (fd, w3)" by fastforce
  have "fds w1 = fds w" "fds w2 = fds w1"
    using asprintf_fd [of port w] getaddrinfo_fd [of "Some nm" port w1] a g by simp_all
  with connect_retry_fd [OF c] show ?thesis
    by (auto simp: constructed_def SocketEndpoint_client_def a g c gained_def)
qed

lemma listening:
  assumes "startListening os port w = (r, w')"
  shows "case r of Inl _ \<Rightarrow> fds w' = fds w | Inr fd \<Rightarrow> gained fd w w'"
proof -
  obtain n w1 where a: "s_asprintf os port w = (n, w1)" by fastforce
  obtain m res w2 where g: "s_getaddrinfo os None port w1 = ((m, res), w2)"
    by (metis prod.exhaust)
  obtain fd w3 where b: "bind_first os res (- 1) w2 = (fd, w3)" by fastforce
  obtain x w4 where l: "s_listen os fd w3 = (x, w4)" by fastforce
  have "fds w1 = fds w" "fds w2 = fds w1" "fds w4 = fds w3"
    using asprintf_fd [of port w] getaddrinfo_fd [of None port w1] listen_fd [of fd w3] a g l
    by simp_all
  with bind_first_fd [OF b] assms show ?thesis
    by (auto simp: startListening_def a g b l gained_def split: if_splits)
qed

lemma server_constructed: "constructed (SocketEndpoint_server os port w) w"
proof -
  obtain r w1 where s: "startListening os port w = (r, w1)" by fastforce
  show ?thesis
  proof (cases r)
    case (Inl e)
    with listening [OF s] s show ?thesis by (simp add: constructed_def SocketEndpoint_server_def)
  next
    case (Inr lfd)
    obtain fd w2 where a: "s_accept os lfd w1 = (fd, w2)" by fastforce
    from listening [OF s] Inr have g: "gained lfd w w1" by simp
    have "lfd \<notin> fds w" using g fd_nonneg [of lfd w] by (auto simp: gained_def split: if_splits)
    with g accept_fd [OF a] close_fd [of lfd w2] s a Inr show ?thesis
      by (auto simp: constructed_def SocketEndpoint_server_def gained_def split: if_splits)
  qed
qed

lemma destructor_fd:
  assumes "constructed (Inr ep, w') w"
  shows "fds (SocketEndpoint_destructor os ep w') = fds w"
  using assms by (auto simp: constructed_def SocketEndpoint_destructor_def close_fd)

end

section \<open>A system that behaves so\<close>

text \<open>
  An operating system with one address per host: the open descriptors, the results \<open>connect\<close> will
  have (a missing one is a failure), the bytes that will arrive, and the bytes sent.
\<close>

record tcp =
  tcp_fds :: "int list"
  tcp_connects :: "bool list"
  tcp_in :: "byte list"
  tcp_out :: "byte list"
  tcp_slept :: nat

definition fresh_fd :: "int list \<Rightarrow> int" where
  "fresh_fd xs = fold max xs 2 + 1"

definition new_fd :: "tcp \<Rightarrow> int \<times> tcp" where
  "new_fd w = (fresh_fd (tcp_fds w), w\<lparr>tcp_fds := fresh_fd (tcp_fds w) # tcp_fds w\<rparr>)"

definition tcp_os :: "(unit, tcp) sockets" where
  "tcp_os =
     \<lparr>s_asprintf = (\<lambda>_ w. (5, w)), s_getaddrinfo = (\<lambda>_ _ w. ((0, [()]), w)),
      s_socket = (\<lambda>_ w. new_fd w), s_setsockopt = (\<lambda>_ w. (0, w)), s_bind = (\<lambda>_ _ w. (0, w)),
      s_connect = (\<lambda>_ _ w. (case tcp_connects w of
          True # cs \<Rightarrow> (0, w\<lparr>tcp_connects := cs\<rparr>)
        | _ \<Rightarrow> (- 1, w\<lparr>tcp_connects := tl (tcp_connects w)\<rparr>))),
      s_listen = (\<lambda>_ w. (0, w)), s_accept = (\<lambda>_ w. new_fd w),
      s_close = (\<lambda>fd w. w\<lparr>tcp_fds := filter (\<lambda>x. x \<noteq> fd) (tcp_fds w)\<rparr>),
      s_sleep = (\<lambda>n w. w\<lparr>tcp_slept := tcp_slept w + n\<rparr>),
      s_send = (\<lambda>_ bs w. (int (length bs), w\<lparr>tcp_out := tcp_out w @ bs\<rparr>)),
      s_recv = (\<lambda>_ n w. ((int (length (take n (tcp_in w))), take n (tcp_in w)),
          w\<lparr>tcp_in := drop n (tcp_in w)\<rparr>))\<rparr>"

text \<open>The descriptors a process has open; the standard streams 0, 1 and 2 are not counted.\<close>

definition open_fds :: "tcp \<Rightarrow> int set" where
  "open_fds w = {fd \<in> set (tcp_fds w). 0 \<le> fd}"

lemma fold_max: "x \<in> set xs \<Longrightarrow> x \<le> fold max xs (m :: int)"
proof -
  have mono: "m \<le> fold max xs m" for xs and m :: int
    by (induction xs arbitrary: m) (auto intro: order_trans [OF max.cobounded2])
  show "x \<in> set xs \<Longrightarrow> x \<le> fold max xs m"
  proof (induction xs arbitrary: m)
    case (Cons y ys)
    then show ?case using order_trans [OF max.cobounded1 mono [of "max y m" ys]] by auto
  qed simp
qed

lemma fresh_fd: "fresh_fd xs \<notin> set xs" "0 \<le> fresh_fd xs"
proof -
  show "fresh_fd xs \<notin> set xs" using fold_max [of _ xs 2] by (force simp: fresh_fd_def)
  have "2 \<le> fold max xs (2 :: int)" using fold_max [of 2 "2 # xs" 2] by simp
  then show "0 \<le> fresh_fd xs" by (simp add: fresh_fd_def)
qed

interpretation tcp: descriptors tcp_os open_fds
  by unfold_locales
    (auto simp: tcp_os_def open_fds_def new_fd_def fresh_fd split: list.split bool.split)

end
