(* ===== verification/Socket_Properties.thy ===== *)
theory Socket_Properties
  imports Socket_Endpoint
begin

text \<open>
  The properties of the TCP rendezvous, for every system whose calls treat file descriptors as
  documented (\<open>descriptors\<close>).
\<close>

definition idle_tcp :: "bool list \<Rightarrow> byte list \<Rightarrow> tcp" where
  "idle_tcp connects bytes =
     \<lparr>tcp_fds = [], tcp_connects = connects, tcp_in = bytes, tcp_out = [], tcp_slept = 0\<rparr>"

lemma tcp_descriptors: "descriptors tcp_os open_fds"
  by (rule tcp.descriptors_axioms)

text \<open>
  C20. The client leaks no descriptor. However many connection attempts fail, the client's
  constructor ends with exactly one new descriptor open, the connected socket, or with an
  exception and none.
\<close>

theorem client_no_leak:
  assumes "descriptors os fds" and "SocketEndpoint_client os host port w = (r, w')"
  shows "case r of
      Inl _ \<Rightarrow> fds w' = fds w
    | Inr ep \<Rightarrow> 0 \<le> se_sockfd ep \<and> se_sockfd ep \<notin> fds w \<and> fds w' = insert (se_sockfd ep) (fds w)"
  using descriptors.client_constructed [OF assms(1), of host port w] assms
  by (simp add: descriptors.constructed_def split: sum.splits)

theorem client_no_leak_witness:
  "\<exists>ep w'. SocketEndpoint_client tcp_os ''host'' 12345 (idle_tcp [False, False, True] []) = (Inr ep, w') \<and>
     open_fds w' = {se_sockfd ep}"
proof -
  let ?r = "SocketEndpoint_client tcp_os ''host'' 12345 (idle_tcp [False, False, True] [])"
  have "case fst ?r of Inr _ \<Rightarrow> True | Inl _ \<Rightarrow> False" by code_simp
  then obtain ep w' where r: "?r = (Inr ep, w')" by (cases ?r) (auto split: sum.splits)
  from client_no_leak [OF tcp_descriptors r] have "open_fds w' = {se_sockfd ep}"
    by (simp add: open_fds_def idle_tcp_def)
  with r show ?thesis by blast
qed

text \<open>
  C21. The server leaks no descriptor. The server's constructor ends with exactly one new
  descriptor open, the accepted connection (the listening socket is closed), or with an
  exception and none; the destructor closes it again.
\<close>

theorem server_no_leak:
  assumes "descriptors os fds" and "SocketEndpoint_server os port w = (r, w')"
  shows "case r of
      Inl _ \<Rightarrow> fds w' = fds w
    | Inr ep \<Rightarrow> fds w' = insert (se_sockfd ep) (fds w) \<and>
        fds (SocketEndpoint_destructor os ep w') = fds w"
proof (cases r)
  case (Inl e)
  with descriptors.server_constructed [OF assms(1), of port w] assms show ?thesis
    by (simp add: descriptors.constructed_def)
next
  case (Inr ep)
  with descriptors.server_constructed [OF assms(1), of port w] assms
    descriptors.destructor_fd [OF assms(1), of ep w' w] show ?thesis
    by (simp add: descriptors.constructed_def)
qed

theorem server_no_leak_witness:
  "\<exists>ep w'. SocketEndpoint_server tcp_os 12345 (idle_tcp [] []) = (Inr ep, w') \<and>
     open_fds (SocketEndpoint_destructor tcp_os ep w') = {}"
proof -
  let ?r = "SocketEndpoint_server tcp_os 12345 (idle_tcp [] [])"
  have "case fst ?r of Inr _ \<Rightarrow> True | Inl _ \<Rightarrow> False" by code_simp
  then obtain ep w' where r: "?r = (Inr ep, w')" by (cases ?r) (auto split: sum.splits)
  from server_no_leak [OF tcp_descriptors r] r show ?thesis
    by (auto simp: open_fds_def idle_tcp_def)
qed

text \<open>
  C22. What \<open>syncData\<close> exchanges. When both calls move the whole record, both sides return 0, the
  server with its data sent first and the client's received, the client the other way round.
\<close>

theorem syncData_exchanges:
  assumes "0 < sz" and "length outBuf = sz" and "length inBuf = sz" and "length bs = sz"
    and "if se_isDaemon ep
      then s_send os (se_sockfd ep) outBuf w = (int sz, w1) \<and>
           s_recv os (se_sockfd ep) sz w1 = ((int sz, bs), w2)
      else s_recv os (se_sockfd ep) sz w = ((int sz, bs), w1) \<and>
           s_send os (se_sockfd ep) outBuf w1 = (int sz, w2)"
  shows "syncData os ep sz outBuf inBuf w = (0, bs, w2)"
  using assms by (auto simp: syncData_def recv_into_def split: if_splits)

theorem syncData_exchanges_witness:
  "\<exists>w. syncData tcp_os \<lparr>se_sockfd = 3, se_isDaemon = False\<rparr> 2 [1, 2] [0, 0] (idle_tcp [] [7, 8]) =
     (0, [7, 8], w) \<and> tcp_out w = [1, 2]"
  using syncData_exchanges [of 2 "[1, 2]" "[0, 0]" "[7, 8]" "\<lparr>se_sockfd = 3, se_isDaemon = False\<rparr>" tcp_os
      "idle_tcp [] [7, 8]" "idle_tcp [] []" "idle_tcp [] []\<lparr>tcp_out := [1, 2]\<rparr>"]
  by (simp add: tcp_os_def idle_tcp_def)

text \<open>
  C23. \<open>syncData\<close> does not report a closed or short connection. It returns 0 also when the peer has
  closed the connection (a call returned 0) and when a call moved only a part of the record: the
  result is 0 exactly when the first call returned 0, or it moved something and the second one did
  not fail.
\<close>

theorem syncData_hides_close:
  "fst (syncData os ep sz outBuf inBuf w) = 0 \<longleftrightarrow>
     (if se_isDaemon ep then
        (let (rc, w1) = s_send os (se_sockfd ep) (take sz outBuf) w;
             ((rc', _), _) = s_recv os (se_sockfd ep) sz w1
         in rc = 0 \<or> (0 < rc \<and> 0 \<le> rc'))
      else
        (let ((rc, _), w1) = s_recv os (se_sockfd ep) sz w;
             (rc', _) = s_send os (se_sockfd ep) (take sz outBuf) w1
         in rc = 0 \<or> (0 < rc \<and> 0 \<le> rc')))"
  by (auto simp: syncData_def recv_into_def split: prod.splits)

end
