(* ===== verification/Get_Clock.thy ===== *)
theory Get_Clock
  imports Double_Arith
begin

text \<open>
  Cycle counters and the CPU frequency (\<^verbatim>\<open>csrc/get_clock.h\<close>, \<^verbatim>\<open>csrc/get_clock.cc\<close>).

  The regression computes with rounded \<open>double\<close>s (\<open>Double_Arith\<close>), operation by operation in
  the order of the code; the frequencies read from \<^verbatim>\<open>/proc/cpuinfo\<close> are kept as the
  decimal numbers listed, and compared exactly. The cycle counter, the clock and the contents of
  \<^verbatim>\<open>/proc/cpuinfo\<close> are parameters.
\<close>

section \<open>Cycle counters\<close>

text \<open>
  The CPUs that the sources tell apart; \<open>OtherArch\<close> takes its \<open>get_cycles\<close> from \<^verbatim>\<open>asm/timex.h\<close>.
  \<open>unsigned long\<close> has 64 bits on all of them but 32-bit PowerPC.
\<close>

datatype arch =
    X86 | PPC | PPC64 | IA64 | ARMv7 | S390 | Sparc64 | AArch64 | LoongArch | RiscV | HPPA | OtherArch

text \<open>\<open>rdtsc\<close> returns the counter in two 32-bit registers.\<close>

definition get_cycles_x86 :: "32 word \<Rightarrow> 32 word \<Rightarrow> 64 word" where
  "get_cycles_x86 low high = or (push_bit 32 (ucast high)) (ucast low)"

text \<open>\<open>stck\<close> on s390: the result is the clock without its two lowest bits.\<close>

definition get_cycles_s390 :: "64 word \<Rightarrow> 64 word" where
  "get_cycles_s390 clk = drop_bit 2 clk"

text \<open>
  \<open>perf_get_cycles\<close> on RISC-V: two static variables, the open descriptor and whether there is
  one. Failing calls end the process.
\<close>

record perf_state =
  pf_is_open :: bool
  pf_fd :: int

datatype perf_exit = ErrorOpening | ErrorReading

definition perf_get_cycles ::
  "('w \<Rightarrow> int \<times> 'w) \<Rightarrow> (int \<Rightarrow> 'w \<Rightarrow> (int \<times> 64 word) \<times> 'w) \<Rightarrow> perf_state \<Rightarrow> 'w \<Rightarrow>
   perf_exit + 64 word \<times> perf_state \<times> 'w" where
  "perf_get_cycles perf_event_open rd st w =
     sum_bind
       (if \<not> pf_is_open st
        then let (fd, w) = perf_event_open w in
             if fd = - 1 then Inl ErrorOpening else Inr (\<lparr>pf_is_open = True, pf_fd = fd\<rparr>, w)
        else Inr (st, w))
       (\<lambda>(st, w).
         let ((rc, cycles), w) = rd (pf_fd st) w in
         if rc < 0 then Inl ErrorReading else Inr (cycles, st, w))"

text \<open>
  \<open>get_cycles\<close> of \<^verbatim>\<open>get_clock.h\<close>: \<open>tick\<close> is the instruction that reads the counter of the CPU, in
  two halves on x86.
\<close>

definition get_cycles_of ::
  "arch \<Rightarrow> ('w \<Rightarrow> 64 word \<times> 'w) \<Rightarrow> ('w \<Rightarrow> int \<times> 'w) \<Rightarrow> (int \<Rightarrow> 'w \<Rightarrow> (int \<times> 64 word) \<times> 'w) \<Rightarrow>
   perf_state \<Rightarrow> 'w \<Rightarrow> perf_exit + 64 word \<times> perf_state \<times> 'w" where
  "get_cycles_of arch tick perf_event_open rd st w =
     (if arch = RiscV then perf_get_cycles perf_event_open rd st w
      else
        let (counter, w) = tick w;
            cycles =
              (case arch of
                 X86 \<Rightarrow> get_cycles_x86 (ucast counter) (ucast (drop_bit 32 counter))
               | PPC \<Rightarrow> ucast (ucast counter :: 32 word)
               | S390 \<Rightarrow> get_cycles_s390 counter
               | _ \<Rightarrow> counter)
        in Inr (cycles, st, w))"

section \<open>Sampling the frequency\<close>

definition MEASUREMENTS :: nat where "MEASUREMENTS = 200"
definition USECSTEP :: int where "USECSTEP = 10"
definition USECSTART :: int where "USECSTART = 100"

record timeval =
  tv_sec :: int
  tv_usec :: int

definition usec_between :: "timeval \<Rightarrow> timeval \<Rightarrow> int" where
  "usec_between tv1 tv2 = (tv_sec tv2 - tv_sec tv1) * 1000000 + (tv_usec tv2 - tv_usec tv1)"

text \<open>
  The inner loop of a measurement: the clock is read until the time has passed. \<open>gettimeofday\<close>
  returns the time or fails; \<open>None\<close> is a loop that does not end.
\<close>

partial_function (option) wait_until ::
  "('w \<Rightarrow> timeval option \<times> 'w) \<Rightarrow> timeval \<Rightarrow> int \<Rightarrow> 'w \<Rightarrow> (timeval option \<times> 'w) option" where
  "wait_until gettimeofday tv1 limit w =
     (case gettimeofday w of
        (None, w) \<Rightarrow> Some (None, w)
      | (Some tv2, w) \<Rightarrow>
          if usec_between tv1 tv2 < limit then wait_until gettimeofday tv1 limit w
          else Some (Some tv2, w))"

declare wait_until.simps [code]

text \<open>One measurement: the microseconds and the cycles that passed.\<close>

definition measure_once ::
  "('w \<Rightarrow> 64 word \<times> 'w) \<Rightarrow> ('w \<Rightarrow> timeval option \<times> 'w) \<Rightarrow> int \<Rightarrow> 'w \<Rightarrow>
   ((int \<times> 64 word) option \<times> 'w) option" where
  "measure_once get_cycles gettimeofday i w =
     (let (start, w) = get_cycles w in
      case gettimeofday w of
        (None, w) \<Rightarrow> Some (None, w)
      | (Some tv1, w) \<Rightarrow>
          (case wait_until gettimeofday tv1 (USECSTART + i * USECSTEP) w of
             None \<Rightarrow> None
           | Some (None, w) \<Rightarrow> Some (None, w)
           | Some (Some tv2, w) \<Rightarrow>
               let (now, w) = get_cycles w
               in Some (Some (usec_between tv1 tv2, now - start), w)))"

fun measure_all ::
  "('w \<Rightarrow> 64 word \<times> 'w) \<Rightarrow> ('w \<Rightarrow> timeval option \<times> 'w) \<Rightarrow> nat list \<Rightarrow> 'w \<Rightarrow>
   ((int \<times> 64 word) list option \<times> 'w) option" where
  "measure_all get_cycles gettimeofday [] w = Some (Some [], w)"
| "measure_all get_cycles gettimeofday (i # is) w =
     (case measure_once get_cycles gettimeofday (int i) w of
        None \<Rightarrow> None
      | Some (None, w) \<Rightarrow> Some (None, w)
      | Some (Some m, w) \<Rightarrow>
          (case measure_all get_cycles gettimeofday is w of
             None \<Rightarrow> None
           | Some (None, w) \<Rightarrow> Some (None, w)
           | Some (Some ms, w) \<Rightarrow> Some (Some (m # ms), w)))"

text \<open>
  The sums of the second loop: sx, sy, sxx, syy, sxy. The measured times and cycles are converted
  to \<open>double\<close> here.
\<close>

type_synonym moments = "double \<times> double \<times> double \<times> double \<times> double"

definition add_sums :: "moments \<Rightarrow> int \<times> 64 word \<Rightarrow> moments" where
  "add_sums = (\<lambda>(sx, sy, sxx, syy, sxy) (x, y).
     let tx = to_double (of_int x);
         ty = to_double (of_int (uint y))
     in (fadd sx tx, fadd sy ty, fadd sxx (fmul tx tx), fadd syy (fmul ty ty), fadd sxy (fmul tx ty)))"

definition regression :: "(int \<times> 64 word) list \<Rightarrow> double" where
  "regression xys =
     (let (sx, sy, sxx, syy, sxy) = foldl add_sums (Fin 0, Fin 0, Fin 0, Fin 0, Fin 0) xys;
          n = Fin (of_nat MEASUREMENTS);
          b = fdiv (fsub (fmul n sxy) (fmul sx sy)) (fsub (fmul n sxx) (fmul sx sx));
          r_2 = fdiv (fdiv (fmul (fsub (fmul n sxy) (fmul sx sy)) (fsub (fmul n sxy) (fmul sx sy)))
                           (fsub (fmul n sxx) (fmul sx sx)))
                     (fsub (fmul n syy) (fmul sy sy))
      in if dbl_less r_2 (to_double (9 / 10)) then Fin 0 else b)"

definition sample_get_cpu_mhz ::
  "('w \<Rightarrow> 64 word \<times> 'w) \<Rightarrow> ('w \<Rightarrow> timeval option \<times> 'w) \<Rightarrow> 'w \<Rightarrow> (double \<times> 'w) option" where
  "sample_get_cpu_mhz get_cycles gettimeofday w =
     (case measure_all get_cycles gettimeofday [0..<MEASUREMENTS] w of
        None \<Rightarrow> None
      | Some (None, w) \<Rightarrow> Some (Fin 0, w)
      | Some (Some ms, w) \<Rightarrow>
          Some (regression ms, w))"

section \<open>Reading the frequency\<close>

text \<open>
  \<open>sscanf(buf, "cpu MHz : %lf", &m)\<close>, and the formats of the other systems: a blank of the format
  skips any white space. Of the forms \<open>%lf\<close> accepts, decimal numbers with an optional fraction are
  modelled, and hexadecimal integers for SPARC, whose lines give the frequency in Hz and without
  the \<open>0x\<close> that the code writes over the last two characters of the key.
\<close>

definition is_space :: "char \<Rightarrow> bool" where
  "is_space c = (c \<in> {CHR '' '', CHR 0x09, CHR 0x0A, CHR 0x0B, CHR 0x0C, CHR 0x0D})"

definition skip_space :: "string \<Rightarrow> string" where
  "skip_space s = dropWhile is_space s"

fun expect :: "string \<Rightarrow> string \<Rightarrow> string option" where
  "expect [] s = Some s"
| "expect (c # cs) s =
     (if c = CHR '' '' then expect cs (skip_space s)
      else case s of [] \<Rightarrow> None | d # ds \<Rightarrow> if c = d then expect cs ds else None)"

definition is_digit :: "char \<Rightarrow> bool" where
  "is_digit c = (c \<in> set ''0123456789'')"

definition digits_value :: "string \<Rightarrow> rat" where
  "digits_value ds =
     foldl (\<lambda>n c. n * 10 + of_nat (of_char c - 48)) 0 ds"

definition scan_decimal :: "string \<Rightarrow> rat option" where
  "scan_decimal s =
     (let s = skip_space s;
          (sign, s) = (case s of c # cs \<Rightarrow> if c = CHR ''-'' then (- 1, cs)
                         else if c = CHR ''+'' then (1, cs) else (1, s) | [] \<Rightarrow> (1, s));
          whole = takeWhile is_digit s;
          rest = dropWhile is_digit s;
          frac = (case rest of c # cs \<Rightarrow> if c = CHR ''.'' then takeWhile is_digit cs else [] | [] \<Rightarrow> [])
      in if whole = [] \<and> frac = [] then None
         else Some (sign * (digits_value whole + digits_value frac / 10 ^ length frac)))"

datatype os = Linux | FreeBSD

definition mhz_format :: "arch \<Rightarrow> os \<Rightarrow> string" where
  "mhz_format arch os =
     (case arch of
        IA64 \<Rightarrow> ''itc MHz : ''
      | LoongArch \<Rightarrow> ''CPU MHz : ''
      | PPC \<Rightarrow> ''clock : ''
      | PPC64 \<Rightarrow> ''clock : ''
      | _ \<Rightarrow> if os = FreeBSD then ''hw.clockrate: '' else ''cpu MHz : '')"

text \<open>What follows the first occurrence of a string: \<open>strstr\<close>, and the pointer past it.\<close>

fun after_first :: "string \<Rightarrow> string \<Rightarrow> string option" where
  "after_first pat s =
     (if take (length pat) s = pat then Some (drop (length pat) s)
      else case s of [] \<Rightarrow> None | _ # cs \<Rightarrow> after_first pat cs)"

declare after_first.simps [simp del]

definition hex_digit :: "char \<Rightarrow> nat option" where
  "hex_digit c =
     (let n = of_char c in
      if 48 \<le> n \<and> n < 58 then Some (n - 48)
      else if 97 \<le> n \<and> n < 103 then Some (n - 87)
      else if 65 \<le> n \<and> n < 71 then Some (n - 55) else None)"

definition scan_hex :: "string \<Rightarrow> rat option" where
  "scan_hex s =
     (let ds = takeWhile (\<lambda>c. hex_digit c \<noteq> None) s
      in if ds = [] then None else Some (foldl (\<lambda>n c. n * 16 + of_nat (the (hex_digit c))) 0 ds))"

definition ClkTck :: string where
  "ClkTck = ''ClkTck'' @ [CHR 0x09] @ '': ''"

definition scan_mhz :: "arch \<Rightarrow> os \<Rightarrow> string \<Rightarrow> rat option" where
  "scan_mhz arch os buf =
     (if arch = Sparc64 then
        (case after_first ClkTck buf of
           None \<Rightarrow> None
         | Some s \<Rightarrow> map_option (\<lambda>m. m / 1000000) (scan_hex s))
      else
        (case expect (mhz_format arch os) buf of None \<Rightarrow> None | Some s \<Rightarrow> scan_decimal s))"

text \<open>
  The loop over the lines. The state is \<open>mhz\<close>, \<open>print_flag\<close> and the warnings printed, each with
  the two conflicting values.
\<close>

definition proc_line ::
  "arch \<Rightarrow> os \<Rightarrow> bool \<Rightarrow> string \<Rightarrow> rat \<times> bool \<times> (rat \<times> rat) list \<Rightarrow> rat \<times> bool \<times> (rat \<times> rat) list" where
  "proc_line arch os no_warn buf = (\<lambda>(mhz, print_flag, warnings).
     case scan_mhz arch os buf of
       None \<Rightarrow> (mhz, print_flag, warnings)
     | Some m \<Rightarrow>
         if mhz = 0 then (m, print_flag, warnings)
         else
           let delta = (if mhz > m then mhz - m else m - mhz) in
           if delta / mhz > 2 / 100 \<and> \<not> print_flag
           then (mhz, True, if no_warn then warnings else warnings @ [(mhz, m)])
           else (mhz, print_flag, warnings))"

text \<open>\<open>cpuinfo\<close> are the lines of \<^verbatim>\<open>/proc/cpuinfo\<close>, of the output of \<open>sysctl\<close> on FreeBSD.\<close>

definition proc_get_cpu_mhz ::
  "arch \<Rightarrow> os \<Rightarrow> bool \<Rightarrow> string list option \<Rightarrow> rat \<times> (rat \<times> rat) list" where
  "proc_get_cpu_mhz arch os no_warn cpuinfo =
     (case cpuinfo of
        None \<Rightarrow> (0, [])
      | Some lines \<Rightarrow>
          let (mhz, _, warnings) = fold (proc_line arch os no_warn) lines (0, False, [])
          in (mhz, warnings))"

text \<open>The choice between the two frequencies, and the whole function with the warnings it prints.\<close>

definition choose_mhz :: "arch \<Rightarrow> double \<Rightarrow> rat \<Rightarrow> double" where
  "choose_mhz arch sample proc0 =
     (let proc = (if arch = AArch64 \<and> proc0 < 1 \<or> arch = RiscV \<and> proc0 \<le> 0 then sample
                  else Fin proc0) in
      if dbl_is_zero proc \<or> dbl_is_zero sample then Fin 0
      else
        let delta = (if dbl_less sample proc then dbl_sub proc sample else dbl_sub sample proc) in
        if dbl_less (Fin (2 / 100)) (dbl_div delta proc) then sample else proc)"

definition get_cpu_mhz ::
  "arch \<Rightarrow> os \<Rightarrow> ('w \<Rightarrow> 64 word \<times> 'w) \<Rightarrow> ('w \<Rightarrow> timeval option \<times> 'w) \<Rightarrow> string list option \<Rightarrow> bool \<Rightarrow> 'w \<Rightarrow>
   (double \<times> (rat \<times> rat) list \<times> 'w) option" where
  "get_cpu_mhz arch os get_cycles gettimeofday cpuinfo no_cpu_freq_warn w =
     (case sample_get_cpu_mhz get_cycles gettimeofday w of
        None \<Rightarrow> None
      | Some (sample, w) \<Rightarrow>
          if arch = S390 then Some (sample, [], w)
          else
            let (proc, warnings) = proc_get_cpu_mhz arch os no_cpu_freq_warn cpuinfo
            in Some (choose_mhz arch sample proc, warnings, w))"

section \<open>The regression\<close>

text \<open>The sums of the samples as exact numbers.\<close>

abbreviation tot :: "('a \<Rightarrow> 'b :: comm_monoid_add) \<Rightarrow> 'a list \<Rightarrow> 'b" where
  "tot f xs \<equiv> sum_list (List.map f xs)"

definition x_of :: "int \<times> 64 word \<Rightarrow> int" where "x_of m = fst m"
definition y_of :: "int \<times> 64 word \<Rightarrow> int" where "y_of m = uint (snd m)"

lemma y_of_nonneg [simp]: "0 \<le> y_of m"
  by (simp add: y_of_def)

text \<open>
  The sums are small enough to be computed without rounding. With waiting times of at most two
  milliseconds, as asked for, this holds for frequencies up to 5 GHz.
\<close>

definition sums_fit :: "(int \<times> 64 word) list \<Rightarrow> bool" where
  "sums_fit ms =
     (200 * tot (\<lambda>m. x_of m * x_of m) ms \<le> 2 ^ 53 \<and> 200 * tot (\<lambda>m. x_of m * y_of m) ms \<le> 2 ^ 53 \<and>
      tot (\<lambda>m. y_of m * y_of m) ms \<le> 2 ^ 53)"

abbreviation dint :: "int \<Rightarrow> double" where
  "dint k \<equiv> Fin (of_int k)"

lemma dint_op:
  "0 \<le> a \<Longrightarrow> 0 \<le> b \<Longrightarrow> a + b \<le> 2 ^ 53 \<Longrightarrow> fadd (dint a) (dint b) = dint (a + b)"
  "0 \<le> a \<Longrightarrow> 0 \<le> b \<Longrightarrow> a \<le> 2 ^ 53 \<Longrightarrow> b \<le> 2 ^ 53 \<Longrightarrow> fsub (dint a) (dint b) = dint (a - b)"
  "0 \<le> a \<Longrightarrow> 0 \<le> b \<Longrightarrow> a * b \<le> 2 ^ 53 \<Longrightarrow> fmul (dint a) (dint b) = dint (a * b)"
  using to_double_int [of "a + b"] to_double_int [of "a - b"] to_double_int [of "a * b"]
  by (simp_all add: dbl_arith)

lemma add_sums_of:
  "add_sums (sx, sy, sxx, syy, sxy) m =
     (let tx = to_double (of_int (x_of m)); ty = to_double (of_int (y_of m))
      in (fadd sx tx, fadd sy ty, fadd sxx (fmul tx tx), fadd syy (fmul ty ty), fadd sxy (fmul tx ty)))"
  by (cases m) (simp add: add_sums_def x_of_def y_of_def)

lemma square_ge: "0 \<le> x \<Longrightarrow> x \<le> x * x" for x :: int
  by (cases "x = 0") (simp_all add: mult_le_cancel_left1)

lemma tot_nonneg: "(\<And>m. m \<in> set ms \<Longrightarrow> 0 \<le> f m) \<Longrightarrow> 0 \<le> tot f ms" for f :: "'a \<Rightarrow> int"
  by (rule sum_list_nonneg) auto

text \<open>While everything stays below \<open>2 ^ 53\<close>, the loop adds exactly.\<close>

lemma foldl_add_sums:
  "0 \<le> a \<Longrightarrow> 0 \<le> b \<Longrightarrow> 0 \<le> c \<Longrightarrow> 0 \<le> d \<Longrightarrow> 0 \<le> e \<Longrightarrow> (\<And>m. m \<in> set ms \<Longrightarrow> 0 \<le> x_of m) \<Longrightarrow>
   a + tot x_of ms \<le> 2 ^ 53 \<Longrightarrow> b + tot y_of ms \<le> 2 ^ 53 \<Longrightarrow>
   c + tot (\<lambda>m. x_of m * x_of m) ms \<le> 2 ^ 53 \<Longrightarrow> d + tot (\<lambda>m. y_of m * y_of m) ms \<le> 2 ^ 53 \<Longrightarrow>
   e + tot (\<lambda>m. x_of m * y_of m) ms \<le> 2 ^ 53 \<Longrightarrow>
   foldl add_sums (dint a, dint b, dint c, dint d, dint e) ms =
     (dint (a + tot x_of ms), dint (b + tot y_of ms), dint (c + tot (\<lambda>m. x_of m * x_of m) ms),
      dint (d + tot (\<lambda>m. y_of m * y_of m) ms), dint (e + tot (\<lambda>m. x_of m * y_of m) ms))"
proof (induction ms arbitrary: a b c d e)
  case (Cons m ms)
  define x y where "x = x_of m" and "y = y_of m"
  have nn: "0 \<le> x" "0 \<le> y" "0 \<le> x * x" "0 \<le> y * y" "0 \<le> x * y"
    using Cons.prems(6) [of m] by (simp_all add: x_def y_def)
  have rest: "0 \<le> tot x_of ms" "0 \<le> tot y_of ms" "0 \<le> tot (\<lambda>m. x_of m * x_of m) ms"
    "0 \<le> tot (\<lambda>m. y_of m * y_of m) ms" "0 \<le> tot (\<lambda>m. x_of m * y_of m) ms"
    using Cons.prems(6) by (auto intro!: tot_nonneg)
  have tops: "a + x \<le> 2 ^ 53" "b + y \<le> 2 ^ 53" "c + x * x \<le> 2 ^ 53" "d + y * y \<le> 2 ^ 53" "e + x * y \<le> 2 ^ 53"
    "x \<le> 2 ^ 53" "y \<le> 2 ^ 53" "x * x \<le> 2 ^ 53" "y * y \<le> 2 ^ 53" "x * y \<le> 2 ^ 53"
    using Cons.prems(1-5,7-11) rest nn by (simp_all add: x_def y_def)
  have conv: "to_double (of_int x) = dint x" "to_double (of_int y) = dint y"
    using tops nn by (intro to_double_int, simp)+
  have step: "add_sums (dint a, dint b, dint c, dint d, dint e) m =
      (dint (a + x), dint (b + y), dint (c + x * x), dint (d + y * y), dint (e + x * y))"
    using conv tops nn Cons.prems(1-5)
    unfolding add_sums_of x_def [symmetric] y_def [symmetric]
    by (simp add: Let_def dint_op del: of_int_add of_int_mult)
  have "foldl add_sums (dint (a + x), dint (b + y), dint (c + x * x), dint (d + y * y), dint (e + x * y)) ms =
     (dint (a + x + tot x_of ms), dint (b + y + tot y_of ms), dint (c + x * x + tot (\<lambda>m. x_of m * x_of m) ms),
      dint (d + y * y + tot (\<lambda>m. y_of m * y_of m) ms), dint (e + x * y + tot (\<lambda>m. x_of m * y_of m) ms))"
    using Cons.prems nn by (intro Cons.IH) (simp_all add: x_def y_def add.assoc)
  then show ?case by (simp add: step x_def y_def add.assoc)
qed simp

text \<open>The denominator \<open>n * sxx - sx * sx\<close>: the spread of the samples.\<close>

definition spread :: "rat list \<Rightarrow> rat" where
  "spread xs = of_nat (length xs) * tot (\<lambda>x. x * x) xs - sum_list xs * sum_list xs"

lemma total_square_diff:
  "tot (\<lambda>y. (y - x) * (y - x)) xs =
     tot (\<lambda>y. y * y) xs - 2 * x * sum_list xs + of_nat (length xs) * (x * x)" for x :: rat
proof (induction xs)
  case (Cons y ys)
  have alg: "(y - x) * (y - x) + (A - 2 * x * S + n * (x * x)) =
      y * y + A - 2 * x * (y + S) + (1 + n) * (x * x)" for A S n :: rat
    by (simp add: algebra_simps)
  show ?case by (simp only: list.map sum_list.Cons length_Cons of_nat_Suc Cons.IH alg)
qed simp

lemma spread_Cons: "spread (x # xs) = spread xs + tot (\<lambda>y. (y - x) * (y - x)) xs"
proof -
  have alg: "(1 + n) * (x * x + A) - (x + S) * (x + S) =
      n * A - S * S + (A - 2 * x * S + n * (x * x))" for A S n :: rat
    by (simp add: algebra_simps)
  show ?thesis
    by (simp only: spread_def total_square_diff list.map sum_list.Cons length_Cons of_nat_Suc alg)
qed

lemma total_square_nonneg: "0 \<le> tot (\<lambda>y. (y - x) * (y - x)) xs" for x :: rat
  by (rule sum_list_nonneg) auto

lemma spread_nonneg: "0 \<le> spread xs"
  by (induction xs) (simp_all add: spread_Cons total_square_nonneg, simp add: spread_def)

lemma spread_ge:
  assumes "x \<in> set xs" and "y \<in> set xs"
  shows "(x - y) * (x - y) \<le> spread xs"
  using assms
proof (induction xs)
  case (Cons z zs)
  have pos: "(v - z) * (v - z) \<le> tot (\<lambda>u. (u - z) * (u - z)) zs" if "v \<in> set zs" for v
  proof -
    from that obtain us ws where "zs = us @ v # ws" by (auto simp: in_set_conv_decomp)
    then show ?thesis using total_square_nonneg [of z us] total_square_nonneg [of z ws] by simp
  qed
  have swap: "(z - v) * (z - v) = (v - z) * (v - z)" for v by (simp add: algebra_simps)
  show ?case
    using Cons.IH Cons.prems pos [of x] pos [of y] swap [of x] swap [of y] spread_nonneg [of zs]
      total_square_nonneg [of z zs]
    by (auto simp: spread_Cons)
qed simp

lemma total_line:
  fixes a b :: rat
  assumes "\<forall>(x, y) \<in> set xys. y = a + b * x"
  shows "tot snd xys = of_nat (length xys) * a + b * tot fst xys"
    and "tot (\<lambda>(x, y). x * y) xys = a * tot fst xys + b * tot (\<lambda>(x, y). x * x) xys"
    and "tot (\<lambda>(x, y). y * y) xys = of_nat (length xys) * (a * a) + 2 * a * b * tot fst xys +
           b * b * tot (\<lambda>(x, y). x * x) xys"
  using assms by (induction xys) (auto simp: algebra_simps)

text \<open>
  The correlation of samples on a line. The two products of its last factor may be rounded; their
  difference is still known up to 400, which is little of a spread of at least \<open>2 ^ 16\<close>.
\<close>

lemma near_op: "1 / 2 \<le> x \<Longrightarrow> x \<le> 2 ^ 200 \<Longrightarrow> near x (to_double x)"
  by (rule to_double_near(2)) (auto elim!: order_trans [rotated] order_trans simp: field_simps)

lemma near_crude: "near x (Fin r) \<Longrightarrow> 0 \<le> x \<Longrightarrow> 99 / 100 * x \<le> r \<and> r \<le> 101 / 100 * x"
  by (auto simp: near_def field_simps)

lemma to_double_crude:
  assumes "1 / 2 \<le> x" and "x \<le> 2 ^ 200"
  obtains r where "to_double x = Fin r" and "99 / 100 * x \<le> r" and "r \<le> 101 / 100 * x"
  using near_op [OF assms] near_crude assms(1) by (fastforce simp: near_def)

lemma variance_close:
  assumes "P - Q = E" and "1 \<le> Q" and "P \<le> 200 * 2 ^ 53" and "65536 \<le> E"
  obtains e where "fsub (to_double P) (to_double Q) = Fin e" and "1 \<le> e" and "e \<le> 2 ^ 63"
    and "e \<le> 51 / 50 * E"
proof -
  have PQ: "1 / 2 \<le> P" "P \<le> 2 ^ 200" "1 / 2 \<le> Q" "Q \<le> 2 ^ 200" using assms by simp_all
  from near_op [OF PQ(1,2)] obtain p where p: "to_double P = Fin p"
    "P * (1 - 1 / 2 ^ 53) \<le> p" "p \<le> P * (1 + 1 / 2 ^ 53)" by (auto simp: near_def)
  from near_op [OF PQ(3,4)] obtain q where q: "to_double Q = Fin q"
    "Q * (1 - 1 / 2 ^ 53) \<le> q" "q \<le> Q * (1 + 1 / 2 ^ 53)" by (auto simp: near_def)
  have "P * (1 + 1 / 2 ^ 53) \<le> P + 200" "P - 200 \<le> P * (1 - 1 / 2 ^ 53)"
    "Q * (1 + 1 / 2 ^ 53) \<le> Q + 200" "Q - 200 \<le> Q * (1 - 1 / 2 ^ 53)"
    using assms by simp_all
  with p q assms have d: "E - 400 \<le> p - q" "p - q \<le> E + 400" by linarith+
  have lim: "1 / 2 \<le> p - q" "p - q \<le> 2 ^ 200" using d assms by simp_all
  from to_double_crude [OF lim] obtain e where
    e: "to_double (p - q) = Fin e" "99 / 100 * (p - q) \<le> e" "e \<le> 101 / 100 * (p - q)" by metis
  show ?thesis
  proof (rule that)
    show "fsub (to_double P) (to_double Q) = Fin e" using e(1) by (simp add: dbl_arith p(1) q(1))
  qed (use e d assms in simp_all)
qed

lemma correlation:
  assumes "N * N = E * D" and "1 \<le> N" and "N \<le> 2 ^ 53" and "1 \<le> D" and "D \<le> 2 ^ 53"
    and e: "1 \<le> e" "e \<le> 2 ^ 63" "e \<le> 51 / 50 * E"
  shows "\<not> dbl_less (fdiv (fdiv (fmul (Fin N) (Fin N)) (Fin D)) (Fin e)) (to_double (9 / 10))"
proof -
  have NN: "1 \<le> N * N" "N * N \<le> 2 ^ 106"
    using mult_mono [of 1 N 1 N] mult_mono [of N "2 ^ 53" N "2 ^ 53"] assms(2,3) by simp_all
  then have lim: "1 / 2 \<le> N * N" "N * N \<le> 2 ^ 200" by simp_all
  from to_double_crude [OF lim] obtain m where
    m: "to_double (N * N) = Fin m" "99 / 100 * (N * N) \<le> m" "m \<le> 101 / 100 * (N * N)" by metis
  have "99 / 100 * E = 99 / 100 * (N * N) / D" using assms(1,4) by simp
  also have "\<dots> \<le> m / D" using m(2) assms(4) by (intro divide_right_mono) simp_all
  finally have mD: "99 / 100 * E \<le> m / D" .
  have "m / D \<le> m / 1" using assms(4) NN m(2) by (intro divide_left_mono) simp_all
  then have mD2: "m / D \<le> 2 ^ 107" using m(3) NN by simp
  have E: "49 / 50 \<le> E" using e by simp
  have lim: "1 / 2 \<le> m / D" "m / D \<le> 2 ^ 200" using mD mD2 E by simp_all
  from to_double_crude [OF lim] obtain g where
    g: "to_double (m / D) = Fin g" "99 / 100 * (m / D) \<le> g" "g \<le> 101 / 100 * (m / D)" by metis
  have "24 / 25 * e \<le> g" using e(3) g(2) mD E by linarith
  then have ge: "24 / 25 \<le> g / e" using e(1) by (simp add: pos_le_divide_eq)
  have "g / e \<le> g / 1" using e(1) g mD E by (intro divide_left_mono) simp_all
  then have ge2: "g / e \<le> 2 ^ 108" using g(3) mD2 by simp
  have lim: "1 / 2 \<le> g / e" "g / e \<le> 2 ^ 200" using ge ge2 by simp_all
  from to_double_crude [OF lim] obtain r where
    r: "to_double (g / e) = Fin r" "99 / 100 * (g / e) \<le> r" by metis
  obtain c where c: "to_double (9 / 10) = Fin c" "c \<le> 101 / 100 * (9 / 10)"
    by (rule to_double_crude [of "9 / 10"]) simp_all
  have "fdiv (fdiv (fmul (Fin N) (Fin N)) (Fin D)) (Fin e) = Fin r"
    using m(1) g(1) r(1) assms(4) e(1) by (simp add: dbl_arith)
  then show ?thesis using r(2) c ge by (simp add: dbl_less_def)
qed

lemma slope_rounds:
  assumes "1 / 2 ^ 53 \<le> b" and "b \<le> 2 ^ 53"
  shows "to_double b = Fin (round_rat b)" and "\<bar>round_rat b - b\<bar> \<le> b / 2 ^ 53"
proof -
  have lim: "1 / 2 ^ 1000 \<le> b" "b \<le> 2 ^ 1000"
    using assms by (auto elim!: order_trans [rotated] order_trans simp: field_simps)
  from to_double_near [OF lim] show "to_double b = Fin (round_rat b)" "\<bar>round_rat b - b\<bar> \<le> b / 2 ^ 53"
    by blast+
qed

text \<open>
  The numerator and the denominator of the slope, and the other denominator of the correlation, as
  exact numbers.
\<close>

definition numer :: "(int \<times> 64 word) list \<Rightarrow> int" where
  "numer ms = 200 * tot (\<lambda>m. x_of m * y_of m) ms - tot x_of ms * tot y_of ms"

definition denom :: "(int \<times> 64 word) list \<Rightarrow> int" where
  "denom ms = 200 * tot (\<lambda>m. x_of m * x_of m) ms - tot x_of ms * tot x_of ms"

definition varia :: "(int \<times> 64 word) list \<Rightarrow> int" where
  "varia ms = 200 * tot (\<lambda>m. y_of m * y_of m) ms - tot y_of ms * tot y_of ms"

text \<open>What \<open>regression\<close> computes when the sums fit.\<close>

lemma regression_fit:
  assumes fit: "sums_fit ms" and x: "\<And>m. m \<in> set ms \<Longrightarrow> 0 \<le> x_of m"
    and N: "0 < numer ms" and D: "0 < denom ms"
  shows "regression ms =
    (if dbl_less (fdiv (fdiv (fmul (dint (numer ms)) (dint (numer ms))) (dint (denom ms)))
          (fsub (to_double (of_int (200 * tot (\<lambda>m. y_of m * y_of m) ms)))
             (to_double (of_int (tot y_of ms * tot y_of ms))))) (to_double (9 / 10))
     then Fin 0 else to_double (of_int (numer ms) / of_int (denom ms)))"
    and "numer ms \<le> 2 ^ 53" and "denom ms \<le> 2 ^ 53"
proof -
  define X Y XX YY XY where "X = tot x_of ms" and "Y = tot y_of ms" and "XX = tot (\<lambda>m. x_of m * x_of m) ms"
    and "YY = tot (\<lambda>m. y_of m * y_of m) ms" and "XY = tot (\<lambda>m. x_of m * y_of m) ms"
  note defs = this
  have N': "numer ms = 200 * XY - X * Y" and D': "denom ms = 200 * XX - X * X"
    by (simp_all add: numer_def denom_def defs)
  have nn: "0 \<le> X" "0 \<le> Y" "0 \<le> XX" "0 \<le> YY" "0 \<le> XY" "X \<le> XX" "Y \<le> YY"
    using x by (auto simp: defs intro!: tot_nonneg sum_list_mono square_ge)
  have fits: "200 * XX \<le> 2 ^ 53" "200 * XY \<le> 2 ^ 53" "YY \<le> 2 ^ 53"
    using fit by (simp_all add: sums_fit_def defs)
  have sums: "foldl add_sums (Fin 0, Fin 0, Fin 0, Fin 0, Fin 0) ms = (dint X, dint Y, dint XX, dint YY, dint XY)"
    using foldl_add_sums [of 0 0 0 0 0 ms] x nn fits by (simp add: defs)
  have prods: "fmul (Fin (of_nat MEASUREMENTS)) (dint XY) = dint (200 * XY)" "fmul (dint X) (dint Y) = dint (X * Y)"
    "fmul (Fin (of_nat MEASUREMENTS)) (dint XX) = dint (200 * XX)" "fmul (dint X) (dint X) = dint (X * X)"
    using dint_op(3) [of 200 XY] dint_op(3) [of 200 XX] dint_op(3) [of X Y] dint_op(3) [of X X] nn fits N D
    by (simp_all add: N' D' MEASUREMENTS_def)
  have diffs: "fsub (dint (200 * XY)) (dint (X * Y)) = dint (numer ms)"
    "fsub (dint (200 * XX)) (dint (X * X)) = dint (denom ms)"
    using dint_op(2) [of "200 * XY" "X * Y"] dint_op(2) [of "200 * XX" "X * X"] nn fits N D
    by (simp_all add: N' D')
  have squares: "fmul (Fin (of_nat MEASUREMENTS)) (dint YY) = to_double (of_int (200 * YY))"
    "fmul (dint Y) (dint Y) = to_double (of_int (Y * Y))"
    by (simp_all add: dbl_arith MEASUREMENTS_def)
  have slope: "fdiv (dint (numer ms)) (dint (denom ms)) = to_double (of_int (numer ms) / of_int (denom ms))"
    using D by (simp add: dbl_arith)
  show "regression ms =
    (if dbl_less (fdiv (fdiv (fmul (dint (numer ms)) (dint (numer ms))) (dint (denom ms)))
          (fsub (to_double (of_int (200 * tot (\<lambda>m. y_of m * y_of m) ms)))
             (to_double (of_int (tot y_of ms * tot y_of ms))))) (to_double (9 / 10))
     then Fin 0 else to_double (of_int (numer ms) / of_int (denom ms)))"
    unfolding YY_def [symmetric] Y_def [symmetric] regression_def Let_def sums prod.case prods diffs
      squares slope ..
  have "0 \<le> X * X" "0 \<le> X * Y" using nn by simp_all
  then show "numer ms \<le> 2 ^ 53" "denom ms \<le> 2 ^ 53" using fits unfolding N' D' by linarith+
qed

text \<open>The three on a rising line.\<close>

lemma line_spreads:
  fixes a b :: rat
  assumes line: "\<forall>m \<in> set ms. of_int (y_of m) = a + b * of_int (x_of m)" and n: "length ms = MEASUREMENTS"
    and two: "p \<in> set ms" "q \<in> set ms" "y_of p + 256 \<le> y_of q"
  shows "of_int (numer ms) = b * of_int (denom ms)" and "of_int (varia ms) = b * b * of_int (denom ms)"
    and "65536 \<le> varia ms"
proof -
  define xys where "xys = List.map (\<lambda>m. (rat_of_int (x_of m), rat_of_int (y_of m))) ms"
  have emb: "rat_of_int (tot x_of ms) = tot fst xys" "rat_of_int (tot y_of ms) = tot snd xys"
    "rat_of_int (tot (\<lambda>m. x_of m * x_of m) ms) = tot (\<lambda>(x, y). x * x) xys"
    "rat_of_int (tot (\<lambda>m. y_of m * y_of m) ms) = tot (\<lambda>(x, y). y * y) xys"
    "rat_of_int (tot (\<lambda>m. x_of m * y_of m) ms) = tot (\<lambda>(x, y). x * y) xys"
    unfolding xys_def by (induction ms) simp_all
  have len: "length xys = 200" using n by (simp add: xys_def MEASUREMENTS_def)
  have "\<forall>(x, y) \<in> set xys. y = a + b * x" using line by (auto simp: xys_def)
  note tl = total_line [OF this]
  show "of_int (numer ms) = b * of_int (denom ms)" "of_int (varia ms) = b * b * of_int (denom ms)"
    using tl len by (simp_all add: numer_def denom_def varia_def emb algebra_simps)
  have "rat_of_int (varia ms) = spread (List.map snd xys)"
    using len by (simp add: varia_def spread_def emb comp_def case_prod_unfold)
  moreover have "rat_of_int (y_of r) \<in> set (List.map snd xys)" if "r \<in> set ms" for r
    using that by (auto simp: xys_def image_iff)
  ultimately have "(rat_of_int (y_of q) - of_int (y_of p)) * (of_int (y_of q) - of_int (y_of p)) \<le> of_int (varia ms)"
    using spread_ge two(1,2) by metis
  then have "(y_of q - y_of p) * (y_of q - y_of p) \<le> varia ms" by (simp flip: of_int_diff of_int_mult)
  moreover have "256 * 256 \<le> (y_of q - y_of p) * (y_of q - y_of p)" using two(3) by (intro mult_mono) simp_all
  ultimately show "65536 \<le> varia ms" by simp
qed

lemma tot_pos:
  assumes "q \<in> set ms" and "0 < y_of q"
  shows "0 < tot y_of ms"
proof -
  from assms(1) obtain us vs where "ms = us @ q # vs" by (auto simp: in_set_conv_decomp)
  then show ?thesis using assms(2) tot_nonneg [of us y_of] tot_nonneg [of vs y_of] by simp
qed

text \<open>Samples on a rising line: the slope is found, rounded once.\<close>

lemma regression_line:
  fixes a b :: rat
  assumes line: "\<forall>m \<in> set ms. of_int (y_of m) = a + b * of_int (x_of m)" and b: "0 < b"
    and n: "length ms = MEASUREMENTS" and fit: "sums_fit ms" and x: "\<And>m. m \<in> set ms \<Longrightarrow> 0 \<le> x_of m"
    and two: "p \<in> set ms" "q \<in> set ms" "y_of p + 256 \<le> y_of q"
  shows "regression ms = Fin (round_rat b) \<and> \<bar>round_rat b - b\<bar> \<le> b / 2 ^ 53"
proof -
  note sp = line_spreads [OF line n two]
  have D: "0 < denom ms" and N: "0 < numer ms"
  proof -
    have "0 < rat_of_int (varia ms)" using sp(3) by simp
    with sp(2) b show D: "0 < denom ms" by (simp add: zero_less_mult_iff)
    have "0 < rat_of_int (numer ms)" using sp(1) D b by simp
    then show "0 < numer ms" by simp
  qed
  note fitted = regression_fit [OF fit x N D]
  have slope: "rat_of_int (numer ms) / of_int (denom ms) = b" using sp(1) D by simp
  have big: "1 \<le> rat_of_int (numer ms)" "rat_of_int (numer ms) \<le> 2 ^ 53"
    "1 \<le> rat_of_int (denom ms)" "rat_of_int (denom ms) \<le> 2 ^ 53"
    using N D fitted(2,3) by simp_all
  have "1 \<le> tot y_of ms * tot y_of ms"
    using tot_pos [OF two(2)] two(3) y_of_nonneg [of p] mult_mono [of 1 "tot y_of ms" 1 "tot y_of ms"] by simp
  then have Q: "1 \<le> rat_of_int (tot y_of ms * tot y_of ms)" by (metis of_int_1 of_int_le_iff)
  have "200 * tot (\<lambda>m. y_of m * y_of m) ms \<le> 200 * 2 ^ 53"
    using fit by (simp add: sums_fit_def)
  then have "rat_of_int (200 * tot (\<lambda>m. y_of m * y_of m) ms) \<le> of_int (200 * 2 ^ 53)"
    by (simp only: of_int_le_iff)
  then have P: "rat_of_int (200 * tot (\<lambda>m. y_of m * y_of m) ms) \<le> 200 * 2 ^ 53"
    by (simp only: of_int_mult of_int_numeral of_int_power)
  have PQ: "rat_of_int (200 * tot (\<lambda>m. y_of m * y_of m) ms) - of_int (tot y_of ms * tot y_of ms) =
      of_int (varia ms)"
    by (simp add: varia_def)
  have E: "65536 \<le> rat_of_int (varia ms)" using sp(3) by simp
  obtain e where e: "fsub (to_double (of_int (200 * tot (\<lambda>m. y_of m * y_of m) ms)))
      (to_double (of_int (tot y_of ms * tot y_of ms))) = Fin e"
    "1 \<le> e" "e \<le> 2 ^ 63" "e \<le> 51 / 50 * of_int (varia ms)"
    by (rule variance_close [OF PQ Q P E])
  have "rat_of_int (numer ms) * of_int (numer ms) = of_int (varia ms) * of_int (denom ms)"
    by (simp add: sp(1,2))
  from correlation [OF this big e(2-4)]
  have corr: "\<not> dbl_less (fdiv (fdiv (fmul (dint (numer ms)) (dint (numer ms))) (dint (denom ms)))
      (fsub (to_double (of_int (200 * tot (\<lambda>m. y_of m * y_of m) ms)))
         (to_double (of_int (tot y_of ms * tot y_of ms))))) (to_double (9 / 10))"
    unfolding e(1) .
  have lim: "1 / 2 ^ 53 \<le> b" "b \<le> 2 ^ 53"
  proof -
    have "1 / 2 ^ 53 \<le> rat_of_int (numer ms) / of_int (denom ms)"
      by (rule frac_le) (use big in simp_all)
    moreover have "rat_of_int (numer ms) / of_int (denom ms) \<le> 2 ^ 53 / 1"
      by (rule frac_le) (use big in simp_all)
    ultimately show "1 / 2 ^ 53 \<le> b" "b \<le> 2 ^ 53" by (simp_all add: slope)
  qed
  show ?thesis using slope_rounds [OF lim] by (simp only: fitted(1) slope corr if_False)
qed

section \<open>The inner loop\<close>

lemma wait_until_ends:
  "wait_until gettimeofday tv1 limit w = Some r \<Longrightarrow>
   \<forall>tv2. fst r = Some tv2 \<longrightarrow> limit \<le> usec_between tv1 tv2"
  by (erule wait_until.raw_induct [rotated, where P = "\<lambda>g t l w r.
      \<forall>tv2. fst r = Some tv2 \<longrightarrow> l \<le> usec_between t tv2"])
    (fastforce split: prod.splits option.splits if_splits)

text \<open>
  \<open>ticks gettimeofday k w\<close> is the result of reading the clock \<open>k + 1\<close> times; the loop ends when some
  reading fails or has reached the limit.
\<close>

fun ticks :: "('w \<Rightarrow> timeval option \<times> 'w) \<Rightarrow> nat \<Rightarrow> 'w \<Rightarrow> timeval option \<times> 'w" where
  "ticks gettimeofday 0 w = gettimeofday w"
| "ticks gettimeofday (Suc k) w = ticks gettimeofday k (snd (gettimeofday w))"

definition reached :: "timeval \<Rightarrow> int \<Rightarrow> timeval option \<Rightarrow> bool" where
  "reached tv1 limit r = (case r of None \<Rightarrow> True | Some tv2 \<Rightarrow> limit \<le> usec_between tv1 tv2)"

lemma wait_until_returns:
  "reached tv1 limit (fst (ticks gettimeofday k w)) \<Longrightarrow>
   \<exists>r. wait_until gettimeofday tv1 limit w = Some r"
proof (induction k arbitrary: w)
  case 0
  then show ?case
    by (subst wait_until.simps) (auto simp: reached_def split: prod.splits option.splits)
next
  case (Suc k)
  then show ?case
    by (subst wait_until.simps) (auto split: prod.splits option.splits)
qed

lemma measure_once_returns:
  assumes "\<And>tv1 limit w. \<exists>k. reached tv1 limit (fst (ticks gettimeofday k w))"
  shows "\<exists>r. measure_once get_cycles gettimeofday i w = Some r"
proof -
  have "\<exists>r. wait_until gettimeofday tv1 limit v = Some r" for tv1 limit v
  proof -
    obtain k where "reached tv1 limit (fst (ticks gettimeofday k v))" using assms by blast
    then show ?thesis by (rule wait_until_returns)
  qed
  then show ?thesis
    by (simp add: measure_once_def split: prod.splits option.splits) (metis option.distinct(1))
qed

lemma measure_all_returns:
  assumes "\<And>tv1 limit w. \<exists>k. reached tv1 limit (fst (ticks gettimeofday k w))"
  shows "\<exists>r. measure_all get_cycles gettimeofday is w = Some r"
proof (induction "is" arbitrary: w)
  case (Cons i "is")
  from measure_once_returns [OF assms] obtain m w1 where
    "measure_once get_cycles gettimeofday (int i) w = Some (m, w1)" by (metis prod.exhaust)
  moreover from Cons.IH obtain ms w2 where
    "measure_all get_cycles gettimeofday is w1 = Some (ms, w2)" by (metis prod.exhaust)
  ultimately show ?case by (auto split: option.splits)
qed simp

text \<open>Every sample has waited as long as asked for.\<close>

lemma measure_once_waits:
  assumes "measure_once get_cycles gettimeofday i w = Some (Some (x, y), w')"
  shows "USECSTART + i * USECSTEP \<le> x"
  using assms
  by (auto simp: measure_once_def dest!: wait_until_ends split: prod.splits option.splits)

lemma measure_all_waits:
  "measure_all get_cycles gettimeofday is w = Some (Some ms, w') \<Longrightarrow>
   length ms = length is \<and>
   (\<forall>k < length is. USECSTART + int (is ! k) * USECSTEP \<le> fst (ms ! k))"
proof (induction "is" arbitrary: w ms)
  case (Cons i "is")
  then obtain x y w1 ms' where
    m: "measure_once get_cycles gettimeofday (int i) w = Some (Some (x, y), w1)"
    and ms: "measure_all get_cycles gettimeofday is w1 = Some (Some ms', w')" "ms = (x, y) # ms'"
    by (auto split: option.splits prod.splits)
  from measure_once_waits [OF m] Cons.IH [OF ms(1)] ms(2) show ?case
    by (auto simp: nth_Cons split: nat.split)
qed simp

section \<open>Reading the frequency\<close>

text \<open>The frequency is the first one of the file that is not zero.\<close>

definition first_nonzero :: "rat list \<Rightarrow> rat" where
  "first_nonzero ms = (case filter (\<lambda>m. m \<noteq> 0) ms of [] \<Rightarrow> 0 | m # _ \<Rightarrow> m)"

lemma proc_line_mhz:
  "fst (proc_line arch os nw l st) =
     (if fst st = 0 then (case scan_mhz arch os l of None \<Rightarrow> 0 | Some m \<Rightarrow> m) else fst st)"
  by (cases st) (auto simp: proc_line_def Let_def split: option.split)

lemma proc_line_warnings:
  assumes "length (snd (snd st)) \<le> (if fst (snd st) \<and> \<not> nw then 1 else 0)"
  shows "length (snd (snd (proc_line arch os nw l st))) \<le>
     (if fst (snd (proc_line arch os nw l st)) \<and> \<not> nw then 1 else 0)"
  using assms by (cases st) (auto simp: proc_line_def Let_def split: option.split)

lemma proc_fold_mhz:
  "fst (fold (proc_line arch os nw) ls st) =
     (if fst st \<noteq> 0 then fst st else first_nonzero (List.map_filter (scan_mhz arch os) ls))"
proof (induction ls arbitrary: st)
  case (Cons l ls)
  then show ?case
    by (auto simp: proc_line_mhz first_nonzero_def List.map_filter_simps split: option.split)
qed (simp add: first_nonzero_def List.map_filter_simps)

lemma proc_fold_warnings:
  "length (snd (snd st)) \<le> (if fst (snd st) \<and> \<not> nw then 1 else 0) \<Longrightarrow>
   length (snd (snd (fold (proc_line arch os nw) ls st))) \<le>
     (if fst (snd (fold (proc_line arch os nw) ls st)) \<and> \<not> nw then 1 else 0)"
proof (induction ls arbitrary: st)
  case (Cons l ls)
  from Cons.IH [OF proc_line_warnings [OF Cons.prems]] show ?case by simp
qed simp

end
