(* ===== verification/Clock_Properties.thy ===== *)
theory Clock_Properties
  imports Get_Clock
begin

text \<open>
  The properties of the cycle counters and of the frequency measurement.
\<close>

text \<open>
  A clock for the examples: the state is the time in microseconds and the step of the next
  reading. The counter runs at 6 cycles per microsecond of the waiting time.
\<close>

definition step_clock :: "int \<times> int \<Rightarrow> timeval option \<times> int \<times> int" where
  "step_clock = (\<lambda>(t, s).
     (Some \<lparr>tv_sec = (t + s) div 1000000, tv_usec = (t + s) mod 1000000\<rparr>, (t + s, s + 10)))"

definition step_cycles :: "int \<times> int \<Rightarrow> 64 word \<times> int \<times> int" where
  "step_cycles = (\<lambda>(t, s). (word_of_int (3 * t), (t, s)))"

lemma step_usec:
  "usec_between \<lparr>tv_sec = a div 1000000, tv_usec = a mod 1000000\<rparr>
     \<lparr>tv_sec = b div 1000000, tv_usec = b mod 1000000\<rparr> = b - a"
  using mult_div_mod_eq [of 1000000 a] mult_div_mod_eq [of 1000000 b]
  by (simp add: usec_between_def algebra_simps)

lemma step_once:
  assumes "100 + i * 10 \<le> s + 10"
  shows "measure_once step_cycles step_clock i (t, s) =
     Some (Some (s + 10, word_of_int (6 * s + 30)), (t + 2 * s + 10, s + 20))"
proof -
  let ?tv = "\<lambda>a. \<lparr>tv_sec = a div 1000000, tv_usec = a mod 1000000\<rparr>"
  have "usec_between (?tv (t + s)) (?tv (t + s + (s + 10))) = s + 10" by (simp add: step_usec)
  moreover from this assms have
    "wait_until step_clock (?tv (t + s)) (USECSTART + i * USECSTEP) (t + s, s + 10) =
      Some (Some (?tv (t + s + (s + 10))), (t + s + (s + 10), s + 20))"
    by (subst wait_until.simps) (simp add: step_clock_def USECSTART_def USECSTEP_def)
  moreover have "word_of_int (3 * (t + s + (s + 10))) - word_of_int (3 * t) =
      (word_of_int (6 * s + 30) :: 64 word)"
    by (simp flip: of_int_diff add: algebra_simps)
  ultimately show ?thesis
    by (simp add: measure_once_def step_cycles_def step_clock_def)
qed

lemma step_all:
  "\<exists>w. measure_all step_cycles step_clock [k..<k + n] (t, 100 + 20 * int k) =
     Some (Some (List.map (\<lambda>j. (110 + 20 * int j, word_of_int (630 + 120 * int j))) [k..<k + n]), w)"
proof (induction n arbitrary: k t)
  case (Suc n)
  have up: "[k..<k + Suc n] = k # [Suc k..<Suc k + n]" by (simp add: upt_conv_Cons del: upt_Suc)
  have once: "measure_once step_cycles step_clock (int k) (t, 100 + 20 * int k) =
      Some (Some (110 + 20 * int k, word_of_int (630 + 120 * int k)),
        (t + 2 * (100 + 20 * int k) + 10, 100 + 20 * int (Suc k)))"
    using step_once [of "int k" "100 + 20 * int k" t] by (simp add: algebra_simps)
  from Suc.IH [of "Suc k" "t + 2 * (100 + 20 * int k) + 10"] show ?case
    unfolding up by (auto simp: once simp del: upt_Suc)
qed simp

text \<open>The samples of the example: 200 of them, on the line of slope 6.\<close>

lemma step_samples:
  obtains w where "measure_all step_cycles step_clock [0..<MEASUREMENTS] (0, 100) =
     Some (Some (List.map (\<lambda>j. (110 + 20 * int j, word_of_int (630 + 120 * int j))) [0..<200]), w)"
  using step_all [of 0 200 0] by (auto simp: MEASUREMENTS_def)

text \<open>On such samples the estimate is the slope; the samples of the example are of that kind.\<close>

lemma sample_line:
  assumes "measure_all get_cycles gettimeofday [0..<MEASUREMENTS] w = Some (Some ms, w')"
    and "\<forall>(x, y) \<in> set ms. of_int (uint y) = a + b * rat_of_int x" and "0 < b"
    and "sums_fit ms"
    and "p \<in> set ms" and "q \<in> set ms" and "uint (snd p) + 256 \<le> uint (snd q)"
  shows "sample_get_cpu_mhz get_cycles gettimeofday w = Some (Fin (round_rat b), w') \<and>
     \<bar>round_rat b - b\<bar> \<le> b / 2 ^ 53"
proof -
  note len = measure_all_waits [OF assms(1)]
  have x: "0 \<le> x_of m" if m: "m \<in> set ms" for m
  proof -
    from m obtain k where "k < length ms" "m = ms ! k" by (auto simp: in_set_conv_nth)
    with len show ?thesis by (fastforce simp: x_of_def USECSTART_def USECSTEP_def)
  qed
  have "\<forall>m \<in> set ms. of_int (y_of m) = a + b * of_int (x_of m)"
    using assms(2) by (auto simp: x_of_def y_of_def simp del: of_int_uint)
  moreover have "length ms = MEASUREMENTS" using len by simp
  ultimately have "regression ms = Fin (round_rat b) \<and> \<bar>round_rat b - b\<bar> \<le> b / 2 ^ 53"
    using regression_line [of ms a b p q] assms(3-7) x by (simp add: y_of_def)
  then show ?thesis using assms(1) by (simp add: sample_get_cpu_mhz_def)
qed

lemma sums_fit_each:
  assumes len: "length ms = 200" and m: "\<And>m. m \<in> set ms \<Longrightarrow> 0 \<le> x_of m \<and> x_of m \<le> 5000 \<and> y_of m \<le> 25000"
  shows "sums_fit ms"
proof -
  have bound: "tot f ms \<le> 200 * c" if "\<And>m. m \<in> set ms \<Longrightarrow> f m \<le> c" for f :: "int \<times> 64 word \<Rightarrow> int" and c
    using sum_list_mono [of ms f "\<lambda>_. c"] that len by (simp add: sum_list_triv)
  have "x_of m * x_of m \<le> 5000 * 5000 \<and> x_of m * y_of m \<le> 5000 * 25000 \<and> y_of m * y_of m \<le> 25000 * 25000"
    if "m \<in> set ms" for m
    using m [OF that] by (intro conjI mult_mono) simp_all
  then have "tot (\<lambda>m. x_of m * x_of m) ms \<le> 200 * (5000 * 5000)"
    "tot (\<lambda>m. x_of m * y_of m) ms \<le> 200 * (5000 * 25000)"
    "tot (\<lambda>m. y_of m * y_of m) ms \<le> 200 * (25000 * 25000)"
    by (intro bound; blast)+
  then show ?thesis by (simp add: sums_fit_def)
qed

lemma step_line:
  obtains ms w p q where "measure_all step_cycles step_clock [0..<MEASUREMENTS] (0, 100) = Some (Some ms, w)"
    and "\<forall>(x, y) \<in> set ms. of_int (uint y) = - 30 + 6 * rat_of_int x" and "sums_fit ms"
    and "p \<in> set ms" and "q \<in> set ms" and "uint (snd p) + 256 \<le> uint (snd q)"
proof -
  let ?s = "\<lambda>j. (110 + 20 * int j, word_of_int (630 + 120 * int j) :: 64 word)"
  let ?ms = "List.map ?s [0..<200]"
  obtain w where ms: "measure_all step_cycles step_clock [0..<MEASUREMENTS] (0, 100) = Some (Some ?ms, w)"
    by (rule step_samples)
  have u: "uint (word_of_int (630 + 120 * int j) :: 64 word) = 630 + 120 * int j" if "j < 200" for j
  proof -
    have w: "word_of_int (630 + 120 * int j) = (word_of_nat (630 + 120 * j) :: 64 word)" by simp
    have "unat (word_of_nat (630 + 120 * j) :: 64 word) = 630 + 120 * j"
      unfolding unat_of_nat using that by simp
    then show ?thesis unfolding w uint_nat by simp
  qed
  have line: "\<forall>(x, y) \<in> set ?ms. of_int (uint y) = - 30 + 6 * rat_of_int x"
    using u by (auto simp del: of_int_uint)
  have fit: "sums_fit ?ms"
  proof (rule sums_fit_each)
    fix m assume "m \<in> set ?ms"
    then obtain j where j: "j < 200" "m = ?s j" by auto
    have "x_of m = 110 + 20 * int j" "y_of m = 630 + 120 * int j"
      unfolding j(2) x_of_def y_of_def fst_conv snd_conv u [OF j(1)] by (rule refl)+
    then show "0 \<le> x_of m \<and> x_of m \<le> 5000 \<and> y_of m \<le> 25000" using j(1) by simp
  qed simp
  have mem: "?s j \<in> set ?ms" if "j < 200" for j
    unfolding set_map by (rule imageI) (simp add: that)
  have "?s 0 \<in> set ?ms" "?s 3 \<in> set ?ms" by (rule mem, simp)+
  moreover have "uint (snd (?s 0)) + 256 \<le> uint (snd (?s 3))" unfolding snd_conv by (subst (1 2) u) simp_all
  ultimately show ?thesis by (rule that [OF ms line fit])
qed

lemma step_rounds: "round_rat 6 = 6"
  using round_rat_int [of 6] by simp


text \<open>
  C24. The frequency estimate is as good as a \<open>double\<close> can be. When the measured cycles are a linear
  function of the measured microseconds (an overhead plus \<open>b > 0\<close> cycles per microsecond), two of
  the measurements are at least 256 cycles apart, and the sums fit (\<open>sums_fit\<close>: up to 5 GHz with the
  waiting times asked for), \<open>sample_get_cpu_mhz\<close> accepts the correlation and returns the double
  nearest to \<open>b\<close>: all the rounding of the sums, products and quotients together costs no more than
  rounding \<open>b\<close> once, a relative error of at most \<open>2 ^ -53\<close>.
\<close>

theorem sample_nearest:
  assumes "measure_all get_cycles gettimeofday [0..<MEASUREMENTS] w = Some (Some ms, w')"
    and "\<forall>(x, y) \<in> set ms. of_int (uint y) = a + b * rat_of_int x" and "0 < b"
    and "sums_fit ms"
    and "p \<in> set ms" and "q \<in> set ms" and "uint (snd p) + 256 \<le> uint (snd q)"
  shows "sample_get_cpu_mhz get_cycles gettimeofday w = Some (Fin (round_rat b), w') \<and>
     \<bar>round_rat b - b\<bar> \<le> b / 2 ^ 53"
  using assms by (rule sample_line)

theorem sample_nearest_witness:
  "\<exists>w'. sample_get_cpu_mhz step_cycles step_clock (0, 100) = Some (Fin 6, w')"
proof -
  obtain ms w p q where "measure_all step_cycles step_clock [0..<MEASUREMENTS] (0, 100) = Some (Some ms, w)"
    "\<forall>(x, y) \<in> set ms. of_int (uint y) = - 30 + 6 * rat_of_int x" "sums_fit ms"
    "p \<in> set ms" "q \<in> set ms" "uint (snd p) + 256 \<le> uint (snd q)" by (rule step_line)
  from sample_nearest [OF this(1,2) _ this(3-6)] show ?thesis by (simp add: step_rounds)
qed

text \<open>
  C25. Sampling ends and waits long enough. When the clock, read again and again, fails or gets
  past every limit, \<open>sample_get_cpu_mhz\<close> returns; and when the 200 measurements succeed, the
  measurement \<open>k\<close> has waited at least \<open>100 + 10 k\<close> microseconds.
\<close>

theorem sampling_returns:
  assumes "\<And>tv1 limit w. \<exists>k. reached tv1 limit (fst (ticks gettimeofday k w))"
  shows "(\<exists>r. sample_get_cpu_mhz get_cycles gettimeofday w = Some r) \<and>
     (case measure_all get_cycles gettimeofday [0..<MEASUREMENTS] w of
        Some (Some ms, _) \<Rightarrow> length ms = 200 \<and> list_all2 (\<lambda>k m. 100 + 10 * int k \<le> fst m) [0..<200] ms
      | _ \<Rightarrow> True)"
proof -
  from measure_all_returns [OF assms] obtain o' w' where
    m: "measure_all get_cycles gettimeofday [0..<MEASUREMENTS] w = Some (o', w')" by (metis prod.exhaust)
  show ?thesis
  proof (cases o')
    case None
    with m show ?thesis by (simp add: sample_get_cpu_mhz_def)
  next
    case (Some ms)
    with measure_all_waits [of get_cycles gettimeofday "[0..<MEASUREMENTS]" w ms w'] m show ?thesis
      by (auto simp: sample_get_cpu_mhz_def MEASUREMENTS_def USECSTART_def USECSTEP_def
          list_all2_conv_all_nth algebra_simps)
  qed
qed

text \<open>A clock that advances by a day at every reading gets past every limit.\<close>

definition day_clock :: "int \<Rightarrow> timeval option \<times> int" where
  "day_clock d = (Some \<lparr>tv_sec = 86400 * d, tv_usec = 0\<rparr>, d + 1)"

lemma day_clock_ticks: "fst (ticks day_clock k d) = Some \<lparr>tv_sec = 86400 * (d + int k), tv_usec = 0\<rparr>"
  by (induction k arbitrary: d) (simp_all add: day_clock_def algebra_simps)

lemma day_clock_reached: "\<exists>k. reached tv1 limit (fst (ticks day_clock k d))"
proof -
  define u where "u = tv_sec tv1 * 1000000 + tv_usec tv1"
  define k where "k = nat (\<bar>limit\<bar> + \<bar>u\<bar> + \<bar>d\<bar>)"
  define l where "l = d + int k"
  have "\<bar>limit\<bar> + \<bar>u\<bar> \<le> l" unfolding l_def k_def by linarith
  then have "limit \<le> 86400 * l * 1000000 - u" by linarith
  also have "\<dots> = usec_between tv1 \<lparr>tv_sec = 86400 * l, tv_usec = 0\<rparr>"
    by (simp add: usec_between_def u_def algebra_simps)
  finally show ?thesis
    by (intro exI [of _ k]) (simp add: reached_def day_clock_ticks l_def)
qed

theorem sampling_returns_witness:
  "\<exists>r. sample_get_cpu_mhz (\<lambda>d. (word_of_int (86400 * d), d)) day_clock 0 = Some r"
  using sampling_returns [of day_clock, OF day_clock_reached] by blast

text \<open>
  C26. The frequency read from \<^verbatim>\<open>/proc/cpuinfo\<close> is the first one listed that is not zero (0 when
  there is none, or no such file), and a conflict between the listed frequencies is reported at
  most once, and never when the caller asks for no warnings.
\<close>

theorem proc_first_nonzero:
  "fst (proc_get_cpu_mhz arch os no_warn cpuinfo) =
     (case cpuinfo of None \<Rightarrow> 0 | Some ls \<Rightarrow> first_nonzero (List.map_filter (scan_mhz arch os) ls)) \<and>
   length (snd (proc_get_cpu_mhz arch os no_warn cpuinfo)) \<le> (if no_warn then 0 else 1)"
proof (cases cpuinfo)
  case (Some ls)
  obtain m f ws where r: "fold (proc_line arch os no_warn) ls (0, False, []) = (m, f, ws)"
    by (metis prod.exhaust)
  with proc_fold_mhz [of arch os no_warn ls "(0, False, [])"]
    proc_fold_warnings [of "(0, False, [])" no_warn arch os ls] Some
  show ?thesis by (auto simp: proc_get_cpu_mhz_def split: if_splits)
qed (simp add: proc_get_cpu_mhz_def)





lemma x86_value: "unat (get_cycles_x86 low high) = unat high * 2 ^ 32 + unat low"
proof -
  have l: "unat low < 2 ^ 32" and h: "unat high < 2 ^ 32"
    using unsigned_less [of low] unsigned_less [of high] by simp_all
  have "unat (get_cycles_x86 low high) = or (take_bit 64 (push_bit 32 (unat high))) (unat low)"
    using l h by (simp add: get_cycles_x86_def unsigned_or_eq unsigned_push_bit_eq unsigned_ucast_eq
        take_bit_nat_eq_self)
  also have "take_bit 64 (push_bit 32 (unat high)) = push_bit 32 (unat high)"
    using h by (intro take_bit_nat_eq_self) (simp add: push_bit_eq_mult)
  also have "or (push_bit 32 (unat high)) (unat low) = push_bit 32 (unat high) + unat low"
  proof (rule disjunctive_add_eq_or [symmetric])
    have "take_bit 32 (unat low) = unat low" using l by (simp add: take_bit_nat_eq_self)
    then have "\<not> bit (unat low) n" if "32 \<le> n" for n
      using that by (metis bit_take_bit_iff not_less)
    then show "and (push_bit 32 (unat high)) (unat low) = 0"
      by (intro bit_eqI) (auto simp: bit_and_iff bit_push_bit_iff)
  qed
  finally show ?thesis by (simp add: push_bit_eq_mult)
qed

lemma x86_halves: "get_cycles_x86 (ucast c) (ucast (drop_bit 32 c)) = c"
proof -
  have "unat (ucast (drop_bit 32 c) :: 32 word) = unat c div 2 ^ 32"
    using unsigned_less [of c, where 'a = nat]
    by (simp add: unsigned_ucast_eq drop_bit_eq_div take_bit_eq_mod unat_div less_mult_imp_div_less)
  moreover have "unat (ucast c :: 32 word) = unat c mod 2 ^ 32"
    by (simp add: unsigned_ucast_eq take_bit_eq_mod)
  ultimately have "unat (get_cycles_x86 (ucast c) (ucast (drop_bit 32 c))) = unat c"
    by (simp add: x86_value div_mult_mod_eq)
  then show ?thesis by (simp add: word_unat_eq_iff)
qed

text \<open>
  C28. \<open>get_cycles\<close>. On x86 the two halves of the time stamp counter are put together without loss
  and in the order of the counter; every CPU but RISC-V gives its counter, the clock on s390 divided
  by 4, the low half on 32-bit PowerPC; and once \<open>perf_get_cycles\<close> of RISC-V has returned,
  later calls use the descriptor it has opened and never open another.
\<close>

theorem get_cycles_value:
  "unat (get_cycles_x86 low high) = unat high * 2 ^ 32 + unat low \<and>
   (get_cycles_x86 low high < get_cycles_x86 low' high' \<longleftrightarrow>
      high < high' \<or> high = high' \<and> low < low') \<and>
   get_cycles_of arch tick op rd st w =
     (if arch = RiscV then perf_get_cycles op rd st w
      else (case tick w of (c, w') \<Rightarrow>
        Inr (if arch = PPC then c mod 2 ^ 32 else if arch = S390 then c div 4 else c, st, w'))) \<and>
   (case perf_get_cycles op rd st w of
      Inl _ \<Rightarrow> True
    | Inr (_, st', w') \<Rightarrow> \<forall>op' v. perf_get_cycles op' rd st' v = perf_get_cycles op rd st' v)"
proof (intro conjI)
  have "get_cycles_x86 low high < get_cycles_x86 low' high' \<longleftrightarrow>
      unat high * 2 ^ 32 + unat low < unat high' * 2 ^ 32 + unat low'"
    by (simp add: word_less_nat_alt x86_value)
  also have "\<dots> \<longleftrightarrow> high < high' \<or> high = high' \<and> low < low'"
    using unsigned_less [of low, where 'a = nat] unsigned_less [of low', where 'a = nat]
    by (auto simp: word_less_nat_alt word_unat_eq_iff)
  finally show "get_cycles_x86 low high < get_cycles_x86 low' high' \<longleftrightarrow>
      high < high' \<or> high = high' \<and> low < low'" .
  have "ucast (ucast c :: 32 word) = c mod 2 ^ 32" for c :: "64 word"
    by (simp add: word_unat_eq_iff unsigned_ucast_eq unat_mod take_bit_eq_mod)
  moreover have "drop_bit 2 c = c div 4" for c :: "64 word" by (simp add: drop_bit_eq_div)
  ultimately show "get_cycles_of arch tick op rd st w =
      (if arch = RiscV then perf_get_cycles op rd st w
       else (case tick w of (c, w') \<Rightarrow>
         Inr (if arch = PPC then c mod 2 ^ 32 else if arch = S390 then c div 4 else c, st, w')))"
    by (cases arch) (simp_all add: get_cycles_of_def get_cycles_s390_def x86_halves split: prod.split)
qed (auto simp: x86_value perf_get_cycles_def Let_def split: prod.splits if_splits sum.split)

end
