(* ===== verification/Grpc_Client.thy ===== *)
theory Grpc_Client
  imports Rdma_Utils
begin

text \<open>
  The client of the controller (\<^verbatim>\<open>csrc/grpc_client.h\<close>, \<^verbatim>\<open>csrc/grpc_client.cc\<close>) and the messages
  of \<^verbatim>\<open>proto/flashreduce.proto\<close> it exchanges.

  A message is a record with the fields of the \<^verbatim>\<open>.proto\<close> file; the classes that \<^verbatim>\<open>protoc\<close> generates
  for it have an accessor and a setter for each, and construct it with all fields 0. The two stubs
  are a parameter: a record of remote calls on the state \<open>'w\<close> of the network, each of which returns
  a status and the response. A failed \<open>CHECK\<close> ends the process.
\<close>

section \<open>Messages\<close>

record RdmaSessionRequest =
  rq_session_id :: "32 word"
  rq_rank :: "32 word"
  rq_num_workers :: "32 word"
  rq_root :: "32 word"
  rq_mac :: "64 word"
  rq_ipv4 :: "32 word"
  rq_rkey :: "32 word"
  rq_raddr :: "64 word"
  rq_qpn :: "32 word"
  rq_psn :: "32 word"
  rq_gid_subnet :: "64 word"
  rq_gid_iface :: "64 word"
  rq_lid :: "32 word"

record RdmaSessionResponse =
  rs_rkey :: "32 word"
  rs_raddr :: "64 word"
  rs_qpn :: "32 word"
  rs_psn :: "32 word"
  rs_gid_subnet :: "64 word"
  rs_gid_iface :: "64 word"
  rs_lid :: "32 word"

record BarrierRequest =
  ba_num_workers :: "32 word"

record BroadcastRequest =
  bc_value :: "64 word"
  bc_rank :: "32 word"
  bc_num_workers :: "32 word"
  bc_root :: "32 word"

record BroadcastResponse =
  br_value :: "64 word"

text \<open>A message as its constructor leaves it.\<close>

definition new_RdmaSessionRequest :: RdmaSessionRequest where
  "new_RdmaSessionRequest =
     \<lparr>rq_session_id = 0, rq_rank = 0, rq_num_workers = 0, rq_root = 0, rq_mac = 0, rq_ipv4 = 0,
      rq_rkey = 0, rq_raddr = 0, rq_qpn = 0, rq_psn = 0, rq_gid_subnet = 0, rq_gid_iface = 0,
      rq_lid = 0\<rparr>"

definition new_BarrierRequest :: BarrierRequest where
  "new_BarrierRequest = \<lparr>ba_num_workers = 0\<rparr>"

definition new_BroadcastRequest :: BroadcastRequest where
  "new_BroadcastRequest = \<lparr>bc_value = 0, bc_rank = 0, bc_num_workers = 0, bc_root = 0\<rparr>"

section \<open>The client\<close>

datatype status = StatusOk | StatusError int string

text \<open>The two stubs; \<open>Barrier\<close> has an empty response.\<close>

record 'w stubs =
  st_RdmaSession :: "RdmaSessionRequest \<Rightarrow> 'w \<Rightarrow> (status \<times> RdmaSessionResponse) \<times> 'w"
  st_Barrier :: "BarrierRequest \<Rightarrow> 'w \<Rightarrow> status \<times> 'w"
  st_Broadcast :: "BroadcastRequest \<Rightarrow> 'w \<Rightarrow> (status \<times> BroadcastResponse) \<times> 'w"

text \<open>Both channels of a client go to the same address.\<close>

definition controller_socket :: "string \<Rightarrow> string \<Rightarrow> string" where
  "controller_socket ip port = ip @ '':'' @ port"

definition gRPCClient_new ::
  "(string \<Rightarrow> 'w \<Rightarrow> 'c \<times> 'w) \<Rightarrow> string \<Rightarrow> string \<Rightarrow> 'w \<Rightarrow> ('c \<times> 'c) \<times> 'w" where
  "gRPCClient_new create_channel ip port w =
     (let (stub, w) = create_channel (controller_socket ip port) w;
          (session_stub, w) = create_channel (controller_socket ip port) w
      in ((stub, session_stub), w))"

text \<open>
  What a client call ends with when it does not return: a failed \<open>CHECK\<close>, or \<open>local_qp_infos[0]\<close>
  of an empty vector, which is undefined behaviour.
\<close>

datatype client_error = CheckError string | VectorOutOfRange

definition session_request ::
  "32 word \<Rightarrow> 32 word \<Rightarrow> 32 word \<Rightarrow> 32 word \<Rightarrow> 64 word \<Rightarrow> 32 word \<Rightarrow> QpInfo \<Rightarrow> RdmaSessionRequest" where
  "session_request session_id rank num_workers root_rank mac ipv4 local_qp_info =
     new_RdmaSessionRequest\<lparr>
       rq_session_id := session_id, rq_rank := rank, rq_num_workers := num_workers,
       rq_root := root_rank, rq_mac := mac, rq_ipv4 := ipv4,
       rq_rkey := qi_rkey local_qp_info, rq_raddr := qi_raddr local_qp_info,
       rq_qpn := qi_qp_num local_qp_info, rq_psn := qi_psn local_qp_info,
       rq_gid_subnet := subnet_prefix (qi_gid local_qp_info),
       rq_gid_iface := interface_id (qi_gid local_qp_info),
       rq_lid := ucast (qi_lid local_qp_info)\<rparr>"

definition response_info :: "RdmaSessionResponse \<Rightarrow> QpInfo" where
  "response_info response =
     \<lparr>qi_rkey = rs_rkey response, qi_raddr = rs_raddr response, qi_qp_num = rs_qpn response,
      qi_psn = rs_psn response,
      qi_gid = \<lparr>subnet_prefix = rs_gid_subnet response, interface_id = rs_gid_iface response\<rparr>,
      qi_lid = ucast (rs_lid response)\<rparr>"

text \<open>
  \<open>remote_qp_infos\<close> is an argument by reference: its new value is the result. Only the first of
  the local queue pairs is sent.
\<close>

definition RdmaSession ::
  "'w stubs \<Rightarrow> 32 word \<Rightarrow> 32 word \<Rightarrow> 32 word \<Rightarrow> 32 word \<Rightarrow> 64 word \<Rightarrow> 32 word \<Rightarrow>
   QpInfo list \<Rightarrow> QpInfo list \<Rightarrow> 'w \<Rightarrow> (client_error + QpInfo list) \<times> 'w" where
  "RdmaSession st session_id rank num_workers root_rank mac ipv4 local_qp_infos remote_qp_infos w =
     (case local_qp_infos of
        [] \<Rightarrow> (Inl VectorOutOfRange, w)
      | local_qp_info # _ \<Rightarrow>
          let ((status, response), w) =
                st_RdmaSession st
                  (session_request session_id rank num_workers root_rank mac ipv4 local_qp_info) w
          in if status \<noteq> StatusOk then (Inl (CheckError ''RdmaSession failed: ''), w)
             else (Inr (remote_qp_infos @ [response_info response]), w))"

definition Barrier :: "'w stubs \<Rightarrow> 32 word \<Rightarrow> 'w \<Rightarrow> (client_error + bool) \<times> 'w" where
  "Barrier st num_workers w =
     (let request = new_BarrierRequest\<lparr>ba_num_workers := num_workers\<rparr>;
          (status, w) = st_Barrier st request w
      in if status \<noteq> StatusOk then (Inl (CheckError ''Barrier failed: ''), w) else (Inr True, w))"

definition Broadcast ::
  "'w stubs \<Rightarrow> 64 word \<Rightarrow> 32 word \<Rightarrow> 32 word \<Rightarrow> 32 word \<Rightarrow> 'w \<Rightarrow> (client_error + 64 word) \<times> 'w" where
  "Broadcast st v rank num_workers root_rank w =
     (if \<not> 0 < num_workers
      then (Inl (CheckError ''Number of workers must be greater than 0''), w)
      else if \<not> rank < num_workers
      then (Inl (CheckError ''Rank must be less than number of workers''), w)
      else if \<not> root_rank < num_workers
      then (Inl (CheckError ''Root rank must be less than number of workers''), w)
      else
        let request = new_BroadcastRequest\<lparr>bc_value := v, bc_rank := rank,
              bc_num_workers := num_workers, bc_root := root_rank\<rparr>;
            ((status, response), w) = st_Broadcast st request w
        in if status \<noteq> StatusOk then (Inl (CheckError ''Broadcast failed: ''), w)
           else (Inr (br_value response), w))"

section \<open>What goes over the wire\<close>

text \<open>The request carries every field of the queue pair, and the response gives it back.\<close>

definition request_info :: "RdmaSessionRequest \<Rightarrow> QpInfo" where
  "request_info rq =
     \<lparr>qi_rkey = rq_rkey rq, qi_raddr = rq_raddr rq, qi_qp_num = rq_qpn rq, qi_psn = rq_psn rq,
      qi_gid = \<lparr>subnet_prefix = rq_gid_subnet rq, interface_id = rq_gid_iface rq\<rparr>,
      qi_lid = ucast (rq_lid rq)\<rparr>"

lemma ucast_16_32 [simp]: "ucast (ucast v :: 32 word) = (v :: 16 word)"
  by transfer simp

lemma session_request_sel [simp]:
  "rq_session_id (session_request sid rank n root_rank mac ip q) = sid"
  "rq_rank (session_request sid rank n root_rank mac ip q) = rank"
  "rq_num_workers (session_request sid rank n root_rank mac ip q) = n"
  "rq_root (session_request sid rank n root_rank mac ip q) = root_rank"
  by (simp_all add: session_request_def)

lemma request_info_session_request [simp]:
  "request_info (session_request sid rank n root_rank mac ip q) = q"
  by (simp add: request_info_def session_request_def)

end
