(* ===== verification/Controller.thy ===== *)
theory Controller
  imports Grpc_Client "HOL-Library.AList"
begin

text \<open>
  The controller (\<^verbatim>\<open>controller/controller.py\<close>): the servicer of \<open>Barrier\<close>, \<open>Broadcast\<close> and
  \<open>RdmaSession\<close>, whose handlers run on the threads of a pool and share the state of the object.

  A handler is cut into steps at the places where other handlers can observe or change that state:
  a \<open>with self.lock\<close> block is one step, each access outside of it is one, and so is the wait for
  an event. Python errors are values, together with the state they leave behind. Event objects are
  named by their creation, since each operation creates exactly one.
\<close>

section \<open>State\<close>

datatype pyexn = KeyError | IndexError | AttributeError

datatype pyevent = BarrierEvent nat | BcastEvent nat

record session =
  se_root :: "RdmaSessionRequest option"
  se_workers :: "(32 word \<times> RdmaSessionRequest) list"

text \<open>
  The attributes of the object, the set of events that are set, and the number of broadcast events
  created so far (the name of the next one). The workers of a session are in the order of
  insertion, as in a \<open>dict\<close>.
\<close>

record controller =
  barrier_op_id :: nat
  barrier_ctrs :: "nat \<rightharpoonup> int"
  barrier_events :: "nat \<rightharpoonup> pyevent"
  bcast_values :: "64 word option list"
  bcast_bitmap :: "bool list list"
  bcast_events :: "pyevent list"
  sessions :: "32 word \<rightharpoonup> session"
  set_events :: "pyevent set"
  bcast_created :: nat

definition new_controller :: controller where
  "new_controller =
     \<lparr>barrier_op_id = 0, barrier_ctrs = [0 \<mapsto> 0], barrier_events = [0 \<mapsto> BarrierEvent 0],
      bcast_values = [], bcast_bitmap = [], bcast_events = [], sessions = Map.empty,
      set_events = {}, bcast_created = 0\<rparr>"

type_synonym 'a py = "controller \<Rightarrow> (pyexn + 'a) \<times> controller"

definition py_return :: "'a \<Rightarrow> 'a py" where
  "py_return x = (\<lambda>C. (Inr x, C))"

definition py_raise :: "pyexn \<Rightarrow> 'a py" where
  "py_raise e = (\<lambda>C. (Inl e, C))"

definition py_bind :: "'a py \<Rightarrow> ('a \<Rightarrow> 'b py) \<Rightarrow> 'b py" where
  "py_bind f g = (\<lambda>C. case f C of (Inl e, C) \<Rightarrow> (Inl e, C) | (Inr x, C) \<Rightarrow> g x C)"

definition py_modify :: "(controller \<Rightarrow> controller) \<Rightarrow> unit py" where
  "py_modify u = (\<lambda>C. (Inr (), u C))"

definition py_get :: "(controller \<Rightarrow> 'a) \<Rightarrow> 'a py" where
  "py_get f = (\<lambda>C. (Inr (f C), C))"

text \<open>\<open>d[k]\<close> of a \<open>dict\<close> and \<open>xs[i]\<close> of a list, for an index that is not negative.\<close>

definition py_lookup :: "'a option \<Rightarrow> 'a py" where
  "py_lookup x = (case x of None \<Rightarrow> py_raise KeyError | Some v \<Rightarrow> py_return v)"

definition py_nth :: "'a list \<Rightarrow> nat \<Rightarrow> 'a py" where
  "py_nth xs i = (if i < length xs then py_return (xs ! i) else py_raise IndexError)"

definition py_delete_at :: "nat \<Rightarrow> 'a list \<Rightarrow> 'a list" where
  "py_delete_at i xs = take i xs @ drop (Suc i) xs"

lemmas py_defs = py_return_def py_raise_def py_bind_def py_modify_def py_get_def py_lookup_def
  py_nth_def

section \<open>The rendezvous of \<open>Barrier\<close> and \<open>RdmaSession\<close>\<close>

text \<open>\<open>self._barrier_ctrs[current_op_id] += 1\<close>, and the rest of the critical section.\<close>

definition count_arrival :: "nat py" where
  "count_arrival =
     py_bind (py_get barrier_op_id) (\<lambda>current_op_id C.
     py_bind (py_lookup (barrier_ctrs C current_op_id)) (\<lambda>c.
     py_bind (py_modify (\<lambda>C. C\<lparr>barrier_ctrs := (barrier_ctrs C)(current_op_id \<mapsto> c + 1)\<rparr>)) (\<lambda>_.
     py_return current_op_id)) C)"

definition release_or_join :: "nat \<Rightarrow> nat \<Rightarrow> pyevent py" where
  "release_or_join num_workers current_op_id = (\<lambda>C.
     py_bind (py_lookup (barrier_ctrs C current_op_id)) (\<lambda>c.
     if c < int num_workers then py_lookup (barrier_events C current_op_id)
     else
       py_bind (py_lookup (barrier_events C current_op_id)) (\<lambda>event.
       py_bind (py_modify (\<lambda>C. C\<lparr>
         set_events := insert event (set_events C),
         barrier_op_id := barrier_op_id C + 1,
         barrier_ctrs := (barrier_ctrs C)(barrier_op_id C + 1 \<mapsto> 0),
         barrier_events := (barrier_events C)(barrier_op_id C + 1 \<mapsto> BarrierEvent (barrier_op_id C + 1))\<rparr>))
       (\<lambda>_. py_return event))) C)"

definition Barrier_enter :: "BarrierRequest \<Rightarrow> (nat \<times> pyevent) py" where
  "Barrier_enter request =
     py_bind count_arrival (\<lambda>current_op_id.
     py_bind (release_or_join (unat (ba_num_workers request)) current_op_id) (\<lambda>event.
     py_return (current_op_id, event)))"

text \<open>The test after the critical section: does the handler have to wait? (An event is true.)\<close>

definition must_wait :: "nat \<Rightarrow> nat \<Rightarrow> bool py" where
  "must_wait num_workers current_op_id = (\<lambda>C.
     py_bind (py_lookup (barrier_ctrs C current_op_id)) (\<lambda>c. py_return (c < int num_workers)) C)"

text \<open>The second critical section, after the wait.\<close>

definition leave_barrier :: "nat \<Rightarrow> unit py" where
  "leave_barrier current_op_id = (\<lambda>C.
     py_bind (py_lookup (barrier_ctrs C current_op_id)) (\<lambda>c.
     py_bind (py_modify (\<lambda>C. C\<lparr>barrier_ctrs := (barrier_ctrs C)(current_op_id \<mapsto> c - 1)\<rparr>)) (\<lambda>_.
     if c - 1 = 0 then
       py_bind (py_modify (\<lambda>C. C\<lparr>barrier_ctrs := (barrier_ctrs C)(current_op_id := None)\<rparr>)) (\<lambda>_ C.
       py_bind (py_lookup (barrier_events C current_op_id)) (\<lambda>_.
       py_modify (\<lambda>C. C\<lparr>barrier_events := (barrier_events C)(current_op_id := None)\<rparr>)) C)
     else py_return ())) C)"

section \<open>\<open>RdmaSession\<close>\<close>

definition add_to_session :: "RdmaSessionRequest \<Rightarrow> controller \<Rightarrow> controller" where
  "add_to_session request C =
     (let s = (case sessions C (rq_session_id request) of
                 None \<Rightarrow> \<lparr>se_root = None, se_workers = []\<rparr> | Some s \<Rightarrow> s);
          s = (if rq_root request = 1 then s\<lparr>se_root := Some request\<rparr>
               else s\<lparr>se_workers := AList.update (rq_rank request) request (se_workers s)\<rparr>)
      in C\<lparr>sessions := (sessions C)(rq_session_id request \<mapsto> s)\<rparr>)"

definition RdmaSession_enter :: "RdmaSessionRequest \<Rightarrow> (nat \<times> pyevent) py" where
  "RdmaSession_enter request =
     py_bind count_arrival (\<lambda>current_op_id.
     py_bind (py_modify (add_to_session request)) (\<lambda>_.
     py_bind (release_or_join (unat (rq_num_workers request)) current_op_id) (\<lambda>event.
     py_return (current_op_id, event))))"

definition session_response :: "RdmaSessionRequest \<Rightarrow> RdmaSessionResponse" where
  "session_response req =
     \<lparr>rs_rkey = rq_rkey req, rs_raddr = rq_raddr req, rs_qpn = rq_qpn req, rs_psn = rq_psn req,
      rs_gid_subnet = rq_gid_subnet req, rs_gid_iface = rq_gid_iface req, rs_lid = rq_lid req\<rparr>"

definition RdmaSession_reply :: "RdmaSessionRequest \<Rightarrow> RdmaSessionResponse py" where
  "RdmaSession_reply request = (\<lambda>C.
     py_bind (py_lookup (sessions C (rq_session_id request))) (\<lambda>s.
     if rq_root request = 1 then
       py_bind (py_nth (se_workers s) 0) (\<lambda>(_, req). py_return (session_response req))
     else (case se_root s of
             None \<Rightarrow> py_raise AttributeError
           | Some req \<Rightarrow> py_return (session_response req))) C)"

section \<open>\<open>Broadcast\<close>\<close>

definition cleanup_at :: "nat \<Rightarrow> controller \<Rightarrow> controller" where
  "cleanup_at i C =
     (if list_all id (bcast_bitmap C ! i)
      then C\<lparr>bcast_bitmap := py_delete_at i (bcast_bitmap C),
             bcast_values := py_delete_at i (bcast_values C),
             bcast_events := py_delete_at i (bcast_events C)\<rparr>
      else C)"

definition cleanup :: "controller \<Rightarrow> controller" where
  "cleanup C = fold cleanup_at (rev [0..<length (bcast_bitmap C)]) C"

fun find_operation :: "nat \<Rightarrow> bool list list \<Rightarrow> nat \<Rightarrow> nat option py" where
  "find_operation rank [] i = py_return None"
| "find_operation rank (bits # rows) i =
     py_bind (py_nth bits rank) (\<lambda>b.
     if \<not> b then py_return (Some i) else find_operation rank rows (i + 1))"

definition append_operation :: "nat \<Rightarrow> controller \<Rightarrow> controller" where
  "append_operation num_workers C =
     C\<lparr>bcast_bitmap := bcast_bitmap C @ [replicate num_workers False],
       bcast_values := bcast_values C @ [None],
       bcast_events := bcast_events C @ [BcastEvent (bcast_created C)],
       bcast_created := bcast_created C + 1\<rparr>"

text \<open>\<open>self._bcast_bitmap[idx][rank] = True\<close>\<close>

definition mark :: "nat \<Rightarrow> nat \<Rightarrow> unit py" where
  "mark idx rank = (\<lambda>C.
     py_bind (py_nth (bcast_bitmap C) idx) (\<lambda>bits.
     py_bind (py_nth bits rank) (\<lambda>_.
     py_modify (\<lambda>C. C\<lparr>bcast_bitmap := (bcast_bitmap C)[idx := bits[rank := True]]\<rparr>))) C)"

text \<open>The critical section up to the wait: the index, and the event to wait for, if any.\<close>

definition Broadcast_enter :: "BroadcastRequest \<Rightarrow> (nat \<times> pyevent option) py" where
  "Broadcast_enter request =
     (let rank = unat (bc_rank request) in
      py_bind (py_modify cleanup) (\<lambda>_ C.
      py_bind (find_operation rank (bcast_bitmap C) 0) (\<lambda>found.
      py_bind (case found of
                 Some i \<Rightarrow> py_return i
               | None \<Rightarrow> py_bind (py_modify (append_operation (unat (bc_num_workers request)))) (\<lambda>_.
                         py_return (length (bcast_bitmap C)))) (\<lambda>idx C.
      if bc_rank request = bc_root request then
        py_bind (py_modify (\<lambda>C. C\<lparr>bcast_values := (bcast_values C)[idx := Some (bc_value request)],
            set_events := insert (bcast_events C ! idx) (set_events C)\<rparr>)) (\<lambda>_.
        py_bind (mark idx rank) (\<lambda>_.
        py_return (idx, None))) C
      else if bcast_values C ! idx = None then py_return (idx, Some (bcast_events C ! idx)) C
      else py_bind (mark idx rank) (\<lambda>_. py_return (idx, None)) C)) C))"

text \<open>The response, outside the lock; a response with no value has the value 0.\<close>

definition Broadcast_reply :: "nat \<Rightarrow> BroadcastResponse py" where
  "Broadcast_reply idx = (\<lambda>C.
     py_bind (py_nth (bcast_values C) idx) (\<lambda>v.
     py_return \<lparr>br_value = (case v of None \<Rightarrow> 0 | Some x \<Rightarrow> x)\<rparr>) C)"

section \<open>Handlers and the thread pool\<close>

datatype rpc =
    Barrier_rpc BarrierRequest
  | RdmaSession_rpc RdmaSessionRequest
  | Broadcast_rpc BroadcastRequest

datatype reply =
    Barrier_reply
  | RdmaSession_response RdmaSessionResponse
  | Broadcast_response BroadcastResponse

text \<open>
  Where a handler is: not started yet; before the test after the critical section; waiting for an
  event; before the second critical section; before it makes its response; ended.
\<close>

datatype pc = P_queued | P_check | P_wait pyevent | P_leave | P_reply | P_done reply | P_failed pyexn

text \<open>A handler with its locals \<open>current_op_id\<close> and \<open>idx\<close>.\<close>

record thread =
  th_rpc :: rpc
  th_op :: "nat option"
  th_idx :: "nat option"
  th_event :: "pyevent option"
  th_pc :: pc

record server =
  ctl :: controller
  threads :: "thread list"

definition POOL_SIZE :: nat where "POOL_SIZE = 10"

fun num_workers :: "rpc \<Rightarrow> nat" where
  "num_workers (Barrier_rpc r) = unat (ba_num_workers r)"
| "num_workers (RdmaSession_rpc r) = unat (rq_num_workers r)"
| "num_workers (Broadcast_rpc r) = unat (bc_num_workers r)"

fun after :: "(pyexn + 'a) \<times> controller \<Rightarrow> ('a \<Rightarrow> thread) \<Rightarrow> thread \<Rightarrow> thread \<times> controller" where
  "after (Inl e, C) k th = (th\<lparr>th_pc := P_failed e\<rparr>, C)"
| "after (Inr x, C) k th = (k x, C)"

text \<open>The first step of a handler.\<close>

fun start_handler :: "thread \<Rightarrow> controller \<Rightarrow> thread \<times> controller" where
  "start_handler th C =
     (case th_rpc th of
        Barrier_rpc r \<Rightarrow> after (Barrier_enter r C)
          (\<lambda>(op, ev). th\<lparr>th_op := Some op, th_event := Some ev, th_pc := P_check\<rparr>) th
      | RdmaSession_rpc r \<Rightarrow> after (RdmaSession_enter r C)
          (\<lambda>(op, ev). th\<lparr>th_op := Some op, th_event := Some ev, th_pc := P_check\<rparr>) th
      | Broadcast_rpc r \<Rightarrow> after (Broadcast_enter r C)
          (\<lambda>(idx, ev). th\<lparr>th_idx := Some idx, th_event := ev,
             th_pc := (case ev of None \<Rightarrow> P_reply | Some e \<Rightarrow> P_wait e)\<rparr>) th)"

text \<open>What follows the wait: the second critical section of each handler.\<close>

fun leave_handler :: "thread \<Rightarrow> controller \<Rightarrow> thread \<times> controller" where
  "leave_handler th C =
     (case th_rpc th of
        Broadcast_rpc r \<Rightarrow> after (mark (the (th_idx th)) (unat (bc_rank r)) C)
          (\<lambda>_. th\<lparr>th_pc := P_reply\<rparr>) th
      | _ \<Rightarrow> after (leave_barrier (the (th_op th)) C) (\<lambda>_. th\<lparr>th_pc := P_reply\<rparr>) th)"

fun reply_handler :: "thread \<Rightarrow> controller \<Rightarrow> thread \<times> controller" where
  "reply_handler th C =
     (case th_rpc th of
        Barrier_rpc r \<Rightarrow> (th\<lparr>th_pc := P_done Barrier_reply\<rparr>, C)
      | RdmaSession_rpc r \<Rightarrow> after (RdmaSession_reply r C)
          (\<lambda>x. th\<lparr>th_pc := P_done (RdmaSession_response x)\<rparr>) th
      | Broadcast_rpc r \<Rightarrow> after (Broadcast_reply (the (th_idx th)) C)
          (\<lambda>x. th\<lparr>th_pc := P_done (Broadcast_response x)\<rparr>) th)"

text \<open>One step of a handler; \<open>None\<close> when it is blocked or has ended.\<close>

fun thread_step :: "thread \<Rightarrow> controller \<Rightarrow> (thread \<times> controller) option" where
  "thread_step th C =
     (case th_pc th of
        P_queued \<Rightarrow> Some (start_handler th C)
      | P_check \<Rightarrow> Some (after (must_wait (num_workers (th_rpc th)) (the (th_op th)) C)
          (\<lambda>w. th\<lparr>th_pc := (if w then P_wait (the (th_event th)) else P_reply)\<rparr>) th)
      | P_wait e \<Rightarrow> (if e \<in> set_events C then Some (th\<lparr>th_pc := P_leave\<rparr>, C) else None)
      | P_leave \<Rightarrow> Some (leave_handler th C)
      | P_reply \<Rightarrow> Some (reply_handler th C)
      | P_done r \<Rightarrow> None
      | P_failed e \<Rightarrow> None)"

fun running :: "thread \<Rightarrow> bool" where
  "running th = (case th_pc th of P_queued \<Rightarrow> False | P_done r \<Rightarrow> False | P_failed e \<Rightarrow> False | _ \<Rightarrow> True)"

text \<open>A request arrives, or a handler makes a step; a handler starts when the pool has a free thread.\<close>

datatype server_action = Call rpc | Run nat

definition new_thread :: "rpc \<Rightarrow> thread" where
  "new_thread r = \<lparr>th_rpc = r, th_op = None, th_idx = None, th_event = None, th_pc = P_queued\<rparr>"

definition can_run :: "server \<Rightarrow> nat \<Rightarrow> bool" where
  "can_run S t \<longleftrightarrow> t < length (threads S) \<and>
     (th_pc (threads S ! t) = P_queued \<longrightarrow> length (filter running (threads S)) < POOL_SIZE)"

fun serve :: "server_action \<Rightarrow> server \<Rightarrow> server option" where
  "serve (Call r) S = Some (S\<lparr>threads := threads S @ [new_thread r]\<rparr>)"
| "serve (Run t) S =
     (if can_run S t
      then map_option (\<lambda>(th, C). S\<lparr>ctl := C, threads := (threads S)[t := th]\<rparr>)
             (thread_step (threads S ! t) (ctl S))
      else None)"

fun serve_all :: "server_action list \<Rightarrow> server \<Rightarrow> server option" where
  "serve_all [] S = Some S"
| "serve_all (a # as) S = (case serve a S of None \<Rightarrow> None | Some S \<Rightarrow> serve_all as S)"

definition new_server :: server where
  "new_server = \<lparr>ctl = new_controller, threads = []\<rparr>"

inductive served :: "server \<Rightarrow> bool" where
  served_new: "served new_server"
| served_step: "served S \<Longrightarrow> serve a S = Some S' \<Longrightarrow> served S'"

lemma served_all: "served S \<Longrightarrow> serve_all as S = Some S' \<Longrightarrow> served S'"
  by (induction as arbitrary: S) (auto split: option.splits intro: served_step)

end
