(* ===== verification/Controller_Barrier.thy ===== *)
theory Controller_Barrier
  imports Controller
begin

text \<open>
  The invariant of the controller's rendezvous, for every mix of calls: the counter of an operation
  is at least the number of handlers that still rely on its entry, and the counter of the current
  operation is the number of handlers that have arrived there.
\<close>

section \<open>Counting handlers\<close>

definition tally :: "('a \<Rightarrow> bool) \<Rightarrow> 'a list \<Rightarrow> int" where
  "tally P xs = (\<Sum>x\<leftarrow>xs. of_bool (P x))"

lemma tally_simps [simp]:
  "tally P [] = 0" "tally P (x # xs) = of_bool (P x) + tally P xs"
  "tally P (xs @ ys) = tally P xs + tally P ys"
  by (simp_all add: tally_def)

lemma tally_filter: "tally P xs = int (length (filter P xs))"
  by (induction xs) auto

lemma tally_nonneg [simp]: "0 \<le> tally P xs"
  by (simp add: tally_filter)

lemma tally_update:
  "t < length xs \<Longrightarrow> tally P (xs[t := x]) = tally P xs - of_bool (P (xs ! t)) + of_bool (P x)"
  by (induction xs arbitrary: t) (auto simp: nth_Cons split: nat.splits)

lemma tally_member: "t < length xs \<Longrightarrow> P (xs ! t) \<Longrightarrow> 1 \<le> tally P xs"
  using tally_update [of t xs P "xs ! t"] tally_nonneg [of P "take t xs"]
  by (subst id_take_nth_drop [of t xs]) (auto simp: add_increasing add_increasing2)

lemma tally_zero: "tally P xs = 0 \<longleftrightarrow> (\<forall>x \<in> set xs. \<not> P x)"
  by (simp add: tally_filter filter_empty_conv)

lemma tally_mono: "(\<And>x. x \<in> set xs \<Longrightarrow> P x \<Longrightarrow> Q x) \<Longrightarrow> tally P xs \<le> tally Q xs"
  by (induction xs) (auto simp: of_bool_def)

section \<open>The invariant\<close>

text \<open>Handlers of \<open>Barrier\<close> and \<open>RdmaSession\<close>.\<close>

fun rendezvous :: "rpc \<Rightarrow> bool" where
  "rendezvous (Broadcast_rpc r) = False"
| "rendezvous _ = True"

text \<open>The state of the controller alone.\<close>

definition ctl_inv :: "controller \<Rightarrow> bool" where
  "ctl_inv C \<longleftrightarrow>
     dom (barrier_events C) = dom (barrier_ctrs C) \<and>
     (\<forall>k e. barrier_events C k = Some e \<longrightarrow> e = BarrierEvent k) \<and>
     (\<forall>k. BarrierEvent k \<in> set_events C \<longleftrightarrow> k < barrier_op_id C) \<and>
     length (bcast_values C) = length (bcast_bitmap C) \<and>
     length (bcast_events C) = length (bcast_bitmap C) \<and>
     (\<forall>e \<in> set (bcast_events C). \<exists>k. e = BcastEvent k)"

text \<open>One handler: its locals, and that its session is known once it has arrived.\<close>

definition arrived_ok :: "controller \<Rightarrow> thread \<Rightarrow> bool" where
  "arrived_ok C th \<longleftrightarrow>
     (\<exists>k \<le> barrier_op_id C. th_op th = Some k \<and> th_event th = Some (BarrierEvent k) \<and>
        (th_pc th = P_leave \<longrightarrow> k < barrier_op_id C) \<and>
        (\<forall>e. th_pc th = P_wait e \<longrightarrow> e = BarrierEvent k)) \<and>
     (\<forall>r. th_rpc th = RdmaSession_rpc r \<longrightarrow> sessions C (rq_session_id r) \<noteq> None)"

definition thread_ok :: "controller \<Rightarrow> thread \<Rightarrow> bool" where
  "thread_ok C th \<longleftrightarrow>
     (if rendezvous (th_rpc th) then
        (if th_pc th = P_queued then th_op th = None else arrived_ok C th) \<and>
        (\<forall>e. th_pc th = P_failed e \<longrightarrow> e \<noteq> KeyError \<and> (\<forall>r. th_rpc th \<noteq> Barrier_rpc r))
      else th_op th = None \<and> th_pc th \<noteq> P_check \<and> (\<forall>e. th_pc th = P_failed e \<longrightarrow> e = IndexError))"

text \<open>Handlers of operation \<open>k\<close>, and those of them that will read its counter again.\<close>

definition in_op :: "nat \<Rightarrow> thread \<Rightarrow> bool" where
  "in_op k th \<longleftrightarrow> th_op th = Some k"

definition relies_on :: "nat \<Rightarrow> thread \<Rightarrow> bool" where
  "relies_on k th \<longleftrightarrow> th_op th = Some k \<and>
     (case th_pc th of P_check \<Rightarrow> True | P_wait e \<Rightarrow> True | P_leave \<Rightarrow> True | _ \<Rightarrow> False)"

definition ctr :: "controller \<Rightarrow> nat \<Rightarrow> int" where
  "ctr C k = (case barrier_ctrs C k of None \<Rightarrow> 0 | Some c \<Rightarrow> c)"

definition counts_ok :: "controller \<Rightarrow> thread list \<Rightarrow> bool" where
  "counts_ok C ts \<longleftrightarrow>
     (\<forall>k. tally (relies_on k) ts \<le> ctr C k) \<and>
     barrier_ctrs C (barrier_op_id C) = Some (tally (in_op (barrier_op_id C)) ts)"

definition server_inv :: "server \<Rightarrow> bool" where
  "server_inv S \<longleftrightarrow> ctl_inv (ctl S) \<and> (\<forall>th \<in> set (threads S). thread_ok (ctl S) th) \<and>
     counts_ok (ctl S) (threads S)"

lemma inv_new: "server_inv new_server"
  by (simp add: server_inv_def new_server_def new_controller_def ctl_inv_def counts_ok_def ctr_def)

section \<open>The operations of the controller\<close>

text \<open>The controller changes in a way that the invariant of the other handlers survives.\<close>

definition extends :: "controller \<Rightarrow> controller \<Rightarrow> bool" where
  "extends C C' \<longleftrightarrow> barrier_op_id C \<le> barrier_op_id C' \<and> dom (sessions C) \<subseteq> dom (sessions C')"

lemma thread_ok_extends: "thread_ok C th \<Longrightarrow> extends C C' \<Longrightarrow> thread_ok C' th"
  unfolding thread_ok_def arrived_ok_def extends_def
  by (auto split: if_splits)

text \<open>A step of \<open>Broadcast\<close> leaves the barrier part and the sessions alone.\<close>

definition benign :: "controller \<Rightarrow> controller \<Rightarrow> bool" where
  "benign C C' \<longleftrightarrow> barrier_op_id C' = barrier_op_id C \<and> barrier_ctrs C' = barrier_ctrs C \<and>
     barrier_events C' = barrier_events C \<and> sessions C' = sessions C \<and> ctl_inv C'"

text \<open>What an arrival does to the controller, when it does not fail.\<close>

definition arrive :: "nat \<Rightarrow> controller \<Rightarrow> controller" where
  "arrive n C =
     (let op = barrier_op_id C; c = ctr C op + 1;
          C = C\<lparr>barrier_ctrs := (barrier_ctrs C)(op \<mapsto> c)\<rparr>
      in if c < int n then C
         else C\<lparr>set_events := insert (BarrierEvent op) (set_events C), barrier_op_id := op + 1,
                barrier_ctrs := (barrier_ctrs C)(op + 1 \<mapsto> 0),
                barrier_events := (barrier_events C)(op + 1 \<mapsto> BarrierEvent (op + 1))\<rparr>)"

lemma current_op:
  assumes "ctl_inv C" and "barrier_op_id C \<in> dom (barrier_ctrs C)"
  obtains c where "barrier_ctrs C (barrier_op_id C) = Some c" "ctr C (barrier_op_id C) = c"
    "barrier_events C (barrier_op_id C) = Some (BarrierEvent (barrier_op_id C))"
proof -
  obtain c where c: "barrier_ctrs C (barrier_op_id C) = Some c" using assms(2) by blast
  obtain e where e: "barrier_events C (barrier_op_id C) = Some e"
    using assms c unfolding ctl_inv_def by blast
  moreover have "e = BarrierEvent (barrier_op_id C)" using assms(1) e unfolding ctl_inv_def by blast
  ultimately show ?thesis using c that by (simp add: ctr_def)
qed

lemma Barrier_enter_arrive:
  assumes "ctl_inv C" and "barrier_op_id C \<in> dom (barrier_ctrs C)"
  shows "Barrier_enter r C =
    (Inr (barrier_op_id C, BarrierEvent (barrier_op_id C)), arrive (unat (ba_num_workers r)) C)"
  by (rule current_op [OF assms])
    (simp add: Barrier_enter_def count_arrival_def release_or_join_def arrive_def py_defs Let_def)

lemma add_to_session_barrier [simp]:
  "barrier_op_id (add_to_session r C) = barrier_op_id C"
  "barrier_ctrs (add_to_session r C) = barrier_ctrs C"
  "barrier_events (add_to_session r C) = barrier_events C"
  "set_events (add_to_session r C) = set_events C"
  "bcast_values (add_to_session r C) = bcast_values C"
  "bcast_bitmap (add_to_session r C) = bcast_bitmap C"
  "bcast_events (add_to_session r C) = bcast_events C"
  "ctr (add_to_session r C) = ctr C"
  "add_to_session r (C\<lparr>barrier_ctrs := v\<rparr>) = (add_to_session r C)\<lparr>barrier_ctrs := v\<rparr>"
  by (simp_all add: add_to_session_def ctr_def fun_eq_iff Let_def)

lemma RdmaSession_enter_arrive:
  assumes "ctl_inv C" and "barrier_op_id C \<in> dom (barrier_ctrs C)"
  shows "RdmaSession_enter r C =
    (Inr (barrier_op_id C, BarrierEvent (barrier_op_id C)),
     arrive (unat (rq_num_workers r)) (add_to_session r C))"
  by (rule current_op [OF assms])
    (simp add: RdmaSession_enter_def count_arrival_def release_or_join_def arrive_def py_defs Let_def)

lemma ctl_inv_arrive:
  assumes "ctl_inv C" and "barrier_op_id C \<in> dom (barrier_ctrs C)"
  shows "ctl_inv (arrive n C)"
  using assms by (auto simp: ctl_inv_def arrive_def Let_def less_Suc_eq split: if_splits)

lemma ctl_inv_session [simp]: "ctl_inv (add_to_session r C) = ctl_inv C"
  by (simp add: ctl_inv_def)

lemma extends_arrive: "extends C (arrive n C)"
  by (simp add: extends_def arrive_def Let_def)

lemma extends_session: "extends C (add_to_session r C)"
  by (auto simp: extends_def add_to_session_def Let_def)

lemma extends_trans: "extends C C' \<Longrightarrow> extends C' C'' \<Longrightarrow> extends C C''"
  by (auto simp: extends_def)

lemma leave_ok:
  assumes "ctl_inv C" and "barrier_ctrs C k = Some c"
  shows "leave_barrier k C =
    (Inr (), if c - 1 = 0
             then C\<lparr>barrier_ctrs := (barrier_ctrs C)(k := None), barrier_events := (barrier_events C)(k := None)\<rparr>
             else C\<lparr>barrier_ctrs := (barrier_ctrs C)(k \<mapsto> c - 1)\<rparr>)"
proof -
  obtain e where "barrier_events C k = Some e" using assms unfolding ctl_inv_def by blast
  then show ?thesis using assms(2) by (simp add: leave_barrier_def py_defs)
qed

section \<open>Broadcast\<close>

lemma benign_refl: "ctl_inv C \<Longrightarrow> benign C C"
  by (simp add: benign_def)

lemma benign_trans: "benign C C' \<Longrightarrow> benign C' C'' \<Longrightarrow> benign C C''"
  by (simp add: benign_def)

lemma benign_extends: "benign C C' \<Longrightarrow> extends C C'"
  by (simp add: benign_def extends_def)

lemma set_py_delete_at: "set (py_delete_at i xs) \<subseteq> set xs"
  unfolding py_delete_at_def by (auto dest: in_set_takeD in_set_dropD)

lemma length_py_delete_at:
  "length xs = length ys \<Longrightarrow> length (py_delete_at i xs) = length (py_delete_at i ys)"
  by (simp add: py_delete_at_def)

lemma benign_cleanup_at: "ctl_inv C \<Longrightarrow> benign C (cleanup_at i C)"
  using set_py_delete_at [of i "bcast_events C"]
  by (auto simp: benign_def cleanup_at_def ctl_inv_def intro!: length_py_delete_at)

lemma benign_cleanup: "ctl_inv C \<Longrightarrow> benign C (cleanup C)"
proof -
  have "benign C (fold cleanup_at is C)" if "ctl_inv C" for "is"
    using that
  proof (induction "is" arbitrary: C)
    case (Cons i "is")
    then show ?case
      using benign_cleanup_at [of C i] Cons.IH [of "cleanup_at i C"] by (simp add: benign_def)
  qed (simp add: benign_refl)
  then show "ctl_inv C \<Longrightarrow> benign C (cleanup C)" by (simp add: cleanup_def)
qed

lemma find_operation_spec:
  "find_operation rank rows i C = (res, C') \<Longrightarrow>
   C' = C \<and> (\<forall>j. res = Inr (Some j) \<longrightarrow> i \<le> j \<and> j < i + length rows \<and> \<not> rows ! (j - i) ! rank) \<and>
   (\<forall>e. res = Inl e \<longrightarrow> e = IndexError)"
proof (induction rows arbitrary: i)
  case (Cons bits rows)
  consider "rank < length bits" "bits ! rank" | "rank < length bits" "\<not> bits ! rank"
    | "\<not> rank < length bits" by blast
  then show ?case
  proof cases
    case 1
    then have "find_operation rank rows (i + 1) C = (res, C')" using Cons.prems by (simp add: py_defs)
    note ih = Cons.IH [OF this]
    have "i \<le> j \<and> j < i + length (bits # rows) \<and> \<not> (bits # rows) ! (j - i) ! rank"
      if "res = Inr (Some j)" for j
    proof -
      have "j - i = Suc (j - (i + 1))" using ih that by auto
      then show ?thesis using ih that by auto
    qed
    with ih show ?thesis by blast
  qed (use Cons.prems in \<open>auto simp: py_defs\<close>)
qed (auto simp: py_defs)

lemma mark_spec:
  "ctl_inv C \<Longrightarrow> mark idx rank C = (res, C') \<Longrightarrow> benign C C' \<and> (\<forall>e. res = Inl e \<longrightarrow> e = IndexError)"
  by (simp add: mark_def py_defs split: if_splits) (clarsimp simp: benign_def ctl_inv_def)+

lemma benign_append_operation: "ctl_inv C \<Longrightarrow> benign C (append_operation n C)"
  by (auto simp: benign_def ctl_inv_def append_operation_def)

lemma benign_root:
  assumes "ctl_inv C" and "idx < length (bcast_events C)"
  shows "benign C (C\<lparr>bcast_values := (bcast_values C)[idx := v],
     set_events := insert (bcast_events C ! idx) (set_events C)\<rparr>)"
proof -
  obtain m where "bcast_events C ! idx = BcastEvent m"
    using assms nth_mem unfolding ctl_inv_def by blast
  then show ?thesis using assms(1) by (simp add: benign_def ctl_inv_def)
qed

text \<open>The critical section of \<open>Broadcast\<close> after the search.\<close>

definition bcast_handle :: "BroadcastRequest \<Rightarrow> nat \<Rightarrow> (nat \<times> pyevent option) py" where
  "bcast_handle request idx = (\<lambda>C.
     if bc_rank request = bc_root request then
       py_bind (py_modify (\<lambda>C. C\<lparr>bcast_values := (bcast_values C)[idx := Some (bc_value request)],
           set_events := insert (bcast_events C ! idx) (set_events C)\<rparr>)) (\<lambda>_.
       py_bind (mark idx (unat (bc_rank request))) (\<lambda>_.
       py_return (idx, None))) C
     else if bcast_values C ! idx = None then py_return (idx, Some (bcast_events C ! idx)) C
     else py_bind (mark idx (unat (bc_rank request))) (\<lambda>_. py_return (idx, None)) C)"

lemma bcast_handle_spec:
  assumes "ctl_inv C" and "idx < length (bcast_events C)" and "bcast_handle r idx C = (res, C')"
  shows "benign C C' \<and> (\<forall>e. res = Inl e \<longrightarrow> e = IndexError)"
proof -
  have m: "benign D D' \<and> (\<forall>e. res' = Inl e \<longrightarrow> e = IndexError)"
    if "benign C D" "mark idx rank D = (res', D')" for D D' res' rank
    using mark_spec [OF _ that(2)] that(1) benign_def by blast
  show ?thesis
  proof (cases "bc_rank r = bc_root r")
    case True
    let ?D = "C\<lparr>bcast_values := (bcast_values C)[idx := Some (bc_value r)],
       set_events := insert (bcast_events C ! idx) (set_events C)\<rparr>"
    obtain res' D' where "mark idx (unat (bc_rank r)) ?D = (res', D')" by fastforce
    then show ?thesis
      using True assms(3) m [OF benign_root [OF assms(1,2)]] benign_root [OF assms(1,2)]
      by (fastforce simp: bcast_handle_def py_bind_def py_modify_def py_return_def
          split: sum.splits elim: benign_trans)
  next
    case False
    obtain res' D' where "mark idx (unat (bc_rank r)) C = (res', D')" by fastforce
    then show ?thesis
      using False assms(3) m [OF benign_refl [OF assms(1)]] benign_refl [OF assms(1)]
      by (fastforce simp: bcast_handle_def py_bind_def py_return_def split: sum.splits if_splits)
  qed
qed

lemma Broadcast_enter_handle:
  "Broadcast_enter r C =
     (case find_operation (unat (bc_rank r)) (bcast_bitmap (cleanup C)) 0 (cleanup C) of
        (Inl e, D) \<Rightarrow> (Inl e, D)
      | (Inr (Some i), D) \<Rightarrow> bcast_handle r i D
      | (Inr None, D) \<Rightarrow> bcast_handle r (length (bcast_bitmap (cleanup C)))
          (append_operation (unat (bc_num_workers r)) D))"
  by (simp add: Broadcast_enter_def bcast_handle_def py_bind_def py_modify_def py_return_def Let_def
      split: prod.split sum.split option.split)

lemma Broadcast_enter_spec:
  assumes "ctl_inv C" and "Broadcast_enter r C = (res, C')"
  shows "benign C C' \<and> (\<forall>e. res = Inl e \<longrightarrow> e = IndexError)"
proof -
  let ?C = "cleanup C"
  have c: "benign C ?C" "ctl_inv ?C" using benign_cleanup [OF assms(1)] by (simp_all add: benign_def)
  obtain fr D where f: "find_operation (unat (bc_rank r)) (bcast_bitmap ?C) 0 ?C = (fr, D)" by fastforce
  note fs = find_operation_spec [OF f]
  have len: "length (bcast_events ?C) = length (bcast_bitmap ?C)" using c(2) by (simp add: ctl_inv_def)
  consider e where "fr = Inl e" | i where "fr = Inr (Some i)" | "fr = Inr None"
    by (metis old.sum.exhaust option.exhaust)
  then show ?thesis
  proof cases
    case 1
    then show ?thesis using assms(2) f fs c by (auto simp: Broadcast_enter_handle)
  next
    case (2 i)
    then have "bcast_handle r i ?C = (res, C')" "i < length (bcast_events ?C)"
      using assms(2) f fs len by (auto simp: Broadcast_enter_handle)
    from bcast_handle_spec [OF c(2) this(2,1)] c(1) show ?thesis by (blast intro: benign_trans)
  next
    case 3
    let ?A = "append_operation (unat (bc_num_workers r)) ?C"
    have a: "benign ?C ?A" "ctl_inv ?A"
      using benign_append_operation [OF c(2)] by (auto simp: benign_def)
    have "bcast_handle r (length (bcast_bitmap ?C)) ?A = (res, C')"
      "length (bcast_bitmap ?C) < length (bcast_events ?A)"
      using assms(2) f fs len 3 by (auto simp: Broadcast_enter_handle append_operation_def)
    from bcast_handle_spec [OF a(2) this(2,1)] a(1) c(1) show ?thesis by (blast intro: benign_trans)
  qed
qed

section \<open>The steps of a handler\<close>

lemma after_cases:
  "after p k th = (th', C') \<Longrightarrow>
   (\<exists>e. p = (Inl e, C') \<and> th' = th\<lparr>th_pc := P_failed e\<rparr>) \<or> (\<exists>x. p = (Inr x, C') \<and> th' = k x)"
  by (cases "(p, k, th)" rule: after.cases) auto

lemma broadcast_step:
  assumes "thread_step th C = Some (th', C')" and "\<not> rendezvous (th_rpc th)"
    and "thread_ok C th" and "ctl_inv C"
  shows "benign C C' \<and> thread_ok C' th' \<and> th_rpc th' = th_rpc th"
proof -
  obtain r where r: "th_rpc th = Broadcast_rpc r" using assms(2) by (cases "th_rpc th") auto
  have enter: "benign C D \<and> (\<forall>e. res = Inl e \<longrightarrow> e = IndexError)"
    if "Broadcast_enter r C = (res, D)" for res D
    using Broadcast_enter_spec [OF assms(4) that] .
  have mk: "benign C D \<and> (\<forall>e. res = Inl e \<longrightarrow> e = IndexError)"
    if "mark idx rank C = (res, D)" for res D idx rank
    using mark_spec [OF assms(4) that] .
  have rep: "D = C \<and> (\<forall>e. res = Inl e \<longrightarrow> e = IndexError)" if "Broadcast_reply idx C = (res, D)" for res D idx
    using that by (auto simp: Broadcast_reply_def py_defs split: if_splits)
  have ok: "th_op th = None" using assms(2,3) by (simp add: thread_ok_def)
  have fin: "benign C C' \<and> thread_ok C' th' \<and> th_rpc th' = th_rpc th"
    if "after (res, D) k th = (th', C')" "benign C D \<and> (\<forall>e. res = Inl e \<longrightarrow> e = IndexError)"
      "\<And>x. th_rpc (k x) = th_rpc th \<and> th_op (k x) = None \<and> th_pc (k x) \<noteq> P_check \<and>
         (\<forall>e. th_pc (k x) \<noteq> P_failed e)"
    for res D and k :: "'x \<Rightarrow> thread"
    using that assms(2) ok by (cases res) (auto simp: thread_ok_def)
  show ?thesis
  proof (cases "th_pc th")
    case P_queued
    obtain res D where e: "Broadcast_enter r C = (res, D)" by fastforce
    then have "after (res, D) (\<lambda>(idx, ev). th\<lparr>th_idx := Some idx, th_event := ev,
        th_pc := (case ev of None \<Rightarrow> P_reply | Some e \<Rightarrow> P_wait e)\<rparr>) th = (th', C')"
      using assms(1) r P_queued by simp
    from fin [OF this enter [OF e]] ok show ?thesis by (auto split: option.splits)
  next
    case P_leave
    obtain res D where e: "mark (the (th_idx th)) (unat (bc_rank r)) C = (res, D)" by fastforce
    then have "after (res, D) (\<lambda>_. th\<lparr>th_pc := P_reply\<rparr>) th = (th', C')"
      using assms(1) r P_leave by simp
    from fin [OF this mk [OF e]] ok show ?thesis by simp
  next
    case P_reply
    obtain res D where e: "Broadcast_reply (the (th_idx th)) C = (res, D)" by fastforce
    then have "after (res, D) (\<lambda>x. th\<lparr>th_pc := P_done (Broadcast_response x)\<rparr>) th = (th', C')"
      using assms(1) r P_reply by simp
    from fin [OF this] rep [OF e] benign_refl [OF assms(4)] ok show ?thesis by simp
  qed (use assms ok benign_refl [OF assms(4)] in \<open>auto simp: thread_ok_def split: if_splits\<close>)
qed

lemma rendezvous_step:
  assumes "thread_step th C = Some (th', C')" and "rendezvous (th_rpc th)"
    and "thread_ok C th" and "ctl_inv C" and "barrier_op_id C \<in> dom (barrier_ctrs C)"
    and "\<forall>k. relies_on k th \<longrightarrow> 1 \<le> ctr C k"
  shows "th_rpc th' = th_rpc th"
    and "th_pc th = P_queued \<and> th' = th\<lparr>th_op := Some (barrier_op_id C),
        th_event := Some (BarrierEvent (barrier_op_id C)), th_pc := P_check\<rparr> \<and>
        C' = arrive (num_workers (th_rpc th))
          (case th_rpc th of RdmaSession_rpc r \<Rightarrow> add_to_session r C | _ \<Rightarrow> C) \<or>
      (\<exists>k c. th_pc th = P_leave \<and> th_op th = Some k \<and> barrier_ctrs C k = Some c \<and>
        leave_barrier k C = (Inr (), C') \<and> th' = th\<lparr>th_pc := P_reply\<rparr>) \<or>
      C' = C \<and> th_pc th \<noteq> P_queued \<and> thread_ok C th' \<and> th_op th' = th_op th \<and>
        (\<forall>k. relies_on k th' \<longrightarrow> relies_on k th)" (is ?cases)
proof -
  show rpc: "th_rpc th' = th_rpc th"
    using assms(1,2)
    by (cases "th_rpc th") (auto split: pc.splits if_splits dest!: after_cases)
  consider "th_pc th = P_queued" | "th_pc th = P_leave"
    | "th_pc th \<noteq> P_queued" "th_pc th \<noteq> P_leave" by blast
  then show ?cases
  proof cases
    case 1
    then show ?thesis
      using assms Barrier_enter_arrive [OF assms(4,5)] RdmaSession_enter_arrive [OF assms(4,5)]
      by (cases "th_rpc th") auto
  next
    case 2
    then obtain k where k: "th_op th = Some k" using assms(2,3) by (auto simp: thread_ok_def arrived_ok_def)
    then have "1 \<le> ctr C k" using 2 assms(6) by (simp add: relies_on_def)
    then obtain c where c: "barrier_ctrs C k = Some c" by (auto simp: ctr_def split: option.splits)
    then show ?thesis
      using assms(1,2) 2 k leave_ok [OF assms(4) c] by (cases "th_rpc th") auto
  next
    case 3
    then obtain k where k: "k \<le> barrier_op_id C" "th_op th = Some k" "th_event th = Some (BarrierEvent k)"
        "\<forall>r. th_rpc th = RdmaSession_rpc r \<longrightarrow> sessions C (rq_session_id r) \<noteq> None"
        "\<forall>e. th_pc th = P_wait e \<longrightarrow> e = BarrierEvent k"
      using assms(2,3) by (auto simp: thread_ok_def arrived_ok_def)
    have chk: "C' = C \<and> (\<exists>w. th' = th\<lparr>th_pc := if w then P_wait (BarrierEvent k) else P_reply\<rparr>)"
      if "th_pc th = P_check"
    proof -
      note pc = that
      obtain c where "barrier_ctrs C k = Some c"
        using pc spec [OF assms(6), of k] k(2) by (auto simp: relies_on_def ctr_def split: option.splits)
      then have "must_wait (num_workers (th_rpc th)) k C = (Inr (c < int (num_workers (th_rpc th))), C)"
        by (simp add: must_wait_def py_defs)
      then have "after (Inr (c < int (num_workers (th_rpc th))), C)
          (\<lambda>w. th\<lparr>th_pc := (if w then P_wait (BarrierEvent k) else P_reply)\<rparr>) th = (th', C')"
        using assms(1) pc k(2,3) by (cases "c < int (num_workers (th_rpc th))") simp_all
      then show ?thesis by (metis after.simps(2) prod.inject)
    qed
    have wait: "C' = C \<and> th' = th\<lparr>th_pc := P_leave\<rparr> \<and> k < barrier_op_id C" if "th_pc th = P_wait e" for e
      using that assms(1,4) k by (auto simp: ctl_inv_def split: if_splits)
    have reply: "C' = C \<and> th_op th' = th_op th \<and> th_event th' = th_event th \<and>
        ((\<exists>x. th_pc th' = P_done x) \<or>
         (\<exists>e r. th_pc th' = P_failed e \<and> e \<noteq> KeyError \<and> th_rpc th = RdmaSession_rpc r))"
      if "th_pc th = P_reply"
      using that assms(1,2) k(4)
      by (cases "th_rpc th")
        (auto simp: RdmaSession_reply_def py_defs split: if_splits option.splits prod.splits)
    show ?thesis
    proof (cases "th_pc th")
      case P_check
      with chk k assms(2) show ?thesis
        by (auto simp: thread_ok_def arrived_ok_def relies_on_def split: if_splits)
    next
      case (P_wait e)
      with wait [of e] k assms(2) show ?thesis
        by (auto simp: thread_ok_def arrived_ok_def relies_on_def)
    next
      case P_reply
      with reply k assms(2) rpc show ?thesis
        by (auto simp: thread_ok_def arrived_ok_def relies_on_def)
    qed (use assms(1) 3 in auto)
  qed
qed

section \<open>The invariant is kept\<close>

lemma counts_new_op:
  assumes "\<forall>th \<in> set ts. thread_ok C th" and "barrier_op_id C < k"
  shows "tally (in_op k) ts = 0" and "tally (relies_on k) ts = 0"
proof -
  have "th_op th \<noteq> Some k" if "th \<in> set ts" for th
    using assms that by (fastforce simp: thread_ok_def arrived_ok_def split: if_splits)
  then show "tally (in_op k) ts = 0" "tally (relies_on k) ts = 0"
    by (auto simp: tally_zero in_op_def relies_on_def)
qed

lemma counts_arrive:
  assumes "counts_ok C ts" and "\<forall>th \<in> set ts. thread_ok C th" and "t < length ts"
    and "th_op (ts ! t) = None" and "th_op th' = Some (barrier_op_id C)" and "th_pc th' = P_check"
  shows "counts_ok (arrive n C) (ts[t := th'])"
proof -
  let ?op = "barrier_op_id C"
  have c: "barrier_ctrs C ?op = Some (tally (in_op ?op) ts)"
    and le: "tally (relies_on k) ts \<le> ctr C k" for k
    using assms(1) by (simp_all add: counts_ok_def)
  have r: "tally (relies_on k) (ts[t := th']) = tally (relies_on k) ts + of_bool (k = ?op)"
    and i: "tally (in_op k) (ts[t := th']) = tally (in_op k) ts + of_bool (k = ?op)" for k
    using assms(3-6) by (auto simp: tally_update relies_on_def in_op_def)
  note new = counts_new_op [OF assms(2), of "?op + 1"]
  have "ctr (arrive n C) k = (if k = ?op then ctr C k + 1
      else if k = ?op + 1 \<and> int n \<le> ctr C ?op + 1 then 0 else ctr C k)" for k
    by (simp add: arrive_def ctr_def Let_def)
  then have "tally (relies_on k) (ts[t := th']) \<le> ctr (arrive n C) k" for k
    using le [of k] new by (auto simp: r)
  moreover have "barrier_ctrs (arrive n C) (barrier_op_id (arrive n C)) =
      Some (tally (in_op (barrier_op_id (arrive n C))) (ts[t := th']))"
    using c new by (simp add: arrive_def i ctr_def Let_def)
  ultimately show ?thesis by (simp add: counts_ok_def)
qed

lemma counts_leave:
  assumes "counts_ok C ts" and "ctl_inv C" and "t < length ts" and "thread_ok C (ts ! t)"
    and "th_pc (ts ! t) = P_leave" and "th_op (ts ! t) = Some k" and "barrier_ctrs C k = Some c"
    and "leave_barrier k C = (Inr (), C')" and "k < barrier_op_id C"
  shows "counts_ok C' (ts[t := (ts ! t)\<lparr>th_pc := P_reply\<rparr>])" and "ctl_inv C'"
    and "barrier_op_id C' = barrier_op_id C" and "sessions C' = sessions C"
proof -
  let ?ts = "ts[t := (ts ! t)\<lparr>th_pc := P_reply\<rparr>]"
  have C': "C' = (if c - 1 = 0
      then C\<lparr>barrier_ctrs := (barrier_ctrs C)(k := None), barrier_events := (barrier_events C)(k := None)\<rparr>
      else C\<lparr>barrier_ctrs := (barrier_ctrs C)(k \<mapsto> c - 1)\<rparr>)"
    using assms(8) leave_ok [OF assms(2,7)] by simp
  then show "barrier_op_id C' = barrier_op_id C" "sessions C' = sessions C" by simp_all
  show "ctl_inv C'"
    using assms(2,7) unfolding C' by (auto simp: ctl_inv_def dom_def split: if_splits)
  have "tally (relies_on j) ?ts = tally (relies_on j) ts - of_bool (j = k)"
    and i: "tally (in_op j) ?ts = tally (in_op j) ts" for j
    using assms(3,5,6) by (auto simp: tally_update relies_on_def in_op_def)
  moreover have "ctr C' j = ctr C j - of_bool (j = k)" for j
    using assms(7) by (auto simp: C' ctr_def)
  ultimately have "tally (relies_on j) ?ts \<le> ctr C' j" for j
    using assms(1) by (simp add: counts_ok_def)
  then show "counts_ok C' ?ts"
    using assms(1,9) i by (auto simp: counts_ok_def C')
qed

text \<open>The effect of a handler's step on its locals and on the controller.\<close>

inductive effect :: "server \<Rightarrow> thread \<Rightarrow> thread \<Rightarrow> controller \<Rightarrow> bool" for S th where
  broadcast: "\<not> rendezvous (th_rpc th) \<Longrightarrow> th_op th = None \<Longrightarrow> benign (ctl S) C' \<Longrightarrow>
    thread_ok C' th' \<Longrightarrow> th_op th' = None \<Longrightarrow> effect S th th' C'"
| arrive: "rendezvous (th_rpc th) \<Longrightarrow> th_op th = None \<Longrightarrow> th_pc th = P_queued \<Longrightarrow>
    th' = th\<lparr>th_op := Some (barrier_op_id (ctl S)),
      th_event := Some (BarrierEvent (barrier_op_id (ctl S))), th_pc := P_check\<rparr> \<Longrightarrow>
    C' = arrive (num_workers (th_rpc th))
      (case th_rpc th of RdmaSession_rpc r \<Rightarrow> add_to_session r (ctl S) | _ \<Rightarrow> ctl S) \<Longrightarrow>
    effect S th th' C'"
| leave: "rendezvous (th_rpc th) \<Longrightarrow> th_op th = Some k \<Longrightarrow> th_pc th = P_leave \<Longrightarrow>
    k < barrier_op_id (ctl S) \<Longrightarrow> barrier_ctrs (ctl S) k = Some c \<Longrightarrow>
    leave_barrier k (ctl S) = (Inr (), C') \<Longrightarrow> th' = th\<lparr>th_pc := P_reply\<rparr> \<Longrightarrow> effect S th th' C'"
| silent: "rendezvous (th_rpc th) \<Longrightarrow> th_pc th \<noteq> P_queued \<Longrightarrow> C' = ctl S \<Longrightarrow>
    thread_ok (ctl S) th' \<Longrightarrow> th_op th' = th_op th \<Longrightarrow>
    (\<And>k. relies_on k th' \<Longrightarrow> relies_on k th) \<Longrightarrow> effect S th th' C'"

lemma run_cases:
  assumes "server_inv S" and "serve (Run t) S = Some S'"
  obtains th' C' where "t < length (threads S)" "thread_ok (ctl S) (threads S ! t)"
    "thread_step (threads S ! t) (ctl S) = Some (th', C')" "th_rpc th' = th_rpc (threads S ! t)"
    "S' = S\<lparr>ctl := C', threads := (threads S)[t := th']\<rparr>" "effect S (threads S ! t) th' C'"
proof -
  let ?C = "ctl S" and ?ts = "threads S"
  obtain th' C' where st: "thread_step (?ts ! t) ?C = Some (th', C')"
      and S': "S' = S\<lparr>ctl := C', threads := ?ts[t := th']\<rparr>" and t: "t < length ?ts"
    using assms(2) by (auto simp: can_run_def split: if_splits)
  have inv: "ctl_inv ?C" "\<forall>th \<in> set ?ts. thread_ok ?C th" "counts_ok ?C ?ts"
    using assms(1) by (simp_all add: server_inv_def)
  then have ok: "thread_ok ?C (?ts ! t)" using t by simp
  have dom: "barrier_op_id ?C \<in> dom (barrier_ctrs ?C)" using inv(3) by (auto simp: counts_ok_def)
  show ?thesis
  proof (cases "rendezvous (th_rpc (?ts ! t))")
    case False
    from broadcast_step [OF st False ok inv(1)]
    have b: "benign ?C C'" "thread_ok C' th'" "th_rpc th' = th_rpc (?ts ! t)" by simp_all
    then have "th_op th' = None" "th_op (?ts ! t) = None" using ok False by (simp_all add: thread_ok_def)
    with b False show ?thesis by (intro that [OF t ok st b(3) S'] effect.broadcast)
  next
    case True
    have "1 \<le> ctr ?C k" if "relies_on k (?ts ! t)" for k
      using tally_member [of t ?ts "relies_on k"] t that inv(3) unfolding counts_ok_def
      by (meson order_trans)
    then have rel: "\<forall>k. relies_on k (?ts ! t) \<longrightarrow> 1 \<le> ctr ?C k" by blast
    have q: "th_op (?ts ! t) = None" if "th_pc (?ts ! t) = P_queued"
      using that ok True by (simp add: thread_ok_def)
    have l: "k < barrier_op_id ?C" if "th_pc (?ts ! t) = P_leave" "th_op (?ts ! t) = Some k" for k
      using that ok True by (auto simp: thread_ok_def arrived_ok_def)
    note rs = rendezvous_step [OF st True ok inv(1) dom rel]
    from rs(2) have "effect S (?ts ! t) th' C'"
    proof (elim disjE conjE exE)
      fix k c
      assume "th_pc (?ts ! t) = P_leave" "th_op (?ts ! t) = Some k" "barrier_ctrs ?C k = Some c"
        "leave_barrier k ?C = (Inr (), C')" "th' = (?ts ! t)\<lparr>th_pc := P_reply\<rparr>"
      then show ?thesis using True l by (intro effect.leave [of _ k S c])
    qed (use True q in \<open>auto intro: effect.arrive effect.silent\<close>)
    then show ?thesis by (intro that [OF t ok st rs(1) S'])
  qed
qed

lemma threads_ok_update:
  assumes "\<forall>th \<in> set ts. thread_ok C th" and "extends C C'" and "thread_ok C' th'"
  shows "\<forall>th \<in> set (ts[t := th']). thread_ok C' th"
  using assms thread_ok_extends set_update_subset_insert [of ts t th'] by fastforce

lemma inv_arrive:
  assumes "server_inv S" and "t < length (threads S)" and "rendezvous (th_rpc (threads S ! t))"
    and "th_op (threads S ! t) = None"
    and "th' = (threads S ! t)\<lparr>th_op := Some (barrier_op_id (ctl S)),
         th_event := Some (BarrierEvent (barrier_op_id (ctl S))), th_pc := P_check\<rparr>"
    and "C' = arrive (num_workers (th_rpc (threads S ! t)))
         (case th_rpc (threads S ! t) of RdmaSession_rpc r \<Rightarrow> add_to_session r (ctl S) | _ \<Rightarrow> ctl S)"
  shows "server_inv (S\<lparr>ctl := C', threads := (threads S)[t := th']\<rparr>)"
proof -
  let ?C = "ctl S" and ?ts = "threads S"
  let ?D = "case th_rpc (?ts ! t) of RdmaSession_rpc r \<Rightarrow> add_to_session r ?C | _ \<Rightarrow> ?C"
  have inv: "ctl_inv ?C" "\<forall>th \<in> set ?ts. thread_ok ?C th" "counts_ok ?C ?ts"
    using assms(1) by (simp_all add: server_inv_def)
  have D: "ctl_inv ?D" "extends ?C ?D" "barrier_op_id ?D = barrier_op_id ?C"
    "barrier_ctrs ?D = barrier_ctrs ?C" "ctr ?D = ctr ?C"
    using inv(1) extends_session by (auto simp: extends_def split: rpc.split)
  then have okD: "\<forall>th \<in> set ?ts. thread_ok ?D th" using inv(2) thread_ok_extends by blast
  have cD: "counts_ok ?D ?ts" using inv(3) D by (simp add: counts_ok_def)
  have dom: "barrier_op_id ?D \<in> dom (barrier_ctrs ?D)" using cD by (auto simp: counts_ok_def)
  have ext: "extends ?C C'" unfolding assms(6) using extends_trans [OF D(2) extends_arrive] .
  have sess: "sessions C' (rq_session_id r) \<noteq> None" if "th_rpc (?ts ! t) = RdmaSession_rpc r" for r
    using that by (auto simp: assms(6) arrive_def add_to_session_def Let_def)
  have "barrier_op_id ?C \<le> barrier_op_id C'" using ext by (simp add: extends_def)
  then have "thread_ok C' th'"
    using assms(3) sess assms(5) by (auto simp: thread_ok_def arrived_ok_def)
  moreover have "ctl_inv C'" unfolding assms(6) using ctl_inv_arrive [OF D(1) dom] .
  moreover have "counts_ok C' (?ts[t := th'])"
    unfolding assms(6) by (rule counts_arrive [OF cD okD assms(2,4)]) (simp_all add: assms(5) D)
  ultimately show ?thesis using threads_ok_update [OF inv(2) ext] by (simp add: server_inv_def)
qed

lemma inv_leave:
  assumes "server_inv S" and "t < length (threads S)" and "thread_ok (ctl S) (threads S ! t)"
    and "rendezvous (th_rpc (threads S ! t))"
    and "th_pc (threads S ! t) = P_leave" and "th_op (threads S ! t) = Some k" and "k < barrier_op_id (ctl S)"
    and "barrier_ctrs (ctl S) k = Some c" and "leave_barrier k (ctl S) = (Inr (), C')"
  shows "server_inv (S\<lparr>ctl := C', threads := (threads S)[t := (threads S ! t)\<lparr>th_pc := P_reply\<rparr>]\<rparr>)"
proof -
  have inv: "ctl_inv (ctl S)" "\<forall>th \<in> set (threads S). thread_ok (ctl S) th" "counts_ok (ctl S) (threads S)"
    using assms(1) by (simp_all add: server_inv_def)
  note l = counts_leave [OF inv(3,1) assms(2,3,5,6,8,9,7)]
  have ext: "extends (ctl S) C'" using l by (simp add: extends_def)
  have "thread_ok (ctl S) ((threads S ! t)\<lparr>th_pc := P_reply\<rparr>)"
    using assms(3-5) by (auto simp: thread_ok_def arrived_ok_def)
  then show ?thesis
    using l threads_ok_update [OF inv(2) ext thread_ok_extends [OF _ ext]] by (simp add: server_inv_def)
qed

lemma inv_silent:
  assumes "server_inv S" and "t < length (threads S)" and "thread_ok (ctl S) th'"
    and "th_op th' = th_op (threads S ! t)" and "\<And>k. relies_on k th' \<Longrightarrow> relies_on k (threads S ! t)"
  shows "server_inv (S\<lparr>threads := (threads S)[t := th']\<rparr>)"
proof -
  let ?C = "ctl S" and ?ts = "threads S"
  have eq: "tally (in_op k) (?ts[t := th']) = tally (in_op k) ?ts" for k
    using assms(2,4) by (simp add: tally_update in_op_def)
  have "tally (relies_on k) (?ts[t := th']) \<le> tally (relies_on k) ?ts" for k
    using assms(2) assms(5) [of k] by (auto simp: tally_update)
  then have "tally (relies_on k) (?ts[t := th']) \<le> ctr ?C k" for k
    using assms(1) unfolding server_inv_def counts_ok_def by (meson order_trans)
  then show ?thesis
    using assms(1) eq threads_ok_update [of ?ts ?C ?C th' t] assms(3)
    by (simp add: server_inv_def counts_ok_def extends_def)
qed

lemma inv_broadcast:
  assumes "server_inv S" and "t < length (threads S)" and "benign (ctl S) C'" and "thread_ok C' th'"
    and "th_op th' = None" and "th_op (threads S ! t) = None"
  shows "server_inv (S\<lparr>ctl := C', threads := (threads S)[t := th']\<rparr>)"
proof -
  have eq: "tally (relies_on k) ((threads S)[t := th']) = tally (relies_on k) (threads S)"
    "tally (in_op k) ((threads S)[t := th']) = tally (in_op k) (threads S)" for k
    using assms(2,5,6) by (simp_all add: tally_update relies_on_def in_op_def)
  have "\<forall>th \<in> set ((threads S)[t := th']). thread_ok C' th"
    by (rule threads_ok_update [OF _ benign_extends [OF assms(3)] assms(4)])
      (use assms(1) in \<open>simp add: server_inv_def\<close>)
  moreover have "counts_ok C' ((threads S)[t := th'])"
    using assms(1,3) by (simp add: server_inv_def counts_ok_def eq benign_def ctr_def)
  ultimately show ?thesis using assms(3) by (simp add: server_inv_def benign_def)
qed

lemma inv_step:
  assumes "server_inv S" and "serve a S = Some S'"
  shows "server_inv S'"
proof (cases a)
  case (Call r)
  have "thread_ok (ctl S) (new_thread r)"
    by (simp add: thread_ok_def new_thread_def)
  with Call assms show ?thesis
    by (auto simp: server_inv_def counts_ok_def in_op_def relies_on_def new_thread_def)
next
  case (Run t)
  from run_cases [OF assms(1) assms(2) [unfolded Run]] obtain th' C' where
    t: "t < length (threads S)" and ok: "thread_ok (ctl S) (threads S ! t)"
    and S': "S' = S\<lparr>ctl := C', threads := (threads S)[t := th']\<rparr>"
    and e: "effect S (threads S ! t) th' C'" by metis
  from e show ?thesis
  proof cases
    case broadcast
    then show ?thesis unfolding S' by (intro inv_broadcast [OF assms(1) t])
  next
    case arrive
    then show ?thesis unfolding S' by (intro inv_arrive [OF assms(1) t])
  next
    case (leave k c)
    then show ?thesis unfolding S' leave(7) by (intro inv_leave [OF assms(1) t ok])
  next
    case silent
    then show ?thesis unfolding S' using inv_silent [OF assms(1) t] by simp
  qed
qed

lemma inv_served: "served S \<Longrightarrow> server_inv S"
  by (induction rule: served.induct) (auto simp: inv_new elim: inv_step)

end
