(* ===== verification/Controller_Rounds.thy ===== *)
theory Controller_Rounds
  imports Controller_Barrier
begin

text \<open>
  Rendezvous calls that all name the same number \<open>n\<close> of workers: the operations are rounds of
  exactly \<open>n\<close> calls, and no call gets past a round before it is full. With \<open>n\<close> up to the size of
  the thread pool all calls of full rounds end; with more, none does.
\<close>

section \<open>Full rounds\<close>

definition uniform :: "nat \<Rightarrow> server \<Rightarrow> bool" where
  "uniform n S \<longleftrightarrow> (\<forall>th \<in> set (threads S). rendezvous (th_rpc th) \<longrightarrow> num_workers (th_rpc th) = n)"

definition held :: "thread \<Rightarrow> bool" where
  "held th \<longleftrightarrow> th_pc th = P_check \<or> (\<exists>e. th_pc th = P_wait e)"

definition rounds :: "nat \<Rightarrow> server \<Rightarrow> bool" where
  "rounds n S \<longleftrightarrow>
     (\<forall>k < barrier_op_id (ctl S). tally (in_op k) (threads S) = int n) \<and>
     tally (in_op (barrier_op_id (ctl S))) (threads S) < int n \<and>
     (\<forall>th \<in> set (threads S). in_op (barrier_op_id (ctl S)) th \<longrightarrow> held th)"

lemma same_rpcs:
  assumes "server_inv S" and "serve a S = Some S'"
  obtains rs where "map th_rpc (threads S') = map th_rpc (threads S) @ rs"
proof (cases a)
  case (Run t)
  from run_cases [OF assms(1) assms(2) [unfolded Run]] obtain th' C' where
    "t < length (threads S)" "th_rpc th' = th_rpc (threads S ! t)"
    "S' = S\<lparr>ctl := C', threads := (threads S)[t := th']\<rparr>" by metis
  then have "map th_rpc (threads S') = map th_rpc (threads S)"
    by (simp add: map_update list_update_same_conv)
  then show ?thesis by (intro that [of "[]"]) simp
qed (use assms that in auto)

lemma uniform_rpcs:
  "uniform n S \<longleftrightarrow> (\<forall>r \<in> set (map th_rpc (threads S)). rendezvous r \<longrightarrow> num_workers r = n)"
  by (auto simp: uniform_def)

lemma uniform_back: "server_inv S \<Longrightarrow> serve a S = Some S' \<Longrightarrow> uniform n S' \<Longrightarrow> uniform n S"
  by (erule (1) same_rpcs) (auto simp: uniform_rpcs)

lemma current_count:
  "server_inv S \<Longrightarrow> ctr (ctl S) (barrier_op_id (ctl S)) = tally (in_op (barrier_op_id (ctl S))) (threads S)"
  by (simp add: server_inv_def counts_ok_def ctr_def)

lemma arrive_op:
  "barrier_op_id (arrive n C) = (if ctr C (barrier_op_id C) + 1 < int n then barrier_op_id C
     else barrier_op_id C + 1)"
  by (simp add: arrive_def Let_def)

lemma held_step:
  assumes "server_inv S" and "t < length (threads S)" and "rendezvous (th_rpc (threads S ! t))"
    and "thread_step (threads S ! t) (ctl S) = Some (th', C')"
    and "thread_ok (ctl S) (threads S ! t)"
    and "in_op (barrier_op_id (ctl S)) (threads S ! t)" and "held (threads S ! t)"
    and "tally (in_op (barrier_op_id (ctl S))) (threads S) < int (num_workers (th_rpc (threads S ! t)))"
  shows "held th'"
proof -
  let ?th = "threads S ! t" and ?op = "barrier_op_id (ctl S)"
  have ev: "th_op ?th = Some ?op" "\<And>e. th_pc ?th = P_wait e \<Longrightarrow> e = BarrierEvent ?op"
    using assms(3,5,6,7) by (auto simp: thread_ok_def arrived_ok_def in_op_def held_def)
  have "BarrierEvent ?op \<notin> set_events (ctl S)"
    using assms(1) by (simp add: server_inv_def ctl_inv_def)
  then have "th_pc ?th = P_check" using assms(4,7) ev(2) by (auto simp: held_def)
  moreover have "must_wait (num_workers (th_rpc ?th)) ?op (ctl S) = (Inr True, ctl S)"
    using assms(1,8) by (simp add: must_wait_def py_defs server_inv_def counts_ok_def)
  ultimately show ?thesis using assms(4) ev(1) by (auto simp: held_def)
qed

lemma rounds_step:
  assumes "server_inv S" and "serve a S = Some S'" and "uniform n S" and "1 \<le> n" and "rounds n S"
  shows "rounds n S'"
proof (cases a)
  case (Call r)
  then show ?thesis using assms by (auto simp: rounds_def new_thread_def in_op_def)
next
  case (Run t)
  let ?op = "barrier_op_id (ctl S)" and ?th = "threads S ! t"
  from run_cases [OF assms(1) assms(2) [unfolded Run]] obtain th' C' where
    t: "t < length (threads S)" and ok: "thread_ok (ctl S) ?th"
    and st: "thread_step ?th (ctl S) = Some (th', C')"
    and S': "S' = S\<lparr>ctl := C', threads := (threads S)[t := th']\<rparr>"
    and e: "effect S ?th th' C'" by metis
  have n: "num_workers (th_rpc ?th) = n" if "rendezvous (th_rpc ?th)"
    using assms(3) t that by (simp add: uniform_def)
  have full: "\<And>k. k < ?op \<Longrightarrow> tally (in_op k) (threads S) = int n"
    and lt: "tally (in_op ?op) (threads S) < int n"
    and held: "\<And>th. th \<in> set (threads S) \<Longrightarrow> in_op ?op th \<Longrightarrow> held th"
    using assms(5) by (auto simp: rounds_def)
  have same: "rounds n S'" if "barrier_op_id C' = ?op" "th_op th' = th_op ?th" "in_op ?op th' \<longrightarrow> held th'"
  proof -
    have "tally (in_op k) ((threads S)[t := th']) = tally (in_op k) (threads S)" for k
      using t that(2) by (simp add: tally_update in_op_def)
    then show ?thesis
      using that full lt held set_update_subset_insert [of "threads S" t th']
      by (fastforce simp: rounds_def S')
  qed
  from e show ?thesis
  proof cases
    case broadcast
    then show ?thesis by (intro same) (simp_all add: benign_def in_op_def)
  next
    case arrive
    let ?D = "case th_rpc ?th of RdmaSession_rpc r \<Rightarrow> add_to_session r (ctl S) | _ \<Rightarrow> ctl S"
    have D: "barrier_op_id ?D = ?op" "ctr ?D = ctr (ctl S)" by (simp_all split: rpc.split)
    have op: "barrier_op_id C' =
        (if tally (in_op ?op) (threads S) + 1 < int n then ?op else ?op + 1)"
      unfolding arrive(5) arrive_op D n [OF arrive(1)] current_count [OF assms(1)] ..
    have ta: "tally (in_op k) ((threads S)[t := th']) = tally (in_op k) (threads S) + of_bool (k = ?op)" for k
      using t arrive(2,4) by (auto simp: tally_update in_op_def)
    have new: "tally (in_op (?op + 1)) (threads S) = 0" and old: "\<And>th. th \<in> set (threads S) \<Longrightarrow> \<not> in_op (?op + 1) th"
      using counts_new_op(1) [of "threads S" "ctl S" "?op + 1"] assms(1)
      by (simp_all add: server_inv_def tally_zero)
    have th': "in_op ?op th'" "held th'" using arrive(4) by (simp_all add: in_op_def held_def)
    have mem: "th \<in> set ((threads S)[t := th']) \<Longrightarrow> th = th' \<or> th \<in> set (threads S)" for th
      using set_update_subset_insert [of "threads S" t th'] by blast
    show ?thesis
    proof (cases "tally (in_op ?op) (threads S) + 1 < int n")
      case True
      then show ?thesis using op full ta th' mem held by (auto simp: rounds_def S')
    next
      case False
      then have "tally (in_op ?op) (threads S) + 1 = int n" using lt by simp
      moreover have "\<not> in_op (?op + 1) th'" using th'(1) by (simp add: in_op_def)
      ultimately show ?thesis
        using False op full ta new old mem assms(4) by (auto simp: rounds_def S' less_Suc_eq)
    qed
  next
    case (leave k c)
    have "barrier_op_id C' = ?op"
      using leave(6) leave_ok [of "ctl S" k c] assms(1) leave(5) by (auto simp: server_inv_def)
    then show ?thesis using leave by (intro same) (simp_all add: in_op_def)
  next
    case silent
    have "held th'" if "in_op ?op th'"
      using that silent(5) held [of ?th] t lt n [OF silent(1)]
      by (intro held_step [OF assms(1) t silent(1) st ok]) (simp_all add: in_op_def)
    then show ?thesis using silent(3,5) by (intro same) simp_all
  qed
qed

lemma rounds_served: "served S \<Longrightarrow> uniform n S \<Longrightarrow> 1 \<le> n \<Longrightarrow> rounds n S"
proof (induction rule: served.induct)
  case served_new
  then show ?case by (simp add: rounds_def new_server_def new_controller_def)
next
  case (served_step S a S')
  have inv: "server_inv S" using inv_served [OF served_step.hyps(1)] .
  note u = uniform_back [OF inv served_step.hyps(2) served_step.prems(1)]
  show ?case using rounds_step [OF inv served_step.hyps(2) u] served_step u by blast
qed

section \<open>All calls of full rounds end\<close>

definition ended :: "thread \<Rightarrow> bool" where
  "ended th \<longleftrightarrow> (\<exists>x. th_pc th = P_done x) \<or> (\<exists>e. th_pc th = P_failed e)"

fun steps_left :: "thread \<Rightarrow> nat" where
  "steps_left th =
     (case th_pc th of P_queued \<Rightarrow> 5 | P_check \<Rightarrow> 4 | P_wait e \<Rightarrow> 3 | P_leave \<Rightarrow> 2 | P_reply \<Rightarrow> 1
      | P_done x \<Rightarrow> 0 | P_failed e \<Rightarrow> 0)"

lemma after_pc:
  "after p k th = (th', C') \<Longrightarrow> \<exists>e. th_pc th' = P_failed e \<or> (\<exists>x. th' = k x)"
  by (drule after_cases) auto

lemma steps_left_step:
  assumes "thread_step th C = Some (th', C')"
  shows "steps_left th' < steps_left th"
proof (cases "th_pc th")
  case P_queued
  then show ?thesis
    using assms by (cases "th_rpc th") (auto dest!: after_pc split: option.splits)
next
  case P_check
  then show ?thesis using assms by (auto dest!: after_pc split: if_splits)
next
  case P_leave
  then show ?thesis using assms by (cases "th_rpc th") (auto dest!: after_pc)
next
  case P_reply
  then show ?thesis using assms by (cases "th_rpc th") (auto dest!: after_pc)
qed (use assms in \<open>auto split: if_splits\<close>)

definition work :: "server \<Rightarrow> nat" where
  "work S = (\<Sum>th\<leftarrow>threads S. steps_left th)"

lemma sum_list_update_less:
  "t < length xs \<Longrightarrow> f x < f (xs ! t) \<Longrightarrow> (\<Sum>y\<leftarrow>xs[t := x]. f y) < (\<Sum>y\<leftarrow>xs. f y)" for f :: "'a \<Rightarrow> nat"
  by (induction xs arbitrary: t) (auto simp: nth_Cons split: nat.splits)

lemma work_step: "serve (Run t) S = Some S' \<Longrightarrow> work S' < work S"
  by (auto simp: work_def can_run_def split: if_splits
      intro!: sum_list_update_less steps_left_step simp del: thread_step.simps steps_left.simps)

lemma work_le: "work S \<le> 5 * length (threads S)"
proof -
  have "(\<Sum>th\<leftarrow>ts. steps_left th) \<le> 5 * length ts" for ts
    by (induction ts) (auto split: pc.splits)
  then show ?thesis by (simp add: work_def)
qed

lemma runs_bounded:
  "serve_all (map Run ts) S = Some S' \<Longrightarrow> length ts + work S' \<le> work S"
proof (induction ts arbitrary: S)
  case (Cons t ts)
  then obtain S1 where S1: "serve (Run t) S = Some S1" "serve_all (map Run ts) S1 = Some S'"
    by (auto split: option.splits)
  show ?case using Cons.IH [OF S1(2)] work_step [OF S1(1)] by simp
qed simp

text \<open>A handler that cannot step waits for the current operation, or for a thread of the pool.\<close>

lemma step_enabled:
  assumes "server_inv S" and "th \<in> set (threads S)" and "rendezvous (th_rpc th)"
    and "\<not> ended th" and "thread_step th (ctl S) = None"
  shows "in_op (barrier_op_id (ctl S)) th"
proof -
  have ok: "thread_ok (ctl S) th" and ci: "ctl_inv (ctl S)"
    using assms(1,2) by (auto simp: server_inv_def)
  obtain e where e: "th_pc th = P_wait e" "e \<notin> set_events (ctl S)"
    using assms(4,5) by (cases "th_pc th") (auto simp: ended_def split: if_splits)
  then obtain k where "k \<le> barrier_op_id (ctl S)" "th_op th = Some k" "e = BarrierEvent k"
    using ok assms(3) by (auto simp: thread_ok_def arrived_ok_def)
  with e(2) ci show ?thesis by (auto simp: ctl_inv_def in_op_def)
qed

lemma running_waiting: "held th \<Longrightarrow> running th"
  by (auto simp: held_def)

lemma running_cases: "running th \<Longrightarrow> \<not> ended th \<and> th_pc th \<noteq> P_queued"
  by (cases "th_pc th") (auto simp: ended_def)

lemma ops_sum:
  "(\<Sum>k\<le>m. tally (in_op k) ts) = tally (\<lambda>th. \<exists>k\<le>m. in_op k th) ts"
proof (induction ts)
  case (Cons th ts)
  have "(\<Sum>k\<le>m. of_bool (in_op k th)) = (of_bool (\<exists>k\<le>m. in_op k th) :: int)"
  proof (cases "th_op th")
    case (Some j)
    have "(\<Sum>k\<le>m. of_bool (in_op k th)) = (\<Sum>k\<le>m. if k = j then 1 else (0 :: int))"
      by (rule sum.cong) (auto simp: in_op_def Some)
    then show ?thesis by (auto simp: in_op_def Some)
  qed (simp add: in_op_def)
  with Cons show ?case by (simp add: sum.distrib)
qed simp

text \<open>When nothing can run, every call of full rounds has ended.\<close>

lemma all_ended:
  assumes "served S" and "uniform n S" and "1 \<le> n" and "n \<le> POOL_SIZE"
    and "\<forall>th \<in> set (threads S). rendezvous (th_rpc th)" and "n dvd length (threads S)"
    and "\<forall>t. serve (Run t) S = None"
  shows "\<forall>th \<in> set (threads S). ended th"
proof -
  let ?op = "barrier_op_id (ctl S)" and ?ts = "threads S"
  note inv = inv_served [OF assms(1)]
  note r = rounds_served [OF assms(1-3), unfolded rounds_def]
  have blocked: "in_op ?op th" if "th \<in> set ?ts" "\<not> ended th" "th_pc th \<noteq> P_queued" for th
  proof -
    have "\<exists>t < length ?ts. ?ts ! t = th" using that(1) by (simp add: in_set_conv_nth)
    then obtain t where t: "t < length ?ts" "?ts ! t = th" by blast
    then have "thread_step th (ctl S) = None"
      using spec [OF assms(7), of t] that(3) by (simp add: can_run_def del: thread_step.simps)
    then show ?thesis using step_enabled [OF inv that(1)] assms(5) that by blast
  qed
  have "length (filter running ?ts) \<le> length (filter (in_op ?op) ?ts)"
  proof -
    have "tally running ?ts \<le> tally (in_op ?op) ?ts"
      by (rule tally_mono) (use blocked running_cases in blast)
    then show ?thesis by (simp add: tally_filter)
  qed
  then have few: "length (filter running ?ts) < POOL_SIZE"
    using r assms(4) by (simp add: tally_filter)
  have noq: "th_pc th \<noteq> P_queued" if "th \<in> set ?ts" for th
  proof
    assume q: "th_pc th = P_queued"
    have "\<exists>t < length ?ts. ?ts ! t = th" using that by (simp add: in_set_conv_nth)
    then obtain t where t: "t < length ?ts" "?ts ! t = th" by blast
    then have "serve (Run t) S \<noteq> None" using q few by (simp add: can_run_def)
    with spec [OF assms(7), of t] show False by (rule notE [rotated])
  qed
  have "\<exists>k\<le>?op. in_op k th" if "th \<in> set ?ts" for th
    using inv assms(5) noq that by (fastforce simp: server_inv_def thread_ok_def arrived_ok_def in_op_def)
  then have "tally (\<lambda>th. \<exists>k\<le>?op. in_op k th) ?ts = int (length ?ts)"
    by (simp add: tally_filter)
  moreover have "(\<Sum>k\<le>?op. tally (in_op k) ?ts) = int ?op * int n + tally (in_op ?op) ?ts"
    using r by (simp add: lessThan_Suc_atMost [symmetric])
  ultimately have "int (length ?ts) = int ?op * int n + tally (in_op ?op) ?ts"
    using ops_sum [where m = ?op and ts = ?ts] by simp
  then have "int n dvd tally (in_op ?op) ?ts"
    using assms(6) by (metis dvd_add_right_iff dvd_triv_right of_nat_dvd_iff)
  then have "tally (in_op ?op) ?ts = 0"
    using r zdvd_imp_le [of "int n" "tally (in_op ?op) ?ts"] by (force simp: less_le)
  then show ?thesis using blocked noq by (auto simp: tally_zero)
qed

section \<open>More workers than threads in the pool\<close>

definition starved :: "server \<Rightarrow> bool" where
  "starved S \<longleftrightarrow> barrier_op_id (ctl S) = 0 \<and> tally (in_op 0) (threads S) \<le> int POOL_SIZE"

lemma starved_step:
  assumes "served S" and "serve a S = Some S'" and "uniform n S" and "POOL_SIZE < n" and "starved S"
  shows "starved S'"
proof (cases a)
  case (Call r)
  then show ?thesis using assms by (auto simp: starved_def new_thread_def in_op_def)
next
  case (Run t)
  let ?th = "threads S ! t"
  note inv = inv_served [OF assms(1)]
  note r = rounds_served [OF assms(1,3), unfolded rounds_def]
  from run_cases [OF inv assms(2) [unfolded Run]] obtain th' C' where
    t: "t < length (threads S)"
    and S': "S' = S\<lparr>ctl := C', threads := (threads S)[t := th']\<rparr>"
    and e: "effect S ?th th' C'" by metis
  have op: "barrier_op_id (ctl S) = 0" using assms(5) by (simp add: starved_def)
  have same: "starved S'" if "barrier_op_id C' = 0" "th_op th' = th_op ?th"
    using that assms(5) t by (simp add: starved_def S' tally_update in_op_def)
  from e show ?thesis
  proof cases
    case arrive
    let ?D = "case th_rpc ?th of RdmaSession_rpc r \<Rightarrow> add_to_session r (ctl S) | _ \<Rightarrow> ctl S"
    have D: "barrier_op_id ?D = 0" "ctr ?D = ctr (ctl S)" using op by (simp_all split: rpc.split)
    have "tally (in_op 0) (threads S) \<le> tally running (threads S)"
      using r op assms(4) by (intro tally_mono running_waiting) auto
    moreover have "tally running (threads S) < int POOL_SIZE"
      using assms(2) Run arrive(3) by (auto simp: tally_filter can_run_def split: if_splits)
    ultimately have lt: "tally (in_op 0) (threads S) < int POOL_SIZE" by simp
    have "num_workers (th_rpc ?th) = n" using assms(3) t arrive(1) by (simp add: uniform_def)
    moreover have "ctr (ctl S) 0 = tally (in_op 0) (threads S)" using current_count [OF inv] op by simp
    ultimately have "barrier_op_id C' = 0"
      using lt assms(4) unfolding arrive(5) arrive_op D by simp
    moreover have "tally (in_op 0) ((threads S)[t := th']) = tally (in_op 0) (threads S) + 1"
      using t arrive(2,4) op by (simp add: tally_update in_op_def)
    ultimately show ?thesis using lt by (simp add: starved_def S')
  next
    case (leave k c)
    then show ?thesis using op by simp
  qed (use op in \<open>auto intro!: same simp: benign_def\<close>)
qed

lemma starved_served: "served S \<Longrightarrow> uniform n S \<Longrightarrow> POOL_SIZE < n \<Longrightarrow> starved S"
proof (induction rule: served.induct)
  case (served_step S a S')
  note u = uniform_back [OF inv_served [OF served_step.hyps(1)] served_step.hyps(2) served_step.prems(1)]
  show ?case using starved_step [OF served_step.hyps u] served_step u by blast
qed (simp add: starved_def new_server_def new_controller_def)

end
