(* ===== verification/Controller_Session.thy ===== *)
theory Controller_Session
  imports Controller_Rounds
begin

text \<open>
  What \<open>RdmaSession\<close> answers: the data of a worker of the session to its root, and the data of
  the root to a worker. The invariant ties the table of sessions to the calls that have arrived.
\<close>

section \<open>The table of sessions\<close>

definition calls :: "server \<Rightarrow> rpc set" where
  "calls S = set (map th_rpc (threads S))"

text \<open>Everything in the table comes from a call, the root's from one with \<open>root\<close> 1.\<close>

definition session_ok :: "rpc set \<Rightarrow> 32 word \<Rightarrow> session \<Rightarrow> bool" where
  "session_ok R sid s \<longleftrightarrow>
     (\<forall>r. se_root s = Some r \<longrightarrow> RdmaSession_rpc r \<in> R \<and> rq_session_id r = sid \<and> rq_root r = 1) \<and>
     (\<forall>k r. (k, r) \<in> set (se_workers s) \<longrightarrow>
        RdmaSession_rpc r \<in> R \<and> rq_session_id r = sid \<and> rq_root r \<noteq> 1)"

definition table_ok :: "rpc set \<Rightarrow> controller \<Rightarrow> bool" where
  "table_ok R C \<longleftrightarrow> (\<forall>sid s. sessions C sid = Some s \<longrightarrow> session_ok R sid s)"

definition registered :: "RdmaSessionRequest \<Rightarrow> controller \<Rightarrow> bool" where
  "registered r C \<longleftrightarrow> (\<exists>s. sessions C (rq_session_id r) = Some s \<and>
     (if rq_root r = 1 then se_root s \<noteq> None else se_workers s \<noteq> []))"

definition answer_ok :: "rpc set \<Rightarrow> thread \<Rightarrow> bool" where
  "answer_ok R th \<longleftrightarrow> (\<forall>r x. th_rpc th = RdmaSession_rpc r \<longrightarrow>
     th_pc th = P_done (RdmaSession_response x) \<longrightarrow>
     (\<exists>r'. RdmaSession_rpc r' \<in> R \<and> rq_session_id r' = rq_session_id r \<and>
        (rq_root r' = 1 \<longleftrightarrow> rq_root r \<noteq> 1) \<and> x = session_response r'))"

definition session_inv :: "server \<Rightarrow> bool" where
  "session_inv S \<longleftrightarrow> table_ok (calls S) (ctl S) \<and>
     (\<forall>th \<in> set (threads S). answer_ok (calls S) th \<and>
        (\<forall>r. th_rpc th = RdmaSession_rpc r \<longrightarrow> th_op th \<noteq> None \<longrightarrow> registered r (ctl S)))"

lemma table_ok_mono: "table_ok R C \<Longrightarrow> R \<subseteq> R' \<Longrightarrow> table_ok R' C"
  unfolding table_ok_def session_ok_def by blast

lemma answer_ok_mono: "answer_ok R th \<Longrightarrow> R \<subseteq> R' \<Longrightarrow> answer_ok R' th"
  unfolding answer_ok_def by blast

lemma set_AList_update:
  "(k', v') \<in> set (AList.update k v xs) \<Longrightarrow> v' = v \<or> (k', v') \<in> set xs"
  by (induction xs) (auto split: if_splits)

lemma AList_update_not_Nil [simp]: "AList.update k v xs \<noteq> []"
  by (cases xs) auto

lemma session_okI:
  assumes "\<And>r. se_root s = Some r \<Longrightarrow> RdmaSession_rpc r \<in> R \<and> rq_session_id r = sid \<and> rq_root r = 1"
    and "\<And>k r. (k, r) \<in> set (se_workers s) \<Longrightarrow>
      RdmaSession_rpc r \<in> R \<and> rq_session_id r = sid \<and> rq_root r \<noteq> 1"
  shows "session_ok R sid s"
  unfolding session_ok_def using assms by blast

lemma session_ok_root:
  "session_ok R sid s \<Longrightarrow> se_root s = Some r \<Longrightarrow>
   RdmaSession_rpc r \<in> R \<and> rq_session_id r = sid \<and> rq_root r = 1"
  unfolding session_ok_def by blast

lemma session_ok_worker:
  "session_ok R sid s \<Longrightarrow> (k, r) \<in> set (se_workers s) \<Longrightarrow>
   RdmaSession_rpc r \<in> R \<and> rq_session_id r = sid \<and> rq_root r \<noteq> 1"
  unfolding session_ok_def by blast

lemma session_ok_add:
  assumes "session_ok R sid s" and "RdmaSession_rpc r \<in> R" and "rq_session_id r = sid"
  shows "session_ok R sid
    (if rq_root r = 1 then s\<lparr>se_root := Some r\<rparr>
     else s\<lparr>se_workers := AList.update (rq_rank r) r (se_workers s)\<rparr>)" (is "session_ok R sid ?s")
proof (rule session_okI)
  fix r'
  assume "se_root ?s = Some r'"
  then have "rq_root r = 1 \<and> r' = r \<or> se_root s = Some r'" by (cases "rq_root r = 1") simp_all
  then show "RdmaSession_rpc r' \<in> R \<and> rq_session_id r' = sid \<and> rq_root r' = 1"
    using session_ok_root [OF assms(1)] assms(2,3) by blast
next
  fix k r'
  assume "(k, r') \<in> set (se_workers ?s)"
  then have "rq_root r \<noteq> 1 \<and> r' = r \<or> (k, r') \<in> set (se_workers s)"
    using set_AList_update [of k r' "rq_rank r" r "se_workers s"] by (cases "rq_root r = 1") simp_all
  then show "RdmaSession_rpc r' \<in> R \<and> rq_session_id r' = sid \<and> rq_root r' \<noteq> 1"
    using session_ok_worker [OF assms(1)] assms(2,3) by blast
qed

lemma table_add:
  assumes "table_ok R C" and "RdmaSession_rpc r \<in> R"
  shows "table_ok R (add_to_session r C)"
  unfolding table_ok_def
proof (intro allI impI)
  fix sid s
  let ?s = "case sessions C (rq_session_id r) of None \<Rightarrow> \<lparr>se_root = None, se_workers = []\<rparr> | Some s \<Rightarrow> s"
  assume s: "sessions (add_to_session r C) sid = Some s"
  show "session_ok R sid s"
  proof (cases "sid = rq_session_id r")
    case True
    have "session_ok R sid ?s"
    proof (cases "sessions C (rq_session_id r)")
      case None
      then show ?thesis by (intro session_okI) simp_all
    next
      case (Some s0)
      then show ?thesis using assms(1) True by (simp add: table_ok_def)
    qed
    from session_ok_add [OF this assms(2)] s True show ?thesis
      by (simp add: add_to_session_def Let_def)
  next
    case False
    then show ?thesis using s assms(1) by (simp add: table_ok_def add_to_session_def Let_def)
  qed
qed

lemma registered_add: "registered r' C \<Longrightarrow> registered r' (add_to_session r C)"
  by (auto simp: registered_def add_to_session_def Let_def split: option.splits)

lemma registered_self: "registered r (add_to_session r C)"
  by (simp add: registered_def add_to_session_def Let_def)

lemma sessions_only:
  assumes "sessions C' = sessions C"
  shows "table_ok R C' = table_ok R C" and "registered r C' = registered r C"
  using assms by (simp_all add: table_ok_def registered_def)

lemma sessions_arrive [simp]: "sessions (arrive n C) = sessions C"
  by (simp add: arrive_def Let_def)

lemma reply_cases:
  assumes "RdmaSession_reply r C = (res, C')"
  shows "C' = C \<and> (\<forall>x. res = Inr x \<longrightarrow> (\<exists>s r'. sessions C (rq_session_id r) = Some s \<and>
      x = session_response r' \<and>
      (if rq_root r = 1 then (\<exists>k. (k, r') \<in> set (se_workers s)) else se_root s = Some r')))"
proof (cases "sessions C (rq_session_id r)")
  case (Some s)
  have w: "\<exists>k r'. se_workers s ! 0 = (k, r') \<and> (k, r') \<in> set (se_workers s)" if "0 < length (se_workers s)"
    using nth_mem [OF that] by (metis surj_pair)
  show ?thesis
    using assms Some w
    by (auto simp: RdmaSession_reply_def py_defs split: if_splits option.splits prod.splits)
qed (use assms in \<open>auto simp: RdmaSession_reply_def py_defs\<close>)

lemma only_reply_answers:
  assumes "thread_step th C = Some (th', C')" and "th_pc th' = P_done x"
  shows "th_pc th = P_reply"
proof (cases "th_pc th")
  case P_queued
  then show ?thesis
    using assms by (cases "th_rpc th") (auto dest!: after_pc split: option.splits)
next
  case P_check
  then show ?thesis using assms by (auto dest!: after_pc split: if_splits)
next
  case P_leave
  then show ?thesis using assms by (cases "th_rpc th") (auto dest!: after_pc)
qed (use assms in \<open>auto split: if_splits\<close>)

lemma answer_step:
  assumes "table_ok R C" and "thread_step th C = Some (th', C')" and "th_rpc th' = th_rpc th"
  shows "answer_ok R th'"
  unfolding answer_ok_def
proof (intro allI impI)
  fix r x
  assume "th_rpc th' = RdmaSession_rpc r" and fin: "th_pc th' = P_done (RdmaSession_response x)"
  then have r: "th_rpc th = RdmaSession_rpc r" using assms(3) by simp
  have pc: "th_pc th = P_reply" using only_reply_answers [OF assms(2) fin] .
  obtain res D where rep: "RdmaSession_reply r C = (res, D)" by fastforce
  then have "res = Inr x" using assms(2) r pc fin by (cases res) auto
  with reply_cases [OF rep] obtain s r' where s: "sessions C (rq_session_id r) = Some s"
    and x: "x = session_response r'"
    and r': "if rq_root r = 1 then (\<exists>k. (k, r') \<in> set (se_workers s)) else se_root s = Some r'"
    by metis
  have ok: "session_ok R (rq_session_id r) s" using assms(1) s by (simp add: table_ok_def)
  have "RdmaSession_rpc r' \<in> R \<and> rq_session_id r' = rq_session_id r \<and>
      (rq_root r' = 1 \<longleftrightarrow> rq_root r \<noteq> 1)"
  proof (cases "rq_root r = 1")
    case True
    then obtain k where "(k, r') \<in> set (se_workers s)" using r' by auto
    from session_ok_worker [OF ok this] True show ?thesis by blast
  next
    case False
    then have "se_root s = Some r'" using r' by simp
    from session_ok_root [OF ok this] False show ?thesis by blast
  qed
  with x show "\<exists>r'. RdmaSession_rpc r' \<in> R \<and> rq_session_id r' = rq_session_id r \<and>
      (rq_root r' = 1 \<longleftrightarrow> rq_root r \<noteq> 1) \<and> x = session_response r'" by blast
qed

lemma map_rpc_update:
  "t < length ts \<Longrightarrow> th_rpc th' = th_rpc (ts ! t) \<Longrightarrow> map th_rpc (ts[t := th']) = map th_rpc ts"
  by (simp add: map_update list_update_same_conv)

lemma session_step:
  assumes "server_inv S" and "session_inv S" and "serve a S = Some S'"
  shows "session_inv S'"
proof (cases a)
  case (Call r)
  have "calls S \<subseteq> calls S'" using Call assms(3) by (auto simp: calls_def)
  then have "table_ok (calls S') (ctl S)" "\<And>th. answer_ok (calls S) th \<Longrightarrow> answer_ok (calls S') th"
    using assms(2) table_ok_mono answer_ok_mono by (auto simp: session_inv_def)
  moreover have "answer_ok (calls S') (new_thread r)" "th_op (new_thread r) = None"
    by (simp_all add: answer_ok_def new_thread_def)
  ultimately show ?thesis using Call assms(2,3) by (auto simp: session_inv_def)
next
  case (Run t)
  let ?th = "threads S ! t"
  from run_cases [OF assms(1) assms(3) [unfolded Run]] obtain th' C' where
    t: "t < length (threads S)" and st: "thread_step ?th (ctl S) = Some (th', C')"
    and rpc: "th_rpc th' = th_rpc ?th"
    and S': "S' = S\<lparr>ctl := C', threads := (threads S)[t := th']\<rparr>"
    and e: "effect S ?th th' C'" by metis
  have calls: "calls S' = calls S"
    using map_rpc_update [OF t rpc] by (simp add: calls_def S' del: set_map)
  have tab: "table_ok (calls S) (ctl S)"
    and reg: "\<And>th r. th \<in> set (threads S) \<Longrightarrow> th_rpc th = RdmaSession_rpc r \<Longrightarrow> th_op th \<noteq> None \<Longrightarrow>
        registered r (ctl S)"
    using assms(2) t by (auto simp: session_inv_def)
  have mem: "th \<in> set ((threads S)[t := th']) \<Longrightarrow> th = th' \<or> th \<in> set (threads S)" for th
    using set_update_subset_insert [of "threads S" t th'] by blast
  have sel: "threads S' = (threads S)[t := th']" "ctl S' = C'" by (simp_all add: S')
  note ans' = answer_step [OF tab st rpc]
  have goal: "session_inv S'" if "table_ok (calls S) C'"
    "\<And>r. registered r (ctl S) \<Longrightarrow> registered r C'"
    "\<And>r. th_rpc ?th = RdmaSession_rpc r \<Longrightarrow> th_op th' \<noteq> None \<Longrightarrow> registered r C'"
  proof -
    have all: "answer_ok (calls S) th \<and>
        (\<forall>r. th_rpc th = RdmaSession_rpc r \<longrightarrow> th_op th \<noteq> None \<longrightarrow> registered r C')"
      if "th \<in> set ((threads S)[t := th'])" for th
      using mem [OF that] ans' rpc reg assms(2) \<open>\<And>r. registered r (ctl S) \<Longrightarrow> registered r C'\<close>
        \<open>\<And>r. th_rpc ?th = RdmaSession_rpc r \<Longrightarrow> th_op th' \<noteq> None \<Longrightarrow> registered r C'\<close>
      unfolding session_inv_def by metis
    show ?thesis unfolding session_inv_def calls sel by (intro conjI ballI that(1) all [THEN conjunct1] all [THEN conjunct2])
  qed
  have same: "session_inv S'" if "sessions C' = sessions (ctl S)" "th_op th' = th_op ?th"
    by (rule goal; unfold sessions_only [OF that(1)]) (use that(2) t tab reg [of ?th] in simp_all)
  from e show ?thesis
  proof cases
    case broadcast
    then show ?thesis by (intro same) (simp_all add: benign_def)
  next
    case arrive
    have r: "RdmaSession_rpc r \<in> calls S" if "th_rpc ?th = RdmaSession_rpc r" for r
      using that t unfolding calls_def by (metis image_eqI nth_mem set_map)
    have s: "sessions C' = sessions (case th_rpc ?th of RdmaSession_rpc r \<Rightarrow> add_to_session r (ctl S) | _ \<Rightarrow> ctl S)"
      by (simp add: arrive(5))
    show ?thesis
      unfolding sessions_only [OF s]
      by (rule goal, unfold sessions_only [OF s])
        (auto simp: tab table_add r registered_add registered_self split: rpc.split)
  next
    case (leave k c)
    have "sessions C' = sessions (ctl S)"
      using leave(5,6) leave_ok [of "ctl S" k c] assms(1) by (auto simp: server_inv_def)
    then show ?thesis using leave(7) by (intro same) simp_all
  next
    case silent
    then show ?thesis by (intro same) simp_all
  qed
qed

lemma session_served: "served S \<Longrightarrow> session_inv S"
proof (induction rule: served.induct)
  case served_new
  then show ?case
    by (simp add: session_inv_def table_ok_def new_server_def new_controller_def)
next
  case (served_step S a S')
  then show ?case using session_step inv_served by blast
qed

lemma session_answer:
  assumes "served S" and "th \<in> set (threads S)" and "th_rpc th = RdmaSession_rpc r"
    and "th_pc th = P_done (RdmaSession_response x)"
  obtains r' where "RdmaSession_rpc r' \<in> set (map th_rpc (threads S))"
    "rq_root r' = 1 \<longleftrightarrow> rq_root r \<noteq> 1" "x = session_response r'"
proof -
  have "answer_ok (calls S) th" using session_served [OF assms(1)] assms(2) unfolding session_inv_def by blast
  then have "\<exists>r'. RdmaSession_rpc r' \<in> calls S \<and> rq_session_id r' = rq_session_id r \<and>
      (rq_root r' = 1 \<longleftrightarrow> rq_root r \<noteq> 1) \<and> x = session_response r'"
    using assms(3,4) unfolding answer_ok_def by blast
  then show ?thesis using that unfolding calls_def by blast
qed

section \<open>A session of two\<close>

text \<open>The calls of a worker \<open>a\<close> and a root \<open>b\<close> that name each other's session.\<close>

definition pair :: "RdmaSessionRequest \<Rightarrow> RdmaSessionRequest \<Rightarrow> bool" where
  "pair a b \<longleftrightarrow> rq_session_id a = rq_session_id b \<and> rq_root a \<noteq> 1 \<and> rq_root b = 1 \<and>
     unat (rq_num_workers a) = 2 \<and> unat (rq_num_workers b) = 2"

definition pair_calls :: "RdmaSessionRequest \<Rightarrow> RdmaSessionRequest \<Rightarrow> rpc list \<Rightarrow> bool" where
  "pair_calls a b rs \<longleftrightarrow> distinct rs \<and> set rs \<subseteq> {RdmaSession_rpc a, RdmaSession_rpc b}"

lemma pair_uniform: "pair a b \<Longrightarrow> pair_calls a b (map th_rpc (threads S)) \<Longrightarrow> uniform 2 S"
  unfolding uniform_rpcs pair_calls_def pair_def by auto

lemma tally_full: "tally P xs = int (length xs) \<Longrightarrow> x \<in> set xs \<Longrightarrow> P x"
  by (metis filter_id_conv length_filter_less less_irrefl of_nat_eq_iff tally_filter)

text \<open>A handler that is past the rendezvous finds both calls registered.\<close>

lemma pair_registered:
  assumes "served S" and "pair a b" and "pair_calls a b (map th_rpc (threads S))"
    and "th \<in> set (threads S)" and "th_pc th = P_reply"
  shows "registered a (ctl S) \<and> registered b (ctl S)"
proof -
  note inv = inv_served [OF assms(1)]
  note r = rounds_served [OF assms(1) pair_uniform [OF assms(2,3)], unfolded rounds_def]
  have "th_rpc th \<in> {RdmaSession_rpc a, RdmaSession_rpc b}"
    using assms(3,4) by (auto simp: pair_calls_def)
  then have "rendezvous (th_rpc th)" by auto
  then obtain k where k: "k \<le> barrier_op_id (ctl S)" "in_op k th"
  proof -
    have "thread_ok (ctl S) th" using inv assms(4) by (simp add: server_inv_def)
    then show thesis
      using that \<open>rendezvous (th_rpc th)\<close> assms(5) by (auto simp: thread_ok_def arrived_ok_def in_op_def)
  qed
  moreover have "\<not> held th" using assms(5) by (simp add: held_def)
  ultimately have "k < barrier_op_id (ctl S)" using r assms(4) by (metis le_neq_implies_less one_le_numeral)
  then have two: "tally (in_op k) (threads S) = 2" using r by simp
  have "length (threads S) = card (set (map th_rpc (threads S)))"
    using assms(3) distinct_card [of "map th_rpc (threads S)"] by (simp add: pair_calls_def)
  moreover have "card (set (map th_rpc (threads S))) \<le> card {RdmaSession_rpc a, RdmaSession_rpc b}"
    using assms(3) unfolding pair_calls_def by (intro card_mono) auto
  moreover have "card {RdmaSession_rpc a, RdmaSession_rpc b} = 2"
    using assms(2) by (auto simp: pair_def card_insert_if)
  moreover have "tally (in_op k) (threads S) \<le> int (length (threads S))" by (simp add: tally_filter)
  ultimately have len: "length (threads S) = 2"
    and "card (set (map th_rpc (threads S))) = card {RdmaSession_rpc a, RdmaSession_rpc b}"
    using two by simp_all
  then have all: "set (map th_rpc (threads S)) = {RdmaSession_rpc a, RdmaSession_rpc b}"
    using assms(3) unfolding pair_calls_def by (intro card_subset_eq) auto
  have arrived: "th_op u \<noteq> None" if "u \<in> set (threads S)" for u
    using tally_full [OF _ that, of "in_op k"] two len by (simp add: in_op_def)
  have "registered q (ctl S)" if q: "RdmaSession_rpc q \<in> set (map th_rpc (threads S))" for q
  proof -
    obtain u where "u \<in> set (threads S)" "th_rpc u = RdmaSession_rpc q" using q by auto
    then show ?thesis using session_served [OF assms(1)] arrived unfolding session_inv_def by blast
  qed
  then show ?thesis unfolding all by blast
qed

lemma reply_registered:
  assumes "pair a b" and "registered a C" and "registered b C"
    and "r = a \<or> r = b" and "RdmaSession_reply r C = (res, C')"
  shows "\<exists>x. res = Inr x"
proof -
  have sid: "rq_session_id r = rq_session_id a" "rq_session_id b = rq_session_id a"
    and roots: "rq_root a \<noteq> 1" "rq_root b = 1"
    using assms(1,4) by (auto simp: pair_def)
  obtain s where s: "sessions C (rq_session_id a) = Some s" "se_workers s \<noteq> []"
    using assms(2) roots by (auto simp: registered_def)
  moreover have "se_root s \<noteq> None" using assms(3) roots s(1) sid(2) by (simp add: registered_def)
  ultimately show ?thesis
    using assms(5) sid(1) by (auto simp: RdmaSession_reply_def py_defs split: if_splits prod.splits)
qed

lemma thread_step_rpc: "thread_step th C = Some (th', C') \<Longrightarrow> th_rpc th' = th_rpc th"
  by (cases "th_pc th"; cases "th_rpc th") (auto dest!: after_cases split: if_splits)

lemma pair_no_failure:
  assumes "served S" and "pair a b" and "pair_calls a b (map th_rpc (threads S))"
    and "th \<in> set (threads S)"
  shows "th_pc th \<noteq> P_failed e"
  using assms(1,3,4)
proof (induction arbitrary: th e rule: served.induct)
  case served_new
  then show ?case by (simp add: new_server_def)
next
  case (served_step S act S')
  note inv = inv_served [OF served_step.hyps(1)]
  obtain rs where "map th_rpc (threads S') = map th_rpc (threads S) @ rs"
    using same_rpcs [OF inv served_step.hyps(2)] by blast
  then have pc: "pair_calls a b (map th_rpc (threads S))"
    using served_step.prems(1) by (simp add: pair_calls_def)
  note old = served_step.IH [OF pc]
  show ?case
  proof (cases act)
    case (Call r)
    then show ?thesis using served_step.hyps(2) served_step.prems(2) old by (auto simp: new_thread_def)
  next
    case (Run t)
    let ?th = "threads S ! t"
    from run_cases [OF inv served_step.hyps(2) [unfolded Run]] obtain th' C' where
      t: "t < length (threads S)" and st: "thread_step ?th (ctl S) = Some (th', C')"
      and S': "S' = S\<lparr>ctl := C', threads := (threads S)[t := th']\<rparr>"
      and e: "effect S ?th th' C'" by metis
    have "th_rpc ?th \<in> set (map th_rpc (threads S))" using t by (metis image_eqI nth_mem set_map)
    then obtain r where r: "th_rpc ?th = RdmaSession_rpc r" "r = a \<or> r = b"
      using pc unfolding pair_calls_def by blast
    have "th_pc th' \<noteq> P_failed e'" for e'
      using e
    proof cases
      case silent
      have no_key: "th_pc th' \<noteq> P_failed KeyError"
        using silent(4) r(1) thread_step_rpc [OF st] by (auto simp: thread_ok_def)
      show ?thesis
      proof (cases "th_pc ?th")
        case P_check
        then show ?thesis
          using st no_key by (auto simp: must_wait_def py_defs split: option.splits if_splits)
      next
        case P_leave
        then show ?thesis
          using st r(1) no_key
          by (auto simp: leave_barrier_def py_defs split: option.splits if_splits)
      next
        case P_reply
        have "?th \<in> set (threads S)" using t by simp
        note reg = pair_registered [OF served_step.hyps(1) assms(2) pc this P_reply]
        obtain res D where rep: "RdmaSession_reply r (ctl S) = (res, D)" by fastforce
        obtain x where "res = Inr x" using reply_registered [OF assms(2) _ _ r(2) rep] reg by blast
        then show ?thesis using st P_reply r(1) rep by auto
      qed (use st silent(2) in \<open>auto split: if_splits\<close>)
    qed (use r in simp_all)
    then show ?thesis
      using served_step.prems(2) old set_update_subset_insert [of "threads S" t th'] S' by auto
  qed
qed

end
