(* ===== verification/Controller_Broadcast.thy ===== *)
theory Controller_Broadcast
  imports Controller_Barrier
begin

text \<open>
  One round of \<open>Broadcast\<close>: calls of \<open>n\<close> workers, each with its own rank below \<open>n\<close> and all with the
  same root. The invariant follows the single operation the controller then keeps.
\<close>

fun rank_of :: "rpc \<Rightarrow> nat" where
  "rank_of (Broadcast_rpc r) = unat (bc_rank r)"
| "rank_of _ = 0"

fun round_call :: "nat \<Rightarrow> 32 word \<Rightarrow> 64 word \<Rightarrow> rpc \<Rightarrow> bool" where
  "round_call n rt v (Broadcast_rpc r) \<longleftrightarrow> unat (bc_num_workers r) = n \<and> bc_root r = rt \<and>
     unat (bc_rank r) < n \<and> (bc_rank r = rt \<longrightarrow> bc_value r = v)"
| "round_call n rt v _ \<longleftrightarrow> False"

definition one_round :: "nat \<Rightarrow> 32 word \<Rightarrow> 64 word \<Rightarrow> rpc list \<Rightarrow> bool" where
  "one_round n rt v rs \<longleftrightarrow> list_all (round_call n rt v) rs \<and> distinct (map rank_of rs)"

text \<open>A handler in the round, when the value of the operation is \<open>val\<close>.\<close>

definition round_thread :: "64 word \<Rightarrow> 64 word option \<Rightarrow> thread \<Rightarrow> bool" where
  "round_thread v val th \<longleftrightarrow>
     (case th_pc th of
        P_queued \<Rightarrow> True
      | P_wait e \<Rightarrow> th_idx th = Some 0 \<and> e = BcastEvent 0
      | P_leave \<Rightarrow> th_idx th = Some 0 \<and> val = Some v
      | P_reply \<Rightarrow> th_idx th = Some 0 \<and> val = Some v
      | P_done x \<Rightarrow> x = Broadcast_response \<lparr>br_value = v\<rparr>
      | _ \<Rightarrow> False)"

definition fresh_round :: "server \<Rightarrow> bool" where
  "fresh_round S \<longleftrightarrow> bcast_bitmap (ctl S) = [] \<and> bcast_values (ctl S) = [] \<and>
     bcast_events (ctl S) = [] \<and> bcast_created (ctl S) = 0 \<and> BcastEvent 0 \<notin> set_events (ctl S) \<and>
     (\<forall>th \<in> set (threads S). th_pc th = P_queued)"

definition joined_round :: "nat \<Rightarrow> 64 word \<Rightarrow> bool list \<Rightarrow> 64 word option \<Rightarrow> server \<Rightarrow> bool" where
  "joined_round n v bits val S \<longleftrightarrow>
     bcast_bitmap (ctl S) = [bits] \<and> bcast_values (ctl S) = [val] \<and>
     bcast_events (ctl S) = [BcastEvent 0] \<and> length bits = n \<and> (val = None \<or> val = Some v) \<and>
     (BcastEvent 0 \<in> set_events (ctl S) \<longleftrightarrow> val \<noteq> None) \<and>
     (\<forall>th \<in> set (threads S). round_thread v val th) \<and>
     (\<forall>i < n. bits ! i \<longrightarrow> (\<exists>th \<in> set (threads S). th_pc th \<noteq> P_queued \<and> rank_of (th_rpc th) = i))"

definition round_inv :: "nat \<Rightarrow> 64 word \<Rightarrow> server \<Rightarrow> bool" where
  "round_inv n v S \<longleftrightarrow> fresh_round S \<or> (\<exists>bits val. joined_round n v bits val S)"

text \<open>Joining the operation of the round, when the rank's bit is not set yet.\<close>

definition join_round :: "BroadcastRequest \<Rightarrow> bool list \<Rightarrow> 64 word option \<Rightarrow> controller \<Rightarrow> controller" where
  "join_round r bits val C =
     (if bc_rank r = bc_root r then
        C\<lparr>bcast_values := [Some (bc_value r)], set_events := insert (BcastEvent 0) (set_events C),
          bcast_bitmap := [bits[unat (bc_rank r) := True]]\<rparr>
      else if val = None then C
      else C\<lparr>bcast_bitmap := [bits[unat (bc_rank r) := True]]\<rparr>)"

lemma handle_join:
  assumes "bcast_bitmap C = [bits]" and "bcast_values C = [val]" and "bcast_events C = [BcastEvent 0]"
    and "unat (bc_rank r) < length bits"
  shows "bcast_handle r 0 C =
    (Inr (0, if bc_rank r \<noteq> bc_root r \<and> val = None then Some (BcastEvent 0) else None), join_round r bits val C)"
  using assms
  by (cases "bc_rank r = bc_root r"; cases val) (simp_all add: bcast_handle_def join_round_def mark_def py_defs)

lemma enter_join:
  assumes "bcast_bitmap C = [bits]" and "bcast_values C = [val]" and "bcast_events C = [BcastEvent 0]"
    and "unat (bc_rank r) < length bits" and "\<not> bits ! unat (bc_rank r)"
  shows "Broadcast_enter r C =
    (Inr (0, if bc_rank r \<noteq> bc_root r \<and> val = None then Some (BcastEvent 0) else None), join_round r bits val C)"
proof -
  have "\<not> list_all id bits" using assms(4,5) by (metis id_apply list_all_length)
  then have "cleanup C = C" using assms(1) by (simp add: cleanup_def cleanup_at_def)
  then show ?thesis
    using assms handle_join [OF assms(1-4)] by (simp add: Broadcast_enter_handle py_defs)
qed

lemma enter_new:
  assumes "bcast_bitmap C = []" and "bcast_values C = []" and "bcast_events C = []" and "bcast_created C = 0"
    and "unat (bc_rank r) < unat (bc_num_workers r)"
  shows "Broadcast_enter r C =
    (Inr (0, if bc_rank r \<noteq> bc_root r then Some (BcastEvent 0) else None),
     join_round r (replicate (unat (bc_num_workers r)) False) None
       (append_operation (unat (bc_num_workers r)) C))"
proof -
  have "cleanup C = C" using assms(1) by (simp add: cleanup_def)
  moreover have "bcast_bitmap (append_operation (unat (bc_num_workers r)) C) =
      [replicate (unat (bc_num_workers r)) False]"
    "bcast_values (append_operation (unat (bc_num_workers r)) C) = [None]"
    "bcast_events (append_operation (unat (bc_num_workers r)) C) = [BcastEvent 0]"
    using assms by (simp_all add: append_operation_def)
  note handle_join [OF this, of r]
  ultimately show ?thesis using assms by (simp add: Broadcast_enter_handle py_defs)
qed

text \<open>Replacing a handler by one that has started.\<close>

lemma round_inv_update:
  assumes "t < length (threads S)" and "th_rpc th' = th_rpc (threads S ! t)" and "th_pc th' \<noteq> P_queued"
    and "\<forall>th \<in> set (threads S). round_thread v val th" and "round_thread v val' th'"
    and "val = None \<or> val = Some v" and "val' = val \<or> val' = Some v"
    and "\<forall>i < n. bits ! i \<longrightarrow> (\<exists>th \<in> set (threads S). th_pc th \<noteq> P_queued \<and> rank_of (th_rpc th) = i)"
    and "\<forall>i < n. bits' ! i \<longrightarrow> bits ! i \<or> i = rank_of (th_rpc th')"
    and "bcast_bitmap C' = [bits']" and "bcast_values C' = [val']" and "bcast_events C' = [BcastEvent 0]"
    and "length bits' = n" and "BcastEvent 0 \<in> set_events C' \<longleftrightarrow> val' \<noteq> None"
  shows "round_inv n v (S\<lparr>ctl := C', threads := (threads S)[t := th']\<rparr>)"
proof -
  have mem: "th \<in> set ((threads S)[t := th']) \<Longrightarrow> th = th' \<or> th \<in> set (threads S)" for th
    using set_update_subset_insert [of "threads S" t th'] by blast
  have mono: "round_thread v val th \<Longrightarrow> round_thread v val' th" for th
    using assms(6,7) by (auto simp: round_thread_def split: pc.splits)
  have th': "th' \<in> set ((threads S)[t := th'])" using assms(1) by (simp add: set_update_memI)
  have "\<exists>th \<in> set ((threads S)[t := th']). th_pc th \<noteq> P_queued \<and> rank_of (th_rpc th) = i"
    if "i < n" "bits' ! i" for i
  proof (cases "i = rank_of (th_rpc th')")
    case True
    then show ?thesis using th' assms(3) by blast
  next
    case False
    then have "bits ! i" using assms(9) that by blast
    with assms(8) \<open>i < n\<close> obtain th where "th \<in> set (threads S)" "th_pc th \<noteq> P_queued"
      "rank_of (th_rpc th) = i" by blast
    then obtain u where u: "u < length (threads S)" "th_pc (threads S ! u) \<noteq> P_queued"
      "rank_of (th_rpc (threads S ! u)) = i" by (auto simp: in_set_conv_nth)
    then have "u \<noteq> t" using False assms(2) by auto
    then have "(threads S)[t := th'] ! u = threads S ! u" by simp
    then show ?thesis using u by (metis length_list_update nth_mem)
  qed
  moreover have "\<forall>th \<in> set ((threads S)[t := th']). round_thread v val' th"
    using mem mono assms(4,5) by blast
  moreover have "val' = None \<or> val' = Some v" using assms(6,7) by blast
  ultimately have "joined_round n v bits' val' (S\<lparr>ctl := C', threads := (threads S)[t := th']\<rparr>)"
    using assms(10-14) by (simp add: joined_round_def)
  then show ?thesis unfolding round_inv_def by blast
qed

lemma round_step:
  assumes "server_inv S" and "serve a S = Some S'" and "one_round n rt v (map th_rpc (threads S))"
    and "round_inv n v S"
  shows "round_inv n v S'"
proof (cases a)
  case (Call r)
  then show ?thesis
    using assms(2,4)
    by (auto simp: round_inv_def fresh_round_def joined_round_def new_thread_def round_thread_def)
next
  case (Run t)
  let ?th = "threads S ! t" and ?C = "ctl S"
  from run_cases [OF assms(1) assms(2) [unfolded Run]] obtain th' C' where
    t: "t < length (threads S)" and st: "thread_step ?th ?C = Some (th', C')"
    and rpc: "th_rpc th' = th_rpc ?th"
    and S': "S' = S\<lparr>ctl := C', threads := (threads S)[t := th']\<rparr>" by metis
  have "round_call n rt v (th_rpc ?th)"
    using assms(3) t by (simp add: one_round_def list_all_iff)
  then obtain r where r: "th_rpc ?th = Broadcast_rpc r" "unat (bc_num_workers r) = n" "bc_root r = rt"
    "unat (bc_rank r) < n" "bc_rank r = rt \<longrightarrow> bc_value r = v" by (cases "th_rpc ?th") auto
  from assms(4) consider (first) "fresh_round S" | (joined) bits val where "joined_round n v bits val S"
    unfolding round_inv_def by blast
  then show ?thesis
  proof cases
    case first
    then have first: "bcast_bitmap ?C = []" "bcast_values ?C = []" "bcast_events ?C = []"
      "bcast_created ?C = 0" "BcastEvent 0 \<notin> set_events ?C" "\<forall>th \<in> set (threads S). th_pc th = P_queued"
      by (simp_all add: fresh_round_def)
    let ?bits = "replicate n False" and ?A = "append_operation n ?C"
    have q: "th_pc ?th = P_queued" using first(6) t by simp
    have th': "th' = ?th\<lparr>th_idx := Some 0,
        th_event := (if bc_rank r \<noteq> rt then Some (BcastEvent 0) else None),
        th_pc := (if bc_rank r \<noteq> rt then P_wait (BcastEvent 0) else P_reply)\<rparr>"
      and C': "C' = join_round r ?bits None ?A"
      using st r q enter_new [OF first(1-4), of r] by auto
    show ?thesis
      unfolding S'
      by (rule round_inv_update [OF t rpc, where val = None and bits = ?bits
            and val' = "if bc_rank r = rt then Some v else None"
            and bits' = "if bc_rank r = rt then ?bits[unat (bc_rank r) := True] else ?bits"])
        (use first r th' C' in \<open>auto simp: round_thread_def join_round_def append_operation_def nth_list_update split: if_splits\<close>)
  next
    case (joined bits val)
    then have joined: "bcast_bitmap ?C = [bits]" "bcast_values ?C = [val]"
      "bcast_events ?C = [BcastEvent 0]" "length bits = n" "val = None \<or> val = Some v"
      "BcastEvent 0 \<in> set_events ?C \<longleftrightarrow> val \<noteq> None" "\<forall>th \<in> set (threads S). round_thread v val th"
      "\<forall>i < n. bits ! i \<longrightarrow> (\<exists>th \<in> set (threads S). th_pc th \<noteq> P_queued \<and> rank_of (th_rpc th) = i)"
      unfolding joined_round_def by blast+
    have ok: "round_thread v val ?th" using joined(7) t by simp
    have dist: "distinct (map rank_of (map th_rpc (threads S)))" using assms(3) by (simp add: one_round_def)
    consider (start) "th_pc ?th = P_queued" | (wait) "th_pc ?th = P_wait (BcastEvent 0)" "th_idx ?th = Some 0"
      | (leave) "th_pc ?th = P_leave" "th_idx ?th = Some 0" "val = Some v"
      | (reply) "th_pc ?th = P_reply" "th_idx ?th = Some 0" "val = Some v"
      using ok st by (cases "th_pc ?th") (auto simp: round_thread_def)
    then show ?thesis
    proof cases
      case start
      have "\<not> bits ! unat (bc_rank r)"
      proof
        assume "bits ! unat (bc_rank r)"
        with joined(8) r(4) obtain th where "th \<in> set (threads S)" "th_pc th \<noteq> P_queued"
          "rank_of (th_rpc th) = unat (bc_rank r)" by blast
        then obtain u where "u < length (threads S)" "th_pc (threads S ! u) \<noteq> P_queued"
          "rank_of (th_rpc (threads S ! u)) = unat (bc_rank r)" by (auto simp: in_set_conv_nth)
        moreover from this have "u \<noteq> t" using start by auto
        ultimately show False
          using dist t r(1) nth_eq_iff_index_eq [OF dist, of u t] by simp
      qed
      then have en: "Broadcast_enter r ?C =
          (Inr (0, if bc_rank r \<noteq> bc_root r \<and> val = None then Some (BcastEvent 0) else None),
           join_round r bits val ?C)"
        using joined(4) r(4) by (intro enter_join [OF joined(1-3)]) simp_all
      have th': "th' = ?th\<lparr>th_idx := Some 0,
          th_event := (if bc_rank r \<noteq> rt \<and> val = None then Some (BcastEvent 0) else None),
          th_pc := (if bc_rank r \<noteq> rt \<and> val = None then P_wait (BcastEvent 0) else P_reply)\<rparr>"
        and C': "C' = join_round r bits val ?C"
        using st r start en by auto
      show ?thesis
        unfolding S'
        by (rule round_inv_update [OF t rpc, where val = val and bits = bits
              and val' = "if bc_rank r = rt then Some v else val"
              and bits' = "if bc_rank r = rt \<or> val \<noteq> None then bits[unat (bc_rank r) := True] else bits"])
          (use joined r th' C' in \<open>auto simp: round_thread_def join_round_def nth_list_update split: if_splits\<close>)
    next
      case wait
      then have "val = Some v" "th' = ?th\<lparr>th_pc := P_leave\<rparr>" "C' = ?C"
        using st joined(5,6) by (auto split: if_splits)
      then show ?thesis
        unfolding S' using joined wait
        by (intro round_inv_update [OF t rpc, where val = val and bits = bits and val' = val and bits' = bits])
          (auto simp: round_thread_def)
    next
      case leave
      have "mark 0 (unat (bc_rank r)) ?C = (Inr (), ?C\<lparr>bcast_bitmap := [bits[unat (bc_rank r) := True]]\<rparr>)"
        using joined(1,4) r(4) by (simp add: mark_def py_defs)
      then have th': "th' = ?th\<lparr>th_pc := P_reply\<rparr>"
        and C': "C' = ?C\<lparr>bcast_bitmap := [bits[unat (bc_rank r) := True]]\<rparr>"
        using st leave r(1) by auto
      show ?thesis
        unfolding S'
        by (rule round_inv_update [OF t rpc, where val = val and bits = bits and val' = val
              and bits' = "bits[unat (bc_rank r) := True]"])
          (use joined leave r th' C' in \<open>auto simp: round_thread_def nth_list_update\<close>)
    next
      case reply
      have "Broadcast_reply 0 ?C = (Inr \<lparr>br_value = v\<rparr>, ?C)"
        using joined(2) reply(3) by (simp add: Broadcast_reply_def py_defs)
      then have "th' = ?th\<lparr>th_pc := P_done (Broadcast_response \<lparr>br_value = v\<rparr>)\<rparr>" "C' = ?C"
        using st reply r(1) by auto
      then show ?thesis
        unfolding S' using joined reply
        by (intro round_inv_update [OF t rpc, where val = val and bits = bits and val' = val and bits' = bits])
          (auto simp: round_thread_def)
    qed
  qed
qed

lemma one_round_append: "one_round n rt v (rs @ rs') \<Longrightarrow> one_round n rt v rs"
  by (simp add: one_round_def)

end
