(* ===== verification/Controller_Properties.thy ===== *)
theory Controller_Properties
  imports Controller_Session Controller_Broadcast
begin

text \<open>
  The properties of the controller, each for every interleaving of the handlers (\<open>served\<close>).
\<close>

section \<open>Schedules for the examples\<close>

definition barrier_call :: "nat \<Rightarrow> rpc" where
  "barrier_call n = Barrier_rpc \<lparr>ba_num_workers = word_of_nat n\<rparr>"

text \<open>Two workers meet; the second one releases the first.\<close>

definition two_workers :: "server_action list" where
  "two_workers = [Call (barrier_call 2), Call (barrier_call 2), Run 0, Run 0, Run 1, Run 1, Run 1]"

definition after_actions :: "server_action list \<Rightarrow> server" where
  "after_actions as = the (serve_all as new_server)"

lemma served_after: "serve_all as new_server \<noteq> None \<Longrightarrow> served (after_actions as)"
  unfolding after_actions_def by (rule served_all [OF served_new]) simp

lemma two_workers_runs: "serve_all two_workers new_server \<noteq> None"
  by (simp add: two_workers_def barrier_call_def new_server_def new_controller_def new_thread_def
      can_run_def Barrier_enter_def count_arrival_def release_or_join_def must_wait_def py_defs POOL_SIZE_def)

lemma two_workers_threads:
  "map th_pc (threads (after_actions two_workers)) = [P_wait (BarrierEvent 0), P_done Barrier_reply]"
  "map th_op (threads (after_actions two_workers)) = [Some 0, Some 0]"
  "map th_rpc (threads (after_actions two_workers)) = [barrier_call 2, barrier_call 2]"
  by (simp_all add: after_actions_def two_workers_def barrier_call_def new_server_def new_controller_def
      new_thread_def can_run_def Barrier_enter_def count_arrival_def release_or_join_def must_wait_def
      py_defs POOL_SIZE_def)

section \<open>Barriers\<close>

text \<open>
  C29. No call of \<open>Barrier\<close> ever raises an exception, and no call at all raises a \<open>KeyError\<close>, for
  every mix of calls and every interleaving: although the counters are read outside the lock and
  deleted by whoever leaves last, the entry of an operation is there as long as a handler still
  relies on it.
\<close>

theorem barrier_never_fails:
  assumes "served S" and "th \<in> set (threads S)" and "th_pc th = P_failed e"
  shows "e \<noteq> KeyError \<and> (\<forall>r. th_rpc th \<noteq> Barrier_rpc r)"
proof -
  have "thread_ok (ctl S) th" using inv_served [OF assms(1)] assms(2) by (simp add: server_inv_def)
  then show ?thesis using assms(3) by (auto simp: thread_ok_def split: if_splits)
qed

text \<open>A worker asks for a session that has no root.\<close>

definition lone_worker :: "server_action list" where
  "lone_worker = [Call (RdmaSession_rpc (new_RdmaSessionRequest\<lparr>rq_num_workers := 1\<rparr>)), Run 0, Run 0, Run 0]"

lemma lone_worker_fails:
  "serve_all lone_worker new_server \<noteq> None"
  "map th_pc (threads (after_actions lone_worker)) = [P_failed AttributeError]"
  by (simp_all add: after_actions_def lone_worker_def new_RdmaSessionRequest_def new_server_def
      new_controller_def new_thread_def can_run_def RdmaSession_enter_def RdmaSession_reply_def
      add_to_session_def count_arrival_def release_or_join_def must_wait_def py_defs POOL_SIZE_def Let_def)

theorem barrier_never_fails_witness:
  "th_pc (threads (after_actions lone_worker) ! 0) = P_failed AttributeError \<and>
   (\<forall>r. th_rpc (threads (after_actions lone_worker) ! 0) \<noteq> Barrier_rpc r)"
proof -
  have len: "length (threads (after_actions lone_worker)) = 1"
    using arg_cong [OF lone_worker_fails(2), of length] by simp
  then have "th_pc (threads (after_actions lone_worker) ! 0) = P_failed AttributeError"
    using arg_cong [OF lone_worker_fails(2), of "\<lambda>xs. xs ! 0"] by simp
  then show ?thesis
    using barrier_never_fails [OF served_after [OF lone_worker_fails(1)], of "threads (after_actions lone_worker) ! 0"]
      len by simp
qed

text \<open>
  C30. Nobody passes a barrier early. When all barrier and session calls name the same number
  \<open>n\<close> of workers, a handler that is past the rendezvous of operation \<open>k\<close> (it is leaving, replying
  or has ended) is one of exactly \<open>n\<close> calls that have arrived at \<open>k\<close>.
\<close>

theorem barrier_holds:
  assumes "served S" and "uniform n S" and "1 \<le> n"
    and "th \<in> set (threads S)" and "th_op th = Some k" and "\<not> held th"
  shows "length (filter (in_op k) (threads S)) = n"
proof -
  note r = rounds_served [OF assms(1-3), unfolded rounds_def]
  have "thread_ok (ctl S) th" using inv_served [OF assms(1)] assms(4) by (simp add: server_inv_def)
  then have "k \<le> barrier_op_id (ctl S)"
    using assms(5) by (auto simp: thread_ok_def arrived_ok_def split: if_splits)
  moreover have "k \<noteq> barrier_op_id (ctl S)" using r assms(4-6) by (auto simp: in_op_def)
  ultimately show ?thesis using r by (simp add: tally_filter)
qed

theorem barrier_holds_witness:
  "th_pc (threads (after_actions two_workers) ! 1) = P_done Barrier_reply \<and>
   length (filter (in_op 0) (threads (after_actions two_workers))) = 2"
proof -
  let ?S = "after_actions two_workers"
  have len: "length (threads ?S) = 2" using arg_cong [OF two_workers_threads(1), of length] by simp
  then have th: "th_pc (threads ?S ! 1) = P_done Barrier_reply" "th_op (threads ?S ! 1) = Some 0"
    using arg_cong [OF two_workers_threads(1), of "\<lambda>xs. xs ! 1"]
      arg_cong [OF two_workers_threads(2), of "\<lambda>xs. xs ! 1"] by simp_all
  have "uniform 2 ?S" unfolding uniform_rpcs two_workers_threads(3) by (simp add: barrier_call_def)
  then show ?thesis
    using barrier_holds [OF served_after [OF two_workers_runs], of 2 "threads ?S ! 1" 0] len th
    by (simp add: held_def)
qed

definition all_returned :: "server \<Rightarrow> bool" where
  "all_returned S \<longleftrightarrow> (\<forall>th \<in> set (threads S). \<exists>x. th_pc th = P_done x)"

lemma maximal_run:
  "\<exists>ts S'. serve_all (map Run ts) S = Some S' \<and> (\<forall>t. serve (Run t) S' = None)"
proof (induction "work S" arbitrary: S rule: less_induct)
  case less
  show ?case
  proof (cases "\<forall>t. serve (Run t) S = None")
    case True
    then have "serve_all (map Run []) S = Some S \<and> (\<forall>t. serve (Run t) S = None)" by simp
    then show ?thesis by blast
  next
    case False
    then obtain t S1 where S1: "serve (Run t) S = Some S1" by (metis option.exhaust)
    from less [OF work_step [OF S1]] obtain ts S' where
      "serve_all (map Run ts) S1 = Some S' \<and> (\<forall>t. serve (Run t) S' = None)" by blast
    then have "serve_all (map Run (t # ts)) S = Some S' \<and> (\<forall>t. serve (Run t) S' = None)"
      using S1 by (simp del: serve.simps)
    then show ?thesis by blast
  qed
qed

lemma run_rpcs:
  assumes "served S" and "serve_all (map Run ts) S = Some S'"
  shows "served S' \<and> map th_rpc (threads S') = map th_rpc (threads S)"
  using assms
proof (induction ts arbitrary: S)
  case (Cons t ts)
  then obtain S1 where S1: "serve (Run t) S = Some S1" "serve_all (map Run ts) S1 = Some S'"
    by (auto split: option.splits)
  from run_cases [OF inv_served [OF Cons.prems(1)] S1(1)] obtain th' C' where
    "t < length (threads S)" "th_rpc th' = th_rpc (threads S ! t)"
    "S1 = S\<lparr>ctl := C', threads := (threads S)[t := th']\<rparr>" by metis
  then have "map th_rpc (threads S1) = map th_rpc (threads S)" using map_rpc_update by simp
  then show ?case using Cons.IH [OF served_step [OF Cons.prems(1) S1(1)] S1(2)] by simp
qed simp

definition only_barriers :: "nat \<Rightarrow> rpc list \<Rightarrow> bool" where
  "only_barriers n rs \<longleftrightarrow> list_all (\<lambda>r. \<exists>b. r = Barrier_rpc b \<and> unat (ba_num_workers b) = n) rs"

lemma blocked_returned:
  assumes "served S" and "only_barriers n (map th_rpc (threads S))" and "1 \<le> n" and "n \<le> POOL_SIZE"
    and "n dvd length (threads S)" and "\<forall>t. serve (Run t) S = None"
  shows "all_returned S"
proof -
  have rpc: "\<exists>b. th_rpc th = Barrier_rpc b \<and> unat (ba_num_workers b) = n" if "th \<in> set (threads S)" for th
    using assms(2) that by (auto simp: only_barriers_def list_all_iff)
  have u: "uniform n S" unfolding uniform_def using rpc by fastforce
  have rv: "\<forall>th \<in> set (threads S). rendezvous (th_rpc th)" using rpc by fastforce
  have "\<exists>x. th_pc th = P_done x" if th: "th \<in> set (threads S)" for th
  proof -
    have "ended th" using all_ended [OF assms(1) u assms(3,4) rv assms(5,6)] th by blast
    moreover have "th_pc th \<noteq> P_failed e" for e
    proof
      assume f: "th_pc th = P_failed e"
      have "thread_ok (ctl S) th" using inv_served [OF assms(1)] th by (simp add: server_inv_def)
      then show False using f rpc [OF th] by (auto simp: thread_ok_def)
    qed
    ultimately show ?thesis by (auto simp: ended_def)
  qed
  then show ?thesis by (simp add: all_returned_def)
qed

text \<open>
  C31. Barriers complete. With at most as many workers as the pool has threads, and a number of
  calls that fills whole rounds, the handlers can run until all calls have returned; every run of
  handlers has at most five steps per call, and one that cannot go on has returned from all calls.
\<close>

theorem barrier_completes:
  assumes "served S" and "only_barriers n (map th_rpc (threads S))" and "1 \<le> n" and "n \<le> POOL_SIZE"
    and "n dvd length (threads S)"
  shows "(\<exists>ts S'. serve_all (map Run ts) S = Some S' \<and> all_returned S') \<and>
    (\<forall>ts S'. serve_all (map Run ts) S = Some S' \<longrightarrow> length ts \<le> 5 * length (threads S) \<and>
       ((\<forall>t. serve (Run t) S' = None) \<longrightarrow> all_returned S'))"
proof -
  have fin: "all_returned S'" if "serve_all (map Run ts) S = Some S'" "\<forall>t. serve (Run t) S' = None" for ts S'
  proof -
    have r: "served S'" "map th_rpc (threads S') = map th_rpc (threads S)"
      using run_rpcs [OF assms(1) that(1)] by simp_all
    have "length (threads S') = length (threads S)" using arg_cong [OF r(2), of length] by simp
    then show ?thesis using blocked_returned [OF r(1) _ assms(3,4) _ that(2)] assms(2,5) r(2) by simp
  qed
  have "length ts \<le> 5 * length (threads S)" if "serve_all (map Run ts) S = Some S'" for ts S'
    using runs_bounded [OF that] work_le [of S] by simp
  then show ?thesis using fin maximal_run [of S] by blast
qed

theorem barrier_completes_witness:
  "\<exists>ts S'. serve_all (map Run ts) (after_actions two_workers) = Some S' \<and> all_returned S'"
  using barrier_completes [OF served_after [OF two_workers_runs], of 2]
    arg_cong [OF two_workers_threads(1), of length]
  by (simp add: two_workers_threads(3) only_barriers_def barrier_call_def POOL_SIZE_def)

text \<open>
  C32. Barriers of more workers than the pool has threads never complete: a waiting handler keeps
  its thread, so the call that would release the others never starts, and no call returns.
\<close>

theorem barrier_starves:
  assumes "served S" and "only_barriers n (map th_rpc (threads S))" and "POOL_SIZE < n"
    and "th \<in> set (threads S)"
  shows "th_pc th = P_queued \<or> held th"
proof -
  obtain b where rpc: "th_rpc th = Barrier_rpc b"
    using assms(2,4) by (auto simp: only_barriers_def list_all_iff)
  have u: "uniform n S" using assms(2) by (auto simp: uniform_rpcs only_barriers_def list_all_iff)
  have "barrier_op_id (ctl S) = 0" using starved_served [OF assms(1) u assms(3)] by (simp add: starved_def)
  moreover have "thread_ok (ctl S) th" using inv_served [OF assms(1)] assms(4) by (simp add: server_inv_def)
  ultimately have "th_pc th = P_queued \<or> in_op (barrier_op_id (ctl S)) th"
    using rpc by (auto simp: thread_ok_def arrived_ok_def in_op_def split: if_splits)
  then show ?thesis
    using rounds_served [OF assms(1) u] assms(3,4) by (auto simp: rounds_def POOL_SIZE_def)
qed

definition eleven_workers :: "server_action list" where
  "eleven_workers = [Call (barrier_call 11), Run 0, Run 0]"

lemma eleven_workers_runs:
  "serve_all eleven_workers new_server \<noteq> None"
  "map th_pc (threads (after_actions eleven_workers)) = [P_wait (BarrierEvent 0)]"
  "map th_rpc (threads (after_actions eleven_workers)) = [barrier_call 11]"
  by (simp_all add: after_actions_def eleven_workers_def barrier_call_def new_server_def new_controller_def
      new_thread_def can_run_def Barrier_enter_def count_arrival_def release_or_join_def must_wait_def
      py_defs POOL_SIZE_def)

theorem barrier_starves_witness:
  "held (threads (after_actions eleven_workers) ! 0)"
proof -
  let ?S = "after_actions eleven_workers"
  have len: "length (threads ?S) = 1" using arg_cong [OF eleven_workers_runs(2), of length] by simp
  have "only_barriers 11 (map th_rpc (threads ?S))"
    by (simp add: eleven_workers_runs(3) only_barriers_def barrier_call_def)
  from barrier_starves [OF served_after [OF eleven_workers_runs(1)] this, of "threads ?S ! 0"] len
  show ?thesis
    using arg_cong [OF eleven_workers_runs(2), of "\<lambda>xs. xs ! 0"] by (simp add: POOL_SIZE_def)
qed

text \<open>The \<open>i\<close>-th barrier of a worker on its own, and the server after \<open>k\<close> of them.\<close>

definition alone :: "nat \<Rightarrow> server_action list" where
  "alone i = [Call (barrier_call 1), Run i, Run i, Run i]"

definition after_alone :: "nat \<Rightarrow> server" where
  "after_alone k =
     \<lparr>ctl = new_controller\<lparr>barrier_op_id := k,
        barrier_ctrs := (\<lambda>i. if i < k then Some 1 else if i = k then Some 0 else None),
        barrier_events := (\<lambda>i. if i \<le> k then Some (BarrierEvent i) else None),
        set_events := BarrierEvent ` {..<k}\<rparr>,
      threads = map (\<lambda>i. \<lparr>th_rpc = barrier_call 1, th_op = Some i, th_idx = None,
        th_event = Some (BarrierEvent i), th_pc = P_done Barrier_reply\<rparr>) [0..<k]\<rparr>"

lemma serve_all_append:
  "serve_all (as @ bs) S = (case serve_all as S of None \<Rightarrow> None | Some S \<Rightarrow> serve_all bs S)"
  by (induction as arbitrary: S) (auto split: option.split)

lemma none_running: "filter running (threads (after_alone k)) = []"
  by (simp add: after_alone_def filter_empty_conv)

lemma one_alone: "serve_all (alone k) (after_alone k) = Some (after_alone (Suc k))"
proof -
  have ctrs: "(\<lambda>i. if i < k then Some 1 else if i = k then Some 0 else None)(k \<mapsto> 1, Suc k \<mapsto> 0) =
      (\<lambda>i. if i < Suc k then Some 1 else if i = Suc k then Some (0 :: int) else None)"
    by (auto simp: fun_eq_iff)
  have evs: "(\<lambda>i. if i \<le> k then Some (BarrierEvent i) else None)(Suc k \<mapsto> BarrierEvent (Suc k)) =
      (\<lambda>i. if i \<le> Suc k then Some (BarrierEvent i) else None)"
    by (auto simp: fun_eq_iff)
  have set: "insert (BarrierEvent k) (BarrierEvent ` {..<k}) = BarrierEvent ` {..<Suc k}"
    by (simp add: lessThan_Suc)
  have no: "filter running (map (\<lambda>i. \<lparr>th_rpc = barrier_call 1, th_op = Some i, th_idx = None,
        th_event = Some (BarrierEvent i), th_pc = P_done Barrier_reply\<rparr>) [0..<k]) = []"
    by (simp add: filter_empty_conv)
  show ?thesis
    using no
    by (simp add: alone_def after_alone_def new_controller_def new_thread_def can_run_def barrier_call_def
        Barrier_enter_def count_arrival_def release_or_join_def must_wait_def py_defs POOL_SIZE_def
        nth_append list_update_append ctrs evs set del: filter_map)
qed

text \<open>
  The entries of finished barriers are not removed: a worker on its own never waits, so its
  entry is not counted down, and after \<open>k\<close> such barriers, all returned, the controller keeps the
  counters and events of all of them.
\<close>

theorem barrier_entries_leak:
  "serve_all (concat (map alone [0..<k])) new_server = Some (after_alone k) \<and>
   all_returned (after_alone k) \<and>
   (\<forall>i \<le> k. barrier_ctrs (ctl (after_alone k)) i \<noteq> None \<and> barrier_events (ctl (after_alone k)) i \<noteq> None)"
proof -
  have "serve_all (concat (map alone [0..<k])) new_server = Some (after_alone k)"
  proof (induction k)
    case 0
    show ?case by (simp add: after_alone_def new_server_def new_controller_def fun_eq_iff)
  next
    case (Suc k)
    then show ?case using one_alone by (simp add: serve_all_append)
  qed
  then show ?thesis by (simp add: all_returned_def after_alone_def)
qed

section \<open>Broadcasts\<close>

lemma round_served:
  "served S \<Longrightarrow> one_round n rt v (map th_rpc (threads S)) \<Longrightarrow> round_inv n v S"
proof (induction rule: served.induct)
  case served_new
  then show ?case by (simp add: round_inv_def fresh_round_def new_server_def new_controller_def)
next
  case (served_step S a S')
  note inv = inv_served [OF served_step.hyps(1)]
  obtain rs where "map th_rpc (threads S') = map th_rpc (threads S) @ rs"
    using same_rpcs [OF inv served_step.hyps(2)] by blast
  then have r: "one_round n rt v (map th_rpc (threads S))"
    using one_round_append served_step.prems by metis
  show ?case using round_step [OF inv served_step.hyps(2) r served_step.IH [OF r]] .
qed

text \<open>
  C33. A broadcast delivers the root's value. In a round where every worker calls once, with its
  own rank and the same root, every call that returns has the root's value \<open>v\<close>, whatever the order
  in which the handlers run, and no call raises an exception.
\<close>

theorem broadcast_agrees:
  assumes "served S" and "one_round n rt v (map th_rpc (threads S))" and "th \<in> set (threads S)"
  shows "th_pc th \<noteq> P_failed e \<and>
    (th_pc th = P_done x \<longrightarrow> x = Broadcast_response \<lparr>br_value = v\<rparr>)"
  using round_served [OF assms(1,2)] assms(3)
  by (fastforce simp: round_inv_def fresh_round_def joined_round_def round_thread_def)

definition bcast_call :: "64 word \<Rightarrow> nat \<Rightarrow> rpc" where
  "bcast_call v rank = Broadcast_rpc
     \<lparr>bc_value = v, bc_rank = word_of_nat rank, bc_num_workers = 2, bc_root = 0\<rparr>"

text \<open>The other worker calls first and waits for the root.\<close>

definition late_root :: "server_action list" where
  "late_root = [Call (bcast_call 9 1), Run 0, Call (bcast_call 5 0), Run 1, Run 0, Run 1, Run 0, Run 0]"

lemma replicate_two: "replicate 2 x = [x, x]"
  by (simp add: numeral_2_eq_2)

lemmas bcast_run_defs = replicate_two after_actions_def bcast_call_def new_server_def new_controller_def
  new_thread_def can_run_def Broadcast_enter_def Broadcast_reply_def cleanup_def cleanup_at_def
  append_operation_def mark_def py_delete_at_def py_defs POOL_SIZE_def

lemma late_root_runs:
  "serve_all late_root new_server \<noteq> None"
  "map th_pc (threads (after_actions late_root)) =
     [P_done (Broadcast_response \<lparr>br_value = 5\<rparr>), P_done (Broadcast_response \<lparr>br_value = 5\<rparr>)]"
  "map th_rpc (threads (after_actions late_root)) = [bcast_call 9 1, bcast_call 5 0]"
  by (simp_all add: late_root_def bcast_run_defs)

theorem broadcast_agrees_witness:
  "th_pc (threads (after_actions late_root) ! 0) = P_done (Broadcast_response \<lparr>br_value = 5\<rparr>) \<and>
   th_pc (threads (after_actions late_root) ! 0) \<noteq> P_failed IndexError"
proof -
  let ?S = "after_actions late_root"
  have len: "length (threads ?S) = 2" using arg_cong [OF late_root_runs(2), of length] by simp
  have "one_round 2 0 5 (map th_rpc (threads ?S))"
    by (simp add: late_root_runs(3) one_round_def bcast_call_def)
  from broadcast_agrees [OF served_after [OF late_root_runs(1)] this, of "threads ?S ! 0" IndexError
      "Broadcast_response \<lparr>br_value = 5\<rparr>"] len
  show ?thesis using arg_cong [OF late_root_runs(2), of "\<lambda>xs. xs ! 0"] by simp
qed

text \<open>The root starts its second broadcast before the other worker has replied to the first.\<close>

definition next_round :: "64 word \<Rightarrow> 64 word \<Rightarrow> server_action list" where
  "next_round v v' = [Call (bcast_call v 0), Run 0, Run 0, Call (bcast_call 0 1), Run 1,
     Call (bcast_call v' 0), Run 2, Run 1]"

text \<open>
  Two rounds can mix. A worker whose call is about to return reads the value by its index,
  after it has released the lock; when the root has started the next broadcast by then, the
  finished operation is gone and the worker returns the next value.
\<close>

theorem broadcast_rounds_mix:
  "\<exists>S. serve_all (next_round v v') new_server = Some S \<and>
     th_pc (threads S ! 0) = P_done (Broadcast_response \<lparr>br_value = v\<rparr>) \<and>
     th_pc (threads S ! 1) = P_done (Broadcast_response \<lparr>br_value = v'\<rparr>)"
  by (simp add: next_round_def bcast_run_defs)

section \<open>Sessions\<close>

lemma response_info_request [simp]: "response_info (session_response r) = request_info r"
  by (simp add: response_info_def session_response_def request_info_def)

lemma session_exchanged:
  assumes "served S"
    and "map th_rpc (threads S) =
      [RdmaSession_rpc (session_request sid rank 2 rt mac ip q),
       RdmaSession_rpc (session_request sid rank' 2 1 mac' ip' q')]"
    and "rt \<noteq> 1"
  shows "(\<forall>i < 2. \<forall>e. th_pc (threads S ! i) \<noteq> P_failed e) \<and>
    (\<forall>x. th_pc (threads S ! 0) = P_done (RdmaSession_response x) \<longrightarrow> response_info x = q') \<and>
    (\<forall>x. th_pc (threads S ! 1) = P_done (RdmaSession_response x) \<longrightarrow> response_info x = q)"
proof -
  let ?a = "session_request sid rank 2 rt mac ip q" and ?b = "session_request sid rank' 2 1 mac' ip' q'"
  have pair: "pair ?a ?b" using assms(3) by (simp add: pair_def)
  have "?a \<noteq> ?b"
  proof
    assume "?a = ?b"
    from arg_cong [OF this, of rq_root] show False using assms(3) by simp
  qed
  then have calls: "pair_calls ?a ?b (map th_rpc (threads S))" unfolding assms(2) pair_calls_def by simp
  have len: "length (threads S) = 2" using arg_cong [OF assms(2), of length] by simp
  have rpc: "th_rpc (threads S ! 0) = RdmaSession_rpc ?a" "th_rpc (threads S ! 1) = RdmaSession_rpc ?b"
    using arg_cong [OF assms(2), of "\<lambda>xs. xs ! 0"] arg_cong [OF assms(2), of "\<lambda>xs. xs ! 1"] len by simp_all
  have other: "x = session_response (if rq_root r = 1 then ?a else ?b)"
    if "th \<in> set (threads S)" "th_rpc th = RdmaSession_rpc r" "th_pc th = P_done (RdmaSession_response x)" for th r x
  proof -
    from session_answer [OF assms(1) that] obtain r' where
      "RdmaSession_rpc r' \<in> set (map th_rpc (threads S))"
      "rq_root r' = 1 \<longleftrightarrow> rq_root r \<noteq> 1" "x = session_response r'" by blast
    moreover from this(1) have "r' = ?a \<or> r' = ?b" unfolding assms(2) by auto
    ultimately show ?thesis using assms(3) by (cases "rq_root r = 1") auto
  qed
  have "th_pc (threads S ! i) \<noteq> P_failed e" if "i < 2" for i e
    using pair_no_failure [OF assms(1) pair calls] that len by simp
  moreover have "response_info x = q'" if "th_pc (threads S ! 0) = P_done (RdmaSession_response x)" for x
    using other [OF _ rpc(1) that] len assms(3) by simp
  moreover have "response_info x = q" if "th_pc (threads S ! 1) = P_done (RdmaSession_response x)" for x
    using other [OF _ rpc(2) that] len by simp
  ultimately show ?thesis by blast
qed

text \<open>
  C34. \<open>RdmaSession\<close> exchanges the queue pairs of its two callers. When the requests of two clients
  (one of them with \<open>root\<close> 1) for the same session are served, in any interleaving, neither call
  fails, and each client reads the other's queue pair from its response, field for field.
\<close>

theorem session_exchanges:
  assumes "served S"
    and "map th_rpc (threads S) =
      [RdmaSession_rpc (session_request sid rank 2 rt mac ip q),
       RdmaSession_rpc (session_request sid rank' 2 1 mac' ip' q')]"
    and "rt \<noteq> 1"
  shows "(\<forall>i < 2. \<forall>e. th_pc (threads S ! i) \<noteq> P_failed e) \<and>
    (\<forall>x. th_pc (threads S ! 0) = P_done (RdmaSession_response x) \<longrightarrow> response_info x = q') \<and>
    (\<forall>x. th_pc (threads S ! 1) = P_done (RdmaSession_response x) \<longrightarrow> response_info x = q)"
  using assms by (rule session_exchanged)

definition mate_info :: "32 word \<Rightarrow> QpInfo" where
  "mate_info i = \<lparr>qi_rkey = i, qi_raddr = 4096, qi_qp_num = i + 1, qi_psn = i + 2,
     qi_gid = \<lparr>subnet_prefix = 1, interface_id = ucast i\<rparr>, qi_lid = 7\<rparr>"

text \<open>The worker waits, the root releases it and replies first.\<close>

definition two_clients :: "server_action list" where
  "two_clients = [Call (RdmaSession_rpc (session_request 5 1 2 0 11 12 (mate_info 30))),
     Call (RdmaSession_rpc (session_request 5 0 2 1 21 22 (mate_info 40))),
     Run 0, Run 0, Run 1, Run 1, Run 1, Run 0, Run 0, Run 0]"

lemma two_clients_runs:
  "serve_all two_clients new_server \<noteq> None"
  "map th_pc (threads (after_actions two_clients)) =
     [P_done (RdmaSession_response (session_response (session_request 5 0 2 1 21 22 (mate_info 40)))),
      P_done (RdmaSession_response (session_response (session_request 5 1 2 0 11 12 (mate_info 30))))]"
  "map th_rpc (threads (after_actions two_clients)) =
     [RdmaSession_rpc (session_request 5 1 2 0 11 12 (mate_info 30)),
      RdmaSession_rpc (session_request 5 0 2 1 21 22 (mate_info 40))]"
  by (simp_all add: two_clients_def after_actions_def new_server_def new_controller_def
      new_thread_def can_run_def RdmaSession_enter_def RdmaSession_reply_def
      add_to_session_def count_arrival_def release_or_join_def must_wait_def leave_barrier_def py_defs
      POOL_SIZE_def Let_def)

theorem session_exchanges_witness:
  "response_info (session_response (session_request 5 0 2 1 21 22 (mate_info 40))) = mate_info 40 \<and>
   th_pc (threads (after_actions two_clients) ! 1) \<noteq> P_failed KeyError"
proof -
  let ?S = "after_actions two_clients"
  have len: "length (threads ?S) = 2" using arg_cong [OF two_clients_runs(2), of length] by simp
  from session_exchanges [OF served_after [OF two_clients_runs(1)] two_clients_runs(3)] len
  show ?thesis using arg_cong [OF two_clients_runs(2), of "\<lambda>xs. xs ! 0"] by fastforce
qed

section \<open>Dropping finished broadcasts\<close>

text \<open>The three tables as one list of rows.\<close>

definition rows :: "controller \<Rightarrow> (bool list \<times> 64 word option \<times> pyevent) list" where
  "rows C = zip (bcast_bitmap C) (zip (bcast_values C) (bcast_events C))"

definition with_rows ::
  "(bool list \<times> 64 word option \<times> pyevent) list \<Rightarrow> controller \<Rightarrow> controller" where
  "with_rows xs C =
     C\<lparr>bcast_bitmap := map fst xs, bcast_values := map (fst \<circ> snd) xs,
       bcast_events := map (snd \<circ> snd) xs\<rparr>"

definition unfinished :: "bool list \<times> 64 word option \<times> pyevent \<Rightarrow> bool" where
  "unfinished row \<longleftrightarrow> False \<in> set (fst row)"

lemma with_rows_rows:
  assumes "length (bcast_values C) = length (bcast_bitmap C)" and "length (bcast_events C) = length (bcast_bitmap C)"
  shows "with_rows (rows C) C = C"
proof -
  have "map (fst \<circ> snd) (rows C) = map fst (map snd (rows C))"
    "map (snd \<circ> snd) (rows C) = map snd (map snd (rows C))" by simp_all
  with assms show ?thesis by (simp add: with_rows_def rows_def del: map_map)
qed

lemma rows_with_rows: "rows (with_rows xs C) = xs"
  by (induction xs) (simp_all add: rows_def with_rows_def)

lemma cleanup_at_rows:
  assumes "i < length xs"
  shows "cleanup_at i (with_rows xs C) =
     with_rows (if unfinished (xs ! i) then xs else take i xs @ drop (Suc i) xs) C"
proof -
  have "list_all id (fst (xs ! i)) \<longleftrightarrow> \<not> unfinished (xs ! i)"
    by (auto simp: unfinished_def list_all_iff) (metis (full_types))
  then show ?thesis
    using assms by (simp add: cleanup_at_def with_rows_def py_delete_at_def take_map drop_map)
qed

lemma cleanup_rows:
  "k \<le> length xs \<Longrightarrow> fold cleanup_at (rev [0..<k]) (with_rows xs C) =
     with_rows (filter unfinished (take k xs) @ drop k xs) C"
proof (induction k arbitrary: xs)
  case (Suc k)
  then have k: "k < length xs" by simp
  have split: "take (Suc k) xs = take k xs @ [xs ! k]" "drop k xs = xs ! k # drop (Suc k) xs"
    using k by (simp_all add: take_Suc_conv_app_nth Cons_nth_drop_Suc)
  show ?case
  proof (cases "unfinished (xs ! k)")
    case True
    with Suc k split show ?thesis by (simp add: cleanup_at_rows)
  next
    case False
    let ?ys = "take k xs @ drop (Suc k) xs"
    have "k \<le> length ?ys" "take k ?ys = take k xs" "drop k ?ys = drop (Suc k) xs" using k by simp_all
    with Suc.IH [of ?ys] False k split(1) show ?thesis by (simp add: cleanup_at_rows)
  qed
qed simp

text \<open>
  C35. The deletion by index is a filter. In every state of the controller, the loop of \<open>cleanup\<close>,
  which deletes from three lists by index, from the last one to the first, removes exactly the
  broadcasts that every worker has read, and keeps the others in order with their values and events.
\<close>

theorem cleanup_filters:
  assumes "served S"
  shows "cleanup (ctl S) = with_rows (filter unfinished (rows (ctl S))) (ctl S) \<and>
     rows (cleanup (ctl S)) = filter unfinished (rows (ctl S))"
proof -
  let ?C = "ctl S"
  have "ctl_inv ?C" using inv_served [OF assms] by (simp add: server_inv_def)
  then have len: "length (bcast_values ?C) = length (bcast_bitmap ?C)"
    "length (bcast_events ?C) = length (bcast_bitmap ?C)" by (simp_all add: ctl_inv_def)
  then have "length (rows ?C) = length (bcast_bitmap ?C)" by (simp add: rows_def)
  then have "cleanup ?C = with_rows (filter unfinished (rows ?C)) ?C"
    using cleanup_rows [of "length (bcast_bitmap ?C)" "rows ?C" ?C] with_rows_rows [OF len]
    by (simp add: cleanup_def)
  then show ?thesis by (simp add: rows_with_rows)
qed

theorem cleanup_filters_witness:
  "rows (cleanup (ctl (after_actions late_root))) = []"
proof -
  have "rows (ctl (after_actions late_root)) = [([True, True], Some 5, BcastEvent 0)]"
    by (simp add: late_root_def bcast_run_defs rows_def)
  then have "filter unfinished (rows (ctl (after_actions late_root))) = []" by (simp add: unfinished_def)
  moreover have "rows (cleanup (ctl (after_actions late_root))) =
      filter unfinished (rows (ctl (after_actions late_root)))"
    using cleanup_filters [OF served_after [OF late_root_runs(1)]] by (rule conjunct2)
  ultimately show ?thesis by simp
qed

end
