(* ===== verification/Cluster_Properties.thy ===== *)
theory Cluster_Properties
  imports Controller_Properties Rdma_Properties
begin

text \<open>
  The parts together: two workers that find each other through the controller
  (\<^verbatim>\<open>csrc/grpc_client.cc\<close>, \<^verbatim>\<open>controller/controller.py\<close>) and connect their queue pairs with what they
  get (\<^verbatim>\<open>csrc/rdma_utils.cc\<close>), as \<^verbatim>\<open>examples/grpc_test.cc\<close> begins to.
\<close>

lemma client_gets:
  assumes "st_RdmaSession st (session_request sid rank n rt mac ip q) w = ((StatusOk, x), w')"
  shows "RdmaSession st sid rank n rt mac ip [q] [] w = (Inr [response_info x], w')"
  using assms by (simp add: RdmaSession_def)

lemma rc_connects:
  assumes "qp_modify_spec modify view" and "qp_type (view d) = IBV_QPT_RC"
    and "at_qp_state (qp_attr (view d)) = IBV_QPS_RESET"
  shows "\<exists>d1 d2. modify_qp_to_init modify d = (0, d1) \<and> modify_qp_to_rts modify nb mtu 1 d1 = Inr (0, d2) \<and>
     connected_to nb mtu (qp_attr (view d2))"
proof -
  obtain d1 where d1: "modify_qp_to_init modify d = (0, d1)" "qp_type (view d1) = IBV_QPT_RC"
    "at_qp_state (qp_attr (view d1)) = IBV_QPS_INIT"
    using qp_modify_spec.to_init [OF assms(1,3)] assms(2) by metis
  then show ?thesis using qp_modify_spec.rc_to_rts [OF assms(1) d1(2,3), of nb mtu]
    by (metis modify_qp_to_rts_def zero_neq_one)
qed

text \<open>
  C36. Two workers connect. When the controller has served the session calls of two clients, in any
  interleaving of its handlers, and both clients have got their responses, then \<open>RdmaSession\<close>
  returns to each client the queue pair of the other one, and with it \<open>modify_qp_to_init\<close> and
  \<open>modify_qp_to_rts\<close> make each client's reset RC queue pair ready to send to the other's.
\<close>

theorem workers_connect:
  assumes "served S" and "map th_rpc (threads S) =
      [RdmaSession_rpc (session_request sid rank 2 rt mac ip qa),
       RdmaSession_rpc (session_request sid rank' 2 1 mac' ip' qb)]" and "rt \<noteq> 1"
    and "map th_pc (threads S) = [P_done (RdmaSession_response xa), P_done (RdmaSession_response xb)]"
    and "st_RdmaSession sta (session_request sid rank 2 rt mac ip qa) wa = ((StatusOk, xa), wa')"
    and "st_RdmaSession stb (session_request sid rank' 2 1 mac' ip' qb) wb = ((StatusOk, xb), wb')"
    and "qp_modify_spec modify view"
    and "qp_type (view da) = IBV_QPT_RC" and "at_qp_state (qp_attr (view da)) = IBV_QPS_RESET"
    and "qp_type (view db) = IBV_QPT_RC" and "at_qp_state (qp_attr (view db)) = IBV_QPS_RESET"
  shows "\<exists>infos_a infos_b. RdmaSession sta sid rank 2 rt mac ip [qa] [] wa = (Inr infos_a, wa') \<and>
     RdmaSession stb sid rank' 2 1 mac' ip' [qb] [] wb = (Inr infos_b, wb') \<and>
     (\<exists>d1 d2. modify_qp_to_init modify da = (0, d1) \<and>
        modify_qp_to_rts modify (infos_a ! 0) mtu 1 d1 = Inr (0, d2) \<and>
        connected_to qb mtu (qp_attr (view d2))) \<and>
     (\<exists>d1 d2. modify_qp_to_init modify db = (0, d1) \<and>
        modify_qp_to_rts modify (infos_b ! 0) mtu 1 d1 = Inr (0, d2) \<and>
        connected_to qa mtu (qp_attr (view d2)))"
proof -
  have len: "length (threads S) = 2" using arg_cong [OF assms(4), of length] by simp
  have pcs: "th_pc (threads S ! 0) = P_done (RdmaSession_response xa)"
    "th_pc (threads S ! 1) = P_done (RdmaSession_response xb)"
    using arg_cong [OF assms(4), of "\<lambda>xs. xs ! 0"] arg_cong [OF assms(4), of "\<lambda>xs. xs ! 1"] len by simp_all
  have "response_info xa = qb" "response_info xb = qa"
    using session_exchanged [OF assms(1-3)] pcs by blast+
  moreover note client_gets [OF assms(5)] client_gets [OF assms(6)]
  moreover note rc_connects [OF assms(7-9), of qb mtu] rc_connects [OF assms(7,10,11), of qa mtu]
  ultimately show ?thesis by (intro exI [of _ "[qb]"] exI [of _ "[qa]"]) simp
qed

text \<open>The stub of a client that gets the given response.\<close>

definition answering :: "RdmaSessionResponse \<Rightarrow> unit stubs" where
  "answering x = \<lparr>st_RdmaSession = (\<lambda>_ w. ((StatusOk, x), w)), st_Barrier = (\<lambda>_ w. (StatusOk, w)),
     st_Broadcast = (\<lambda>_ w. ((StatusOk, \<lparr>br_value = 0\<rparr>), w))\<rparr>"

theorem workers_connect_witness:
  "\<exists>infos d1 d2. RdmaSession (answering (session_response (session_request 5 0 2 1 21 22 (mate_info 40))))
       5 1 2 0 11 12 [mate_info 30] [] () = (Inr infos, ()) \<and>
     modify_qp_to_init doc_modify (fresh_qp IBV_QPT_RC) = (0, d1) \<and>
     modify_qp_to_rts doc_modify (infos ! 0) IBV_MTU_1024 1 d1 = Inr (0, d2) \<and>
     at_dest_qp_num (qp_attr d2) = 41"
proof -
  have fresh: "qp_type (id (fresh_qp IBV_QPT_RC)) = IBV_QPT_RC"
    "at_qp_state (qp_attr (id (fresh_qp IBV_QPT_RC))) = IBV_QPS_RESET"
    by (simp_all add: fresh_qp_def zero_qp_attr_def)
  have a: "st_RdmaSession (answering x) rq () = ((StatusOk, x), ())" for x rq by (simp add: answering_def)
  from workers_connect [OF served_after [OF two_clients_runs(1)] two_clients_runs(3) _ two_clients_runs(2)
      a a doc_spec fresh fresh, of IBV_MTU_1024]
  show ?thesis by (auto simp: connected_to_def mate_info_def)
qed

end
