(* ===== verification/Send_Recv.thy ===== *)
theory Send_Recv
  imports Benchmarks Rdma_Utils Socket_Endpoint
begin

text \<open>
  The program \<^verbatim>\<open>examples/proxy_send_recv.cc\<close>: two processes, a server that receives and a client
  that sends, set up a device and a queue pair each, exchange their addresses over TCP, connect,
  hand one operation to the proxy thread, wait for it and release what they have.

  The platform (verbs library, sockets, \<open>malloc\<close>) is a parameter: a record of functions on its
  state \<open>'w\<close>. Handles are numbers, \<open>None\<close> is the null pointer. A failed \<open>CHECK\<close>, an exception
  nobody catches and a fault end the process; messages are kept, numbers in them are not.
\<close>

section \<open>A \<open>QpInfo\<close> in memory\<close>

text \<open>
  \<open>syncData\<close> sends the bytes of the structure: little endian fields at the offsets of the x86-64
  ABI (0, 8, 16, 20, 24, 32, 40; 48 bytes in all), with 4 and 6 bytes of padding.
\<close>

fun le_bytes :: "nat \<Rightarrow> nat \<Rightarrow> byte list" where
  "le_bytes 0 x = []"
| "le_bytes (Suc n) x = word_of_nat x # le_bytes n (x div 256)"

fun le_value :: "byte list \<Rightarrow> nat" where
  "le_value [] = 0"
| "le_value (b # bs) = unat b + 256 * le_value bs"

definition sizeof_QpInfo :: nat where "sizeof_QpInfo = 48"

definition qp_info_bytes :: "byte list \<Rightarrow> QpInfo \<Rightarrow> byte list" where
  "qp_info_bytes pad q =
     le_bytes 4 (unat (qi_rkey q)) @ take 4 pad @ le_bytes 8 (unat (qi_raddr q)) @
     le_bytes 4 (unat (qi_qp_num q)) @ le_bytes 4 (unat (qi_psn q)) @
     le_bytes 8 (unat (subnet_prefix (qi_gid q))) @ le_bytes 8 (unat (interface_id (qi_gid q))) @
     le_bytes 2 (unat (qi_lid q)) @ drop 4 pad"

definition field :: "byte list \<Rightarrow> nat \<Rightarrow> nat \<Rightarrow> nat" where
  "field bs off n = le_value (take n (drop off bs))"

definition qp_info_of :: "byte list \<Rightarrow> QpInfo" where
  "qp_info_of bs =
     \<lparr>qi_rkey = word_of_nat (field bs 0 4), qi_raddr = word_of_nat (field bs 8 8),
      qi_qp_num = word_of_nat (field bs 16 4), qi_psn = word_of_nat (field bs 20 4),
      qi_gid = \<lparr>subnet_prefix = word_of_nat (field bs 24 8),
                interface_id = word_of_nat (field bs 32 8)\<rparr>,
      qi_lid = word_of_nat (field bs 40 2)\<rparr>"

section \<open>The platform\<close>

record ibv_mr =
  mr_handle :: nat
  mr_lkey :: "32 word"
  mr_rkey :: "32 word"

record ibv_qp =
  qo_handle :: nat
  qo_qp_num :: "32 word"

record ibv_qp_init_attr =
  ia_send_cq :: nat
  ia_recv_cq :: nat
  ia_qp_type :: ibv_qp_type
  ia_max_send_wr :: "32 word"
  ia_max_recv_wr :: "32 word"
  ia_max_send_sge :: "32 word"
  ia_max_recv_sge :: "32 word"
  ia_max_inline_data :: "32 word"

text \<open>
  \<open>i_query_port\<close> gives the LID, the one port attribute the program uses; \<open>i_malloc\<close> gives an
  address.
\<close>

record 'w ibv =
  i_device_list :: "'w \<Rightarrow> (nat \<times> string) list option"
  i_open_device :: "nat option \<Rightarrow> 'w \<Rightarrow> nat option \<times> 'w"
  i_query_port :: "nat \<Rightarrow> 8 word \<Rightarrow> 'w \<Rightarrow> (int \<times> 16 word) \<times> 'w"
  i_query_gid :: "nat \<Rightarrow> 8 word \<Rightarrow> 8 word \<Rightarrow> 'w \<Rightarrow> (int \<times> ibv_gid) \<times> 'w"
  i_alloc_pd :: "nat \<Rightarrow> 'w \<Rightarrow> nat option \<times> 'w"
  i_malloc :: "int \<Rightarrow> 'w \<Rightarrow> 64 word option \<times> 'w"
  i_reg_mr :: "nat \<Rightarrow> 64 word \<Rightarrow> int \<Rightarrow> ibv_access list \<Rightarrow> 'w \<Rightarrow> ibv_mr option \<times> 'w"
  i_create_cq :: "nat \<Rightarrow> int \<Rightarrow> 'w \<Rightarrow> nat option \<times> 'w"
  i_create_qp :: "nat \<Rightarrow> ibv_qp_init_attr \<Rightarrow> 'w \<Rightarrow> ibv_qp option \<times> 'w"
  i_modify_qp :: "nat \<Rightarrow> 'w modify_qp"
  i_destroy_qp :: "nat \<Rightarrow> 'w \<Rightarrow> int \<times> 'w"
  i_destroy_cq :: "nat \<Rightarrow> 'w \<Rightarrow> int \<times> 'w"
  i_dereg_mr :: "nat \<Rightarrow> 'w \<Rightarrow> int \<times> 'w"
  i_free :: "64 word \<Rightarrow> 'w \<Rightarrow> 'w"
  i_dealloc_pd :: "nat \<Rightarrow> 'w \<Rightarrow> int \<times> 'w"
  i_close_device :: "nat \<Rightarrow> 'w \<Rightarrow> int \<times> 'w"

record ('a, 'w) platform =
  p_ibv :: "'w ibv"
  p_verbs :: "'w verbs"
  p_os :: "('a, 'w) sockets"

datatype main_error = Main_check string | Main_exn exn | Main_fault fault

text \<open>The parts of \<open>main\<close> that only call the platform return an error or a value.\<close>

type_synonym ('x, 'w) io = "'w \<Rightarrow> main_error + 'x \<times> 'w"

definition io_return :: "'x \<Rightarrow> ('x, 'w) io" where
  "io_return x = (\<lambda>w. Inr (x, w))"

definition io_bind :: "('x, 'w) io \<Rightarrow> ('x \<Rightarrow> ('y, 'w) io) \<Rightarrow> ('y, 'w) io" where
  "io_bind f g = (\<lambda>w. sum_bind (f w) (\<lambda>(x, w). g x w))"

text \<open>\<open>CHECK\<close> of a pointer, of a return code with a result, and of a return code.\<close>

definition check_ptr :: "string \<Rightarrow> ('w \<Rightarrow> 'x option \<times> 'w) \<Rightarrow> ('x, 'w) io" where
  "check_ptr msg f =
     (\<lambda>w. case f w of (None, _) \<Rightarrow> Inl (Main_check msg) | (Some x, w) \<Rightarrow> Inr (x, w))"

definition check_get :: "string \<Rightarrow> ('w \<Rightarrow> (int \<times> 'x) \<times> 'w) \<Rightarrow> ('x, 'w) io" where
  "check_get msg f =
     (\<lambda>w. let ((ret, x), w) = f w in if ret = 0 then Inr (x, w) else Inl (Main_check msg))"

definition check_zero :: "string \<Rightarrow> ('w \<Rightarrow> int \<times> 'w) \<Rightarrow> (unit, 'w) io" where
  "check_zero msg f =
     (\<lambda>w. let (ret, w) = f w in if ret = 0 then Inr ((), w) else Inl (Main_check msg))"

definition lift_exn :: "('w \<Rightarrow> (exn + 'x) \<times> 'w) \<Rightarrow> ('x, 'w) io" where
  "lift_exn f = (\<lambda>w. case f w of (Inl e, _) \<Rightarrow> Inl (Main_exn e) | (Inr x, w) \<Rightarrow> Inr (x, w))"

section \<open>Setting up the device\<close>

definition msg_numel :: int where "msg_numel = 16384"
definition buffer_size :: int where "buffer_size = msg_numel * 4"
definition kCompletionQueueDepth :: int where "kCompletionQueueDepth = 1024"
definition kSendQueueDepth :: nat where "kSendQueueDepth = 256"
definition kReceiveQueueDepth :: nat where "kReceiveQueueDepth = 512"
definition kScatterGatherElementCount :: "32 word" where "kScatterGatherElementCount = 1"
definition kMaxInlineData :: "32 word" where "kMaxInlineData = 16"

text \<open>What \<open>main\<close> holds after the set-up.\<close>

record objects =
  o_context :: nat
  o_lid :: "16 word"
  o_gid :: ibv_gid
  o_pd :: nat
  o_buffer :: "64 word"
  o_mr :: ibv_mr
  o_cq :: nat
  o_qp :: ibv_qp

text \<open>
  \<open>init_ibv_device\<close> for a \<open>device\<close> that is null: when no device of the list has the name, it stays
  null, and \<open>ibv_open_device\<close> dereferences it.
\<close>

definition device_missing :: "(nat \<times> string) list option \<Rightarrow> bool" where
  "device_missing devices =
     (case devices of None \<Rightarrow> False | Some ds \<Rightarrow> find_device ds ''mlx5_0'' None = None)"

definition open_device :: "'w ibv \<Rightarrow> (nat, 'w) io" where
  "open_device api = (\<lambda>w.
     if device_missing (i_device_list api w) then Inl (Main_fault NullDeref)
     else
       case init_ibv_device (i_device_list api w) (\<lambda>d. fst (i_open_device api d w)) ''mlx5_0'' None of
         Inl (CheckFailed msg) \<Rightarrow> Inl (Main_check msg)
       | Inr (device, context) \<Rightarrow> Inr (context, snd (i_open_device api device w)))"

definition init_attributes :: "nat \<Rightarrow> ibv_qp_init_attr" where
  "init_attributes cq =
     \<lparr>ia_send_cq = cq, ia_recv_cq = cq, ia_qp_type = IBV_QPT_UC,
      ia_max_send_wr = word_of_nat kSendQueueDepth, ia_max_recv_wr = word_of_nat kReceiveQueueDepth,
      ia_max_send_sge = kScatterGatherElementCount, ia_max_recv_sge = kScatterGatherElementCount,
      ia_max_inline_data = kMaxInlineData\<rparr>"

definition setup_device :: "'w ibv \<Rightarrow> (objects, 'w) io" where
  "setup_device api =
     io_bind (open_device api) (\<lambda>context.
     io_bind (check_get ''Failed to query port attributes'' (i_query_port api context IB_PORT)) (\<lambda>lid.
     io_bind (check_get ''Failed to query GID'' (i_query_gid api context IB_PORT GID_INDEX)) (\<lambda>gid.
     io_bind (check_ptr ''Failed to allocate protection domain'' (i_alloc_pd api context)) (\<lambda>pd.
     io_bind (check_ptr ''Failed to allocate buffer of size '' (i_malloc api buffer_size)) (\<lambda>buffer.
     io_bind (check_ptr ''Failed to register memory region''
       (i_reg_mr api pd buffer buffer_size
         [IBV_ACCESS_LOCAL_WRITE, IBV_ACCESS_REMOTE_WRITE, IBV_ACCESS_ZERO_BASED])) (\<lambda>mr.
     io_bind (check_ptr ''Failed to create completion queue''
       (i_create_cq api context kCompletionQueueDepth)) (\<lambda>cq.
     io_bind (check_ptr ''Failed to create queue pair'' (i_create_qp api pd (init_attributes cq))) (\<lambda>qp.
     io_return \<lparr>o_context = context, o_lid = lid, o_gid = gid, o_pd = pd, o_buffer = buffer,
                o_mr = mr, o_cq = cq, o_qp = qp\<rparr>))))))))"

text \<open>The lines between the creation of the queue pair and the exchange.\<close>

definition assign_queues :: "objects \<Rightarrow> 'f ProxyArgs \<Rightarrow> 'f ProxyArgs" where
  "assign_queues objs args =
     args\<lparr>pa_endpoint := (pa_endpoint args)\<lparr>ep_cq := o_cq objs, ep_qp := qo_handle (o_qp objs)\<rparr>,
          pa_iterations := 0\<rparr>"

definition local_info :: "objects \<Rightarrow> QpInfo" where
  "local_info objs =
     \<lparr>qi_rkey = mr_rkey (o_mr objs), qi_raddr = o_buffer objs, qi_qp_num = qo_qp_num (o_qp objs),
      qi_psn = 0, qi_gid = o_gid objs, qi_lid = o_lid objs\<rparr>"

section \<open>The two branches\<close>

text \<open>
  \<open>sock.syncData(sizeof(QpInfo), &qp_info, &neighbor_qp_info)\<close>, whose result nobody looks at:
  \<open>pad\<close> are the padding bytes of \<open>qp_info\<close>, \<open>junk\<close> is what the uninitialised \<open>neighbor_qp_info\<close>
  holds before.
\<close>

definition exchange_info ::
  "('a, 'w) sockets \<Rightarrow> SocketEndpoint \<Rightarrow> byte list \<Rightarrow> byte list \<Rightarrow> QpInfo \<Rightarrow> 'w \<Rightarrow> QpInfo \<times> 'w" where
  "exchange_info os sock pad junk qp_info w =
     (let (_, bs, w) = syncData os sock sizeof_QpInfo (qp_info_bytes pad qp_info) junk w
      in (qp_info_of bs, w))"

text \<open>\<open>CHECK(ret >= 0)\<close>: only a negative result is an error.\<close>

definition connect_qp :: "'w modify_qp \<Rightarrow> QpInfo \<Rightarrow> (unit, 'w) io" where
  "connect_qp modify neighbor_qp_info = (\<lambda>w.
     case modify_qp_to_rts modify neighbor_qp_info IBV_MTU_256 0 w of
       Inl (CheckFailed msg) \<Rightarrow> Inl (Main_check msg)
     | Inr (ret, w) \<Rightarrow> if ret \<ge> 0 then Inr ((), w) else Inl (Main_check ''Failed to modify QP to RTS state''))"

fun post_recvs :: "'w verbs \<Rightarrow> nat list \<Rightarrow> 'f ProxyArgs \<times> 'w \<Rightarrow> 'f ProxyArgs \<times> 'w" where
  "post_recvs v [] (args, w) = (args, w)"
| "post_recvs v (i # is) (args, w) =
     (let args = set_recv_id (word_of_nat i) args;
          (_, w) = v_post_recv v (ep_qp (pa_endpoint args)) (ep_recv_wr (pa_endpoint args)) w
      in post_recvs v is (args, w))"

definition prepare_receives :: "'w verbs \<Rightarrow> progress_fn ProxyArgs \<times> 'w \<Rightarrow> progress_fn ProxyArgs \<times> 'w" where
  "prepare_receives v = (\<lambda>(args, w).
     let args = args\<lparr>pa_endpoint := (pa_endpoint args)\<lparr>ep_recv_wr := \<lparr>rwr_id = 0, rwr_num_sge = 0\<rparr>\<rparr>\<rparr>;
         (args, w) = post_recvs v [0..<kSendQueueDepth] (args, w);
         args = args\<lparr>pa_endpoint := (pa_endpoint args)\<lparr>ep_available_wqes := int kReceiveQueueDepth\<rparr>\<rparr>
     in (args\<lparr>pa_progress := Some RecvBenchmark\<rparr>, w))"

definition prepare_send :: "objects \<Rightarrow> QpInfo \<Rightarrow> progress_fn ProxyArgs \<Rightarrow> progress_fn ProxyArgs" where
  "prepare_send objs neighbor_qp_info args =
     args\<lparr>pa_endpoint := (pa_endpoint args)\<lparr>
            ep_sge := \<lparr>sge_addr = o_buffer objs, sge_length = word_of_int buffer_size,
                       sge_lkey = mr_lkey (o_mr objs)\<rparr>,
            ep_send_wr := \<lparr>swr_id = 0, swr_num_sge = 1, swr_opcode = IBV_WR_RDMA_WRITE_WITH_IMM,
              swr_signaled = True, swr_remote_addr = qi_raddr neighbor_qp_info,
              swr_rkey = qi_rkey neighbor_qp_info, swr_imm_data = 0\<rparr>,
            ep_available_wqes := int kSendQueueDepth\<rparr>,
          pa_progress := Some SendBenchmark\<rparr>"

definition server_branch ::
  "('a, 'w) platform \<Rightarrow> byte list \<Rightarrow> byte list \<Rightarrow> objects \<Rightarrow> progress_fn ProxyArgs \<Rightarrow>
   (SocketEndpoint \<times> QpInfo \<times> progress_fn ProxyArgs, 'w) io" where
  "server_branch P pad junk objs args =
     io_bind (lift_exn (SocketEndpoint_server (p_os P) 12345)) (\<lambda>sock w.
     let (neighbor_qp_info, w) = exchange_info (p_os P) sock pad junk (local_info objs) w in
     io_bind (connect_qp (i_modify_qp (p_ibv P) (qo_handle (o_qp objs))) neighbor_qp_info) (\<lambda>_ w.
     let (args, w) = prepare_receives (p_verbs P) (args, w);
         (_, w) = syncReady (p_os P) sock w
     in Inr ((sock, neighbor_qp_info, args), w)) w)"

definition client_branch ::
  "('a, 'w) platform \<Rightarrow> byte list \<Rightarrow> byte list \<Rightarrow> objects \<Rightarrow> progress_fn ProxyArgs \<Rightarrow>
   (SocketEndpoint \<times> QpInfo \<times> progress_fn ProxyArgs, 'w) io" where
  "client_branch P pad junk objs args =
     io_bind (lift_exn (SocketEndpoint_client (p_os P) ''localhost'' 12345)) (\<lambda>sock w.
     let (neighbor_qp_info, w) = exchange_info (p_os P) sock pad junk (local_info objs) w in
     io_bind (connect_qp (i_modify_qp (p_ibv P) (qo_handle (o_qp objs))) neighbor_qp_info) (\<lambda>_ w.
     let (_, w) = syncReady (p_os P) sock w;
         args = prepare_send objs neighbor_qp_info args;
         (_, w) = syncReady (p_os P) sock w
     in Inr ((sock, neighbor_qp_info, args), w)) w)"

text \<open>From the device to the end of the branch, but for \<open>ProxyArgsAppend\<close>.\<close>

definition main_setup ::
  "('a, 'w) platform \<Rightarrow> bool \<Rightarrow> byte list \<Rightarrow> byte list \<Rightarrow> progress_fn ProxyArgs \<Rightarrow>
   (objects \<times> SocketEndpoint \<times> QpInfo \<times> progress_fn ProxyArgs, 'w) io" where
  "main_setup P server pad junk args =
     io_bind (setup_device (p_ibv P)) (\<lambda>objs.
     let args = assign_queues objs args in
     io_bind (check_zero ''Failed to modify QP to INIT state''
       (modify_qp_to_init (i_modify_qp (p_ibv P) (qo_handle (o_qp objs))))) (\<lambda>_.
     io_bind (if server then server_branch P pad junk objs args else client_branch P pad junk objs args)
       (\<lambda>r. io_return (objs, r))))"

section \<open>Releasing\<close>

text \<open>The release of the objects; the return codes are not looked at.\<close>

definition release :: "'w ibv \<Rightarrow> objects \<Rightarrow> 'w \<Rightarrow> 'w" where
  "release api objs w =
     (let (_, w) = i_destroy_qp api (qo_handle (o_qp objs)) w;
          (_, w) = i_destroy_cq api (o_cq objs) w;
          (_, w) = i_dereg_mr api (mr_handle (o_mr objs)) w;
          w = i_free api (o_buffer objs) w;
          (_, w) = i_dealloc_pd api (o_pd objs) w;
          (_, w) = i_close_device api (o_context objs) w
      in w)"

section \<open>\<open>main\<close> and the proxy thread\<close>

text \<open>
  \<open>main\<close> as a sequence of steps between which the thread runs: where it is, the system of handler
  and thread, and its locals. \<open>M_join\<close> is inside \<open>ProxyDestroy\<close>, \<open>M_leave\<close> the end of the block
  that declares \<open>sock\<close>.
\<close>

datatype main_pc =
    M_create | M_alloc | M_setup | M_append | M_leave | M_start | M_wait | M_release | M_destroy
  | M_join | M_return | M_error main_error

record 'w main_state =
  ms_pc :: main_pc
  ms_sys :: "(progress_fn, 'w) sys"
  ms_args :: argptr
  ms_objs :: "objects option"
  ms_sock :: "SocketEndpoint option"

abbreviation goto :: "'w main_state \<Rightarrow> main_pc \<Rightarrow> 'w main_state" where
  "goto st pc \<equiv> st\<lparr>ms_pc := pc\<rparr>"

definition on_fault :: "'w main_state \<Rightarrow> fault + 'x \<Rightarrow> ('x \<Rightarrow> 'w main_state) \<Rightarrow> 'w main_state" where
  "on_fault st r k = (case r of Inl e \<Rightarrow> goto st (M_error (Main_fault e)) | Inr x \<Rightarrow> k x)"

text \<open>
  \<open>allocateArgs\<close>, with the outcome of \<open>malloc\<close> if it needs a new block, and the three statements
  after it; \<open>channelProxyTail\<close> is the tail cell 0.
\<close>

definition alloc_args :: "nat option \<Rightarrow> 'w main_state \<Rightarrow> 'w main_state" where
  "alloc_args m st =
     (let S = ms_sys st in
      on_fault st (allocateArgs m (mem S)) (\<lambda>(p, s).
      on_fault st (store p (\<lambda>a. a\<lparr>pa_state := ProxyOpReady\<rparr>) s) (\<lambda>s.
      let s = s\<lparr>tails := (tails s)(0 \<mapsto> None)\<rparr> in
      on_fault st (store p (\<lambda>a. a\<lparr>pa_proxyTail := Some 0\<rparr>) s) (\<lambda>s.
      st\<lparr>ms_pc := M_setup, ms_args := p,
         ms_sys := S\<lparr>mem := s, owned := set_option p \<union> owned S\<rparr>\<rparr>))))"

definition setup_args ::
  "('a, 'w) platform \<Rightarrow> bool \<Rightarrow> byte list \<Rightarrow> byte list \<Rightarrow> 'w main_state \<Rightarrow> 'w main_state" where
  "setup_args P server pad junk st =
     (let S = ms_sys st in
      on_fault st (load (ms_args st) (mem S)) (\<lambda>args.
      case main_setup P server pad junk args (world S) of
        Inl e \<Rightarrow> goto st (M_error e)
      | Inr ((objs, sock, _, args), w) \<Rightarrow>
          on_fault st (store (ms_args st) (\<lambda>_. args) (mem S)) (\<lambda>s.
          st\<lparr>ms_pc := M_append, ms_objs := Some objs, ms_sock := Some sock,
             ms_sys := S\<lparr>mem := s, world := w\<rparr>\<rparr>)))"

definition append_args :: "'w main_state \<Rightarrow> 'w main_state" where
  "append_args st =
     (case ms_args st of
        None \<Rightarrow> goto st (M_error (Main_fault NullDeref))
      | Some r \<Rightarrow>
          let S = ms_sys st in
          on_fault st (ProxyArgsAppend r (mem S)) (\<lambda>s.
          st\<lparr>ms_pc := M_leave, ms_sys := S\<lparr>mem := s, owned := owned S - {r}\<rparr>\<rparr>))"

text \<open>A step of \<open>main\<close>; \<open>None\<close> when it waits or has ended.\<close>

fun main_step ::
  "('a, 'w) platform \<Rightarrow> bool \<Rightarrow> byte list \<Rightarrow> byte list \<Rightarrow> nat option \<Rightarrow> 'w main_state \<Rightarrow>
   'w main_state option" where
  "main_step P server pad junk m st =
     (let S = ms_sys st in
      case ms_pc st of
        M_create \<Rightarrow> Some (st\<lparr>ms_pc := M_alloc, ms_sys := ProxyCreate S\<rparr>)
      | M_alloc \<Rightarrow> if malloc_ok m (mem S) then Some (alloc_args m st) else None
      | M_setup \<Rightarrow> Some (setup_args P server pad junk st)
      | M_append \<Rightarrow> Some (append_args st)
      | M_leave \<Rightarrow> Some (st\<lparr>ms_pc := M_start, ms_sys := S\<lparr>world :=
            SocketEndpoint_destructor (p_os P) (the (ms_sock st)) (world S)\<rparr>\<rparr>)
      | M_start \<Rightarrow> Some (st\<lparr>ms_pc := M_wait, ms_sys := ProxyStart S\<rparr>)
      | M_wait \<Rightarrow> if ProxyWaitAllOpFinished_returns S then Some (goto st M_release) else None
      | M_release \<Rightarrow> Some (st\<lparr>ms_pc := M_destroy, ms_sys := S\<lparr>world :=
            release (p_ibv P) (the (ms_objs st)) (world S)\<rparr>\<rparr>)
      | M_destroy \<Rightarrow> Some (st\<lparr>ms_pc := M_join, ms_sys := ProxyDestroy_begin S\<rparr>)
      | M_join \<Rightarrow>
          if wpc S = W_exit
          then map_option (\<lambda>r. on_fault st r (\<lambda>S. st\<lparr>ms_pc := M_return, ms_sys := S\<rparr>))
                 (ProxyDestroy_finish S)
          else None
      | M_return \<Rightarrow> None
      | M_error e \<Rightarrow> None)"

text \<open>
  The process: \<open>main\<close>, the thread, or a spurious wakeup; after \<open>main\<close> has ended, nothing.
\<close>

datatype process_action = Main "nat option" | Thread | Spurious

fun main_ended :: "main_pc \<Rightarrow> bool" where
  "main_ended M_return = True"
| "main_ended (M_error e) = True"
| "main_ended _ = False"

fun process_step ::
  "('a, 'w) platform \<Rightarrow> bool \<Rightarrow> byte list \<Rightarrow> byte list \<Rightarrow> process_action \<Rightarrow> 'w main_state \<Rightarrow>
   'w main_state option" where
  "process_step P server pad junk (Main m) st = main_step P server pad junk m st"
| "process_step P server pad junk Thread st =
     (if main_ended (ms_pc st) then None
      else Some (on_fault st (worker_step (progress_fn_run (p_verbs P)) (ms_sys st))
                   (\<lambda>S. st\<lparr>ms_sys := S\<rparr>)))"
| "process_step P server pad junk Spurious st =
     (if main_ended (ms_pc st) then None else Some (st\<lparr>ms_sys := signal (ms_sys st)\<rparr>))"

fun process_run ::
  "('a, 'w) platform \<Rightarrow> bool \<Rightarrow> byte list \<Rightarrow> byte list \<Rightarrow> process_action list \<Rightarrow> 'w main_state \<Rightarrow>
   'w main_state option" where
  "process_run P server pad junk [] st = Some st"
| "process_run P server pad junk (act # acts) st =
     (case process_step P server pad junk act st of
        None \<Rightarrow> None
      | Some st \<Rightarrow> process_run P server pad junk acts st)"

text \<open>
  The process at the start. \<open>handler\<close> is an uninitialised variable: but for \<open>abortFlag\<close>, which points
  to a variable that is 0, its fields are what the memory \<open>h\<close> holds. \<open>ProxyCreate\<close> sets the others
  only when \<open>proxyThread\<close> is zero, and never \<open>pool\<close> and \<open>pools\<close>.
\<close>

definition new_process :: "ProxyHandler \<Rightarrow> 'w \<Rightarrow> 'w main_state" where
  "new_process h w =
     \<lparr>ms_pc = M_create,
      ms_sys = \<lparr>mem = \<lparr>handler = h\<lparr>ph_abortFlag := 0\<rparr>, heap = Map.empty, tails = Map.empty, blocks = Map.empty\<rparr>,
        wpc = W_none, w_op = None, w_idle = False, w_idleSpin = 0, world = w, log = [],
        owned = {}, joining = False, destroyed = False\<rparr>,
      ms_args = None, ms_objs = None, ms_sock = None\<rparr>"

text \<open>What \<open>main\<close> relies on without establishing it.\<close>

definition happens_zero :: "ProxyHandler \<Rightarrow> bool" where
  "happens_zero h \<longleftrightarrow> \<not> ph_proxyThread h \<and> ph_pool h = None \<and> ph_pools h = None"

inductive process ::
  "('a, 'w) platform \<Rightarrow> bool \<Rightarrow> byte list \<Rightarrow> byte list \<Rightarrow> ProxyHandler \<Rightarrow> 'w \<Rightarrow> 'w main_state \<Rightarrow> bool"
  for P server pad junk h w where
  process_new: "process P server pad junk h w (new_process h w)"
| process_more: "process P server pad junk h w st \<Longrightarrow> process_step P server pad junk act st = Some st' \<Longrightarrow>
     process P server pad junk h w st'"

end
