(* ===== verification/Send_Recv_Device.thy ===== *)
theory Send_Recv_Device
  imports Send_Recv
begin

text \<open>
  What \<open>main\<close> does to the device: the objects it creates and what they use, their release, the
  connection of the queue pair, and the exchange of the \<open>QpInfo\<close>s.
\<close>

section \<open>Bytes\<close>

lemma length_le_bytes [simp]: "length (le_bytes n x) = n"
  by (induction n arbitrary: x) simp_all

lemma le_value_bytes [simp]: "le_value (le_bytes n x) = x mod 256 ^ n"
proof (induction n arbitrary: x)
  case (Suc n)
  have "unat (word_of_nat x :: byte) = x mod 256" by (simp add: unat_of_nat)
  with Suc show ?case by (simp add: mod_mult2_eq)
qed simp

lemma length_qp_info_bytes: "length pad = 10 \<Longrightarrow> length (qp_info_bytes pad q) = sizeof_QpInfo"
  by (simp add: qp_info_bytes_def sizeof_QpInfo_def)

lemma unat_mod [simp]:
  "unat (x :: 32 word) mod 4294967296 = unat x"
  "unat (y :: 64 word) mod 18446744073709551616 = unat y"
  "unat (z :: 16 word) mod 65536 = unat z"
  using unsigned_less [where 'a = nat, of x] unsigned_less [where 'a = nat, of y]
    unsigned_less [where 'a = nat, of z] by simp_all

lemma field_skip: "length xs \<le> off \<Longrightarrow> field (xs @ ys) off n = field ys (off - length xs) n"
  by (simp add: field_def)

lemma field_hit: "length xs = n \<Longrightarrow> field (xs @ ys) 0 n = le_value xs"
  by (simp add: field_def)

text \<open>The padding does not matter.\<close>

lemma qp_info_of_bytes: "length pad = 10 \<Longrightarrow> qp_info_of (qp_info_bytes pad q) = q"
  by (simp add: qp_info_of_def qp_info_bytes_def field_skip field_hit)

section \<open>The input and output of the sockets\<close>

text \<open>A view of the state that no socket call changes.\<close>

locale socket_frame =
  fixes os :: "('a, 'w) sockets" and obs :: "'w \<Rightarrow> 'u"
  assumes asprintf_obs: "obs (snd (s_asprintf os port w)) = obs w"
    and getaddrinfo_obs: "obs (snd (s_getaddrinfo os host port w)) = obs w"
    and socket_obs: "obs (snd (s_socket os t w)) = obs w"
    and setsockopt_obs: "obs (snd (s_setsockopt os fd w)) = obs w"
    and bind_obs: "obs (snd (s_bind os fd t w)) = obs w"
    and connect_obs: "obs (snd (s_connect os fd t w)) = obs w"
    and listen_obs: "obs (snd (s_listen os fd w)) = obs w"
    and accept_obs: "obs (snd (s_accept os fd w)) = obs w"
    and close_obs: "obs (s_close os fd w) = obs w"
    and sleep_obs: "obs (s_sleep os n w) = obs w"
    and send_obs: "obs (snd (s_send os fd bs w)) = obs w"
    and recv_obs: "obs (snd (s_recv os fd n w)) = obs w"
begin

lemmas obs_simps = asprintf_obs getaddrinfo_obs socket_obs setsockopt_obs bind_obs connect_obs
  listen_obs accept_obs close_obs sleep_obs send_obs recv_obs

text \<open>The same for the results of calls given as equations.\<close>

lemma obs_eqs:
  "s_asprintf os port w = (n, w') \<Longrightarrow> obs w' = obs w"
  "s_getaddrinfo os host port w = (r1, w') \<Longrightarrow> obs w' = obs w"
  "s_socket os t w = (n, w') \<Longrightarrow> obs w' = obs w"
  "s_setsockopt os fd w = (n, w') \<Longrightarrow> obs w' = obs w"
  "s_bind os fd t w = (n, w') \<Longrightarrow> obs w' = obs w"
  "s_connect os fd t w = (n, w') \<Longrightarrow> obs w' = obs w"
  "s_listen os fd w = (n, w') \<Longrightarrow> obs w' = obs w"
  "s_accept os fd w = (n, w') \<Longrightarrow> obs w' = obs w"
  "s_send os fd bs w = (n, w') \<Longrightarrow> obs w' = obs w"
  "s_recv os fd k w = (r2, w') \<Longrightarrow> obs w' = obs w"
  using obs_simps by (metis snd_conv)+

lemma bind_first_obs: "bind_first os ts fd0 w = (fd, w') \<Longrightarrow> obs w' = obs w"
  by (induction ts arbitrary: fd0 w)
    (auto simp: Let_def close_obs dest!: obs_eqs split: prod.splits if_splits)

lemma connect_first_obs: "connect_first os ts fd0 w = (fd, w') \<Longrightarrow> obs w' = obs w"
  by (induction ts arbitrary: fd0 w)
    (auto simp: Let_def close_obs dest!: obs_eqs split: prod.splits if_splits)

lemma connect_retry_obs: "connect_retry n os ts fd0 w = (fd, w') \<Longrightarrow> obs w' = obs w"
  by (induction n arbitrary: fd0 w)
    (auto simp: Let_def sleep_obs dest: connect_first_obs split: prod.splits if_splits)

lemma client_obs: "SocketEndpoint_client os host port w = (r, w') \<Longrightarrow> obs w' = obs w"
  by (auto simp: SocketEndpoint_client_def Let_def dest!: obs_eqs connect_retry_obs
      split: prod.splits if_splits)

lemma listening_obs: "startListening os port w = (r, w') \<Longrightarrow> obs w' = obs w"
  by (auto simp: startListening_def Let_def dest!: obs_eqs bind_first_obs
      split: prod.splits if_splits)

lemma server_obs: "SocketEndpoint_server os port w = (r, w') \<Longrightarrow> obs w' = obs w"
  by (auto simp: SocketEndpoint_server_def Let_def close_obs dest!: obs_eqs listening_obs
      split: prod.splits if_splits sum.splits)

lemma syncData_obs: "syncData os ep sz out inb w = (rc, bs, w') \<Longrightarrow> obs w' = obs w"
  by (auto simp: syncData_def recv_into_def dest!: obs_eqs split: prod.splits if_splits)

lemma syncReady_obs: "syncReady os ep w = (rc, w') \<Longrightarrow> obs w' = obs w"
  by (auto simp: syncReady_def recv_into_def Let_def dest!: obs_eqs syncData_obs
      split: prod.splits if_splits)

lemma exchange_obs: "exchange_info os ep pad junk q w = (n, w') \<Longrightarrow> obs w' = obs w"
  by (auto simp: exchange_info_def dest!: syncData_obs split: prod.splits)

lemma destructor_obs: "obs (SocketEndpoint_destructor os ep w) = obs w"
  by (simp add: SocketEndpoint_destructor_def close_obs)

end

section \<open>Runs that get through\<close>

lemma io_bind_Inr:
  "io_bind f g w = Inr r \<longleftrightarrow> (\<exists>x w'. f w = Inr (x, w') \<and> g x w' = Inr r)"
  by (auto simp: io_bind_def sum_bind_eq_Inr)

lemma io_return_Inr: "io_return x w = Inr (y, w') \<longleftrightarrow> y = x \<and> w' = w"
  by (auto simp: io_return_def)

lemma check_ptr_Inr: "check_ptr msg f w = Inr (x, w') \<longleftrightarrow> f w = (Some x, w')"
  by (auto simp: check_ptr_def split: prod.splits option.splits)

lemma check_get_Inr: "check_get msg f w = Inr (x, w') \<longleftrightarrow> f w = ((0, x), w')"
  by (auto simp: check_get_def split: prod.splits)

lemma check_zero_Inr: "check_zero msg f w = Inr (u, w') \<longleftrightarrow> f w = (0, w')"
  by (auto simp: check_zero_def split: prod.splits)

lemma lift_exn_Inr: "lift_exn f w = Inr (x, w') \<longleftrightarrow> f w = (Inr x, w')"
  by (auto simp: lift_exn_def split: prod.splits sum.splits)

lemma open_device_Inr:
  assumes "open_device api w = Inr (c, w')"
  obtains d where "i_open_device api d w = (Some c, w')"
proof -
  from assms obtain d where "init_ibv_device (i_device_list api w) (\<lambda>d. fst (i_open_device api d w)) ''mlx5_0'' None =
      Inr (d, c)" "w' = snd (i_open_device api d w)"
    by (auto simp: open_device_def split: sum.splits check_error.splits prod.splits if_splits)
  moreover from this(1) have "fst (i_open_device api d w) = Some c"
    by (auto simp: init_ibv_device_def Let_def split: option.splits)
  ultimately show ?thesis using that [of d] by (cases "i_open_device api d w") auto
qed

text \<open>
  The set-up ends with a failed \<open>CHECK\<close> or an exception, and with a fault only when the device is
  missing: \<open>faults_if c f\<close> says that \<open>f\<close> faults only by a null pointer, and only when \<open>c\<close> holds.
\<close>

definition faults_if :: "('w \<Rightarrow> bool) \<Rightarrow> ('x, 'w) io \<Rightarrow> bool" where
  "faults_if c f \<longleftrightarrow> (\<forall>w e. f w = Inl (Main_fault e) \<longrightarrow> e = NullDeref \<and> c w)"

abbreviation no_fault :: "('x, 'w) io \<Rightarrow> bool" where
  "no_fault \<equiv> faults_if (\<lambda>_. False)"

lemma faults_if_bind: "faults_if c f \<Longrightarrow> (\<And>x. no_fault (g x)) \<Longrightarrow> faults_if c (io_bind f g)"
  by (auto simp: faults_if_def io_bind_def sum_bind_eq_Inl)

lemma no_fault_calls:
  "no_fault (io_return x)" "no_fault (check_ptr msg f1)" "no_fault (check_get msg f2)"
  "no_fault (check_zero msg f3)" "no_fault (lift_exn f4)" "no_fault (connect_qp modify nb)"
  by (auto simp: faults_if_def io_return_def check_ptr_def check_get_def check_zero_def lift_exn_def
      connect_qp_def split: option.split prod.split sum.split check_error.split)

lemma open_device_faults: "faults_if (\<lambda>w. device_missing (i_device_list api w)) (open_device api)"
  by (auto simp: faults_if_def open_device_def split: sum.splits check_error.splits prod.splits if_splits)

lemma no_fault_case: "(\<And>x. no_fault (g x)) \<Longrightarrow> no_fault (\<lambda>w. case_prod g (f w))"
  by (auto simp: faults_if_def split: prod.split)

lemma no_fault_Inr: "no_fault (\<lambda>w. Inr (h w))"
  by (simp add: faults_if_def)

lemma no_fault_branches:
  "no_fault (server_branch P pad junk objs a)" "no_fault (client_branch P pad junk objs a)"
  unfolding server_branch_def client_branch_def Let_def
  by (intro faults_if_bind no_fault_calls no_fault_case no_fault_Inr)+

lemma main_setup_faults:
  assumes "main_setup P server pad junk a w = Inl (Main_fault f)"
  shows "f = NullDeref \<and> device_missing (i_device_list (p_ibv P) w)"
proof -
  have "faults_if (\<lambda>w. device_missing (i_device_list (p_ibv P) w)) (setup_device (p_ibv P))"
    unfolding setup_device_def by (intro faults_if_bind open_device_faults no_fault_calls)
  then have "faults_if (\<lambda>w. device_missing (i_device_list (p_ibv P) w)) (main_setup P server pad junk a)"
    unfolding main_setup_def Let_def
    by (rule faults_if_bind) (intro faults_if_bind no_fault_calls; simp add: no_fault_branches)
  with assms show ?thesis by (auto simp: faults_if_def)
qed

text \<open>A missing device is a fault indeed.\<close>

lemma device_missing_faults:
  "device_missing (i_device_list (p_ibv P) w) \<Longrightarrow> main_setup P server pad junk a w = Inl (Main_fault NullDeref)"
  by (simp add: main_setup_def setup_device_def open_device_def io_bind_def)

lemmas io_Inr = io_bind_Inr io_return_Inr check_ptr_Inr check_get_Inr check_zero_Inr lift_exn_Inr

section \<open>The objects of the device\<close>

text \<open>
  What a process holds, and for each object the others it was created from. The manual pages
  promise that creating adds one, that destroying succeeds and removes it when nothing uses it any
  more, and the other calls leave the objects alone.
\<close>

datatype obj = Context nat | PD nat | Buffer "64 word" | MR nat | CQ nat | QP nat

definition created :: "obj option \<Rightarrow> obj set \<Rightarrow> (obj \<rightharpoonup> obj set) \<Rightarrow> (obj \<rightharpoonup> obj set) \<Rightarrow> bool" where
  "created x us D D' \<longleftrightarrow>
     (case x of None \<Rightarrow> D' = D | Some x \<Rightarrow> D x = None \<and> D' = D(x \<mapsto> us))"

definition removable :: "obj \<Rightarrow> (obj \<rightharpoonup> obj set) \<Rightarrow> bool" where
  "removable x D \<longleftrightarrow> D x \<noteq> None \<and> (\<forall>y us. D y = Some us \<longrightarrow> x \<notin> us)"

definition fresh_qp_state :: "ibv_qp_type \<Rightarrow> qp \<Rightarrow> bool" where
  "fresh_qp_state ty q \<longleftrightarrow> qp_type q = ty \<and> at_qp_state (qp_attr q) = IBV_QPS_RESET"

locale verbs_objects = socket_frame "p_os P" "\<lambda>w. (uses w, qps w)"
  for P :: "('a, 'w) platform" and uses :: "'w \<Rightarrow> obj \<rightharpoonup> obj set" and qps :: "'w \<Rightarrow> nat \<Rightarrow> qp" +
  assumes uses_closed: "uses w x = Some us \<Longrightarrow> us \<subseteq> dom (uses w)"
    and open_device: "i_open_device (p_ibv P) d w = (c, w') \<Longrightarrow>
      created (map_option Context c) {} (uses w) (uses w')"
    and query_port: "uses (snd (i_query_port (p_ibv P) ctx port w)) = uses w"
    and query_gid: "uses (snd (i_query_gid (p_ibv P) ctx port i w)) = uses w"
    and alloc_pd: "i_alloc_pd (p_ibv P) ctx w = (pd, w') \<Longrightarrow>
      created (map_option PD pd) {Context ctx} (uses w) (uses w')"
    and malloc: "i_malloc (p_ibv P) sz w = (b, w') \<Longrightarrow>
      created (map_option Buffer b) {} (uses w) (uses w')"
    and reg_mr: "i_reg_mr (p_ibv P) pd0 b0 sz access w = (mr, w') \<Longrightarrow>
      created (map_option (\<lambda>m. MR (mr_handle m)) mr) {PD pd0, Buffer b0} (uses w) (uses w')"
    and create_cq: "i_create_cq (p_ibv P) ctx sz w = (cq, w') \<Longrightarrow>
      created (map_option CQ cq) {Context ctx} (uses w) (uses w')"
    and create_qp: "i_create_qp (p_ibv P) pd0 attr w = (q, w') \<Longrightarrow>
      created (map_option (\<lambda>q. QP (qo_handle q)) q)
        {PD pd0, CQ (ia_send_cq attr), CQ (ia_recv_cq attr)} (uses w) (uses w') \<and>
      (case q of None \<Rightarrow> True | Some q \<Rightarrow> fresh_qp_state (ia_qp_type attr) (qps w' (qo_handle q)))"
    and modify_qp: "qp_modify_may_fail (i_modify_qp (p_ibv P) h) (\<lambda>w. qps w h)"
    and modify_uses: "uses (snd (i_modify_qp (p_ibv P) h new flags w)) = uses w"
    and destroy_qp: "removable (QP h) (uses w) \<Longrightarrow> i_destroy_qp (p_ibv P) h w = (r, w') \<Longrightarrow>
      r = 0 \<and> uses w' = (uses w)(QP h := None)"
    and destroy_cq: "removable (CQ h) (uses w) \<Longrightarrow> i_destroy_cq (p_ibv P) h w = (r, w') \<Longrightarrow>
      r = 0 \<and> uses w' = (uses w)(CQ h := None)"
    and dereg_mr: "removable (MR h) (uses w) \<Longrightarrow> i_dereg_mr (p_ibv P) h w = (r, w') \<Longrightarrow>
      r = 0 \<and> uses w' = (uses w)(MR h := None)"
    and free: "removable (Buffer b0) (uses w) \<Longrightarrow> uses (i_free (p_ibv P) b0 w) = (uses w)(Buffer b0 := None)"
    and dealloc_pd: "removable (PD h) (uses w) \<Longrightarrow> i_dealloc_pd (p_ibv P) h w = (r, w') \<Longrightarrow>
      r = 0 \<and> uses w' = (uses w)(PD h := None)"
    and close_device: "removable (Context h) (uses w) \<Longrightarrow> i_close_device (p_ibv P) h w = (r, w') \<Longrightarrow>
      r = 0 \<and> uses w' = (uses w)(Context h := None)"
    and poll_cq: "uses (snd (v_poll_cq (p_verbs P) h n w)) = uses w"
    and post_send: "uses (snd (v_post_send (p_verbs P) h swr w)) = uses w"
    and post_recv: "uses (snd (v_post_recv (p_verbs P) h rwr w)) = uses w"
      "qps (snd (v_post_recv (p_verbs P) h rwr w)) = qps w"
    and get_cycles: "uses (snd (v_get_cycles (p_verbs P) w)) = uses w"

text \<open>The objects of \<open>main\<close> on top of what was there.\<close>

definition with_objects :: "objects \<Rightarrow> (obj \<rightharpoonup> obj set) \<Rightarrow> (obj \<rightharpoonup> obj set)" where
  "with_objects objs D = D(
     Context (o_context objs) \<mapsto> {}, PD (o_pd objs) \<mapsto> {Context (o_context objs)},
     Buffer (o_buffer objs) \<mapsto> {},
     MR (mr_handle (o_mr objs)) \<mapsto> {PD (o_pd objs), Buffer (o_buffer objs)},
     CQ (o_cq objs) \<mapsto> {Context (o_context objs)},
     QP (qo_handle (o_qp objs)) \<mapsto> {PD (o_pd objs), CQ (o_cq objs)})"

definition fresh_objects :: "objects \<Rightarrow> (obj \<rightharpoonup> obj set) \<Rightarrow> bool" where
  "fresh_objects objs D \<longleftrightarrow>
     D (Context (o_context objs)) = None \<and> D (PD (o_pd objs)) = None \<and>
     D (Buffer (o_buffer objs)) = None \<and> D (MR (mr_handle (o_mr objs))) = None \<and>
     D (CQ (o_cq objs)) = None \<and> D (QP (qo_handle (o_qp objs))) = None"

context verbs_objects
begin

lemma setup_device_objects:
  assumes "setup_device (p_ibv P) w = Inr (objs, w')"
  shows "uses w' = with_objects objs (uses w) \<and> fresh_objects objs (uses w) \<and>
     fresh_qp_state IBV_QPT_UC (qps w' (qo_handle (o_qp objs)))"
proof -
  let ?api = "p_ibv P"
  from assms obtain c w1 lid w2 gid w3 pd w4 b w5 mr w6 cq w7 qp where
    s: "open_device ?api w = Inr (c, w1)" "i_query_port ?api c IB_PORT w1 = ((0, lid), w2)"
      "i_query_gid ?api c IB_PORT GID_INDEX w2 = ((0, gid), w3)"
      "i_alloc_pd ?api c w3 = (Some pd, w4)" "i_malloc ?api buffer_size w4 = (Some b, w5)"
      "i_reg_mr ?api pd b buffer_size
         [IBV_ACCESS_LOCAL_WRITE, IBV_ACCESS_REMOTE_WRITE, IBV_ACCESS_ZERO_BASED] w5 = (Some mr, w6)"
      "i_create_cq ?api c kCompletionQueueDepth w6 = (Some cq, w7)"
      "i_create_qp ?api pd (init_attributes cq) w7 = (Some qp, w')"
    and objs: "objs = \<lparr>o_context = c, o_lid = lid, o_gid = gid, o_pd = pd, o_buffer = b,
                o_mr = mr, o_cq = cq, o_qp = qp\<rparr>"
    unfolding setup_device_def io_Inr by (elim exE conjE, hypsubst) (rule that, (assumption | rule refl)+)
  obtain d where "i_open_device ?api d w = (Some c, w1)" using s(1) by (rule open_device_Inr)
  note o1 = open_device [OF this] and o3 = alloc_pd [OF s(4)] and o4 = malloc [OF s(5)]
    and o5 = reg_mr [OF s(6)] and o6 = create_cq [OF s(7)] and o7 = create_qp [OF s(8)]
  have "uses w2 = uses w1" "uses w3 = uses w2"
    using query_port [of c IB_PORT w1] query_gid [of c IB_PORT GID_INDEX w2] s(2,3) by simp_all
  then show ?thesis
    using o1 o3 o4 o5 o6 o7
    by (auto simp: created_def objs with_objects_def fresh_objects_def init_attributes_def
        split: if_splits)
qed

lemma release_objects:
  assumes "uses w = with_objects objs D" and "fresh_objects objs D"
    and "\<And>x us. D x = Some us \<Longrightarrow> us \<subseteq> dom D"
  shows "uses (release (p_ibv P) objs w) = D"
proof -
  let ?api = "p_ibv P"
  let ?c = "Context (o_context objs)" and ?p = "PD (o_pd objs)" and ?b = "Buffer (o_buffer objs)"
    and ?m = "MR (mr_handle (o_mr objs))" and ?q = "CQ (o_cq objs)" and ?h = "QP (qo_handle (o_qp objs))"
  note fresh = assms(2) [unfolded fresh_objects_def]
  have old: "x \<notin> us" if "D y = Some us" "D x = None" for x y us
    using assms(3) [OF that(1)] that(2) by blast
  obtain r1 w1 where w1: "i_destroy_qp ?api (qo_handle (o_qp objs)) w = (r1, w1)" by fastforce
  obtain r2 w2 where w2: "i_destroy_cq ?api (o_cq objs) w1 = (r2, w2)" by fastforce
  obtain r3 w3 where w3: "i_dereg_mr ?api (mr_handle (o_mr objs)) w2 = (r3, w3)" by fastforce
  let ?w4 = "i_free ?api (o_buffer objs) w3"
  obtain r5 w5 where w5: "i_dealloc_pd ?api (o_pd objs) ?w4 = (r5, w5)" by fastforce
  obtain r6 w6 where w6: "i_close_device ?api (o_context objs) w5 = (r6, w6)" by fastforce
  have "removable ?h (uses w)"
    using fresh old by (auto simp: removable_def assms(1) with_objects_def split: if_splits)
  from destroy_qp [OF this w1] have u1: "uses w1 = D(?c \<mapsto> {}, ?p \<mapsto> {?c}, ?b \<mapsto> {}, ?m \<mapsto> {?p, ?b}, ?q \<mapsto> {?c})"
    using fresh by (auto simp: assms(1) with_objects_def fun_eq_iff)
  have "removable ?q (uses w1)" using fresh old by (auto simp: removable_def u1 split: if_splits)
  from destroy_cq [OF this w2] have u2: "uses w2 = D(?c \<mapsto> {}, ?p \<mapsto> {?c}, ?b \<mapsto> {}, ?m \<mapsto> {?p, ?b})"
    using fresh by (auto simp: u1 fun_eq_iff)
  have "removable ?m (uses w2)" using fresh old by (auto simp: removable_def u2 split: if_splits)
  from dereg_mr [OF this w3] have u3: "uses w3 = D(?c \<mapsto> {}, ?p \<mapsto> {?c}, ?b \<mapsto> {})"
    using fresh by (auto simp: u2 fun_eq_iff)
  have "removable ?b (uses w3)" using fresh old by (auto simp: removable_def u3 split: if_splits)
  from free [OF this] have u4: "uses ?w4 = D(?c \<mapsto> {}, ?p \<mapsto> {?c})"
    using fresh by (auto simp: u3 fun_eq_iff)
  have "removable ?p (uses ?w4)" using fresh old by (auto simp: removable_def u4 split: if_splits)
  from dealloc_pd [OF this w5] have u5: "uses w5 = D(?c \<mapsto> {})"
    using fresh by (auto simp: u4 fun_eq_iff)
  have "removable ?c (uses w5)" using fresh old by (auto simp: removable_def u5 split: if_splits)
  from close_device [OF this w6] have "uses w6 = D"
    using fresh by (auto simp: u5 fun_eq_iff)
  then show ?thesis by (simp add: release_def w1 w2 w3 w5 w6)
qed

text \<open>Transitions of the queue pair leave the objects alone.\<close>

lemma modify_uses_eq: "i_modify_qp (p_ibv P) h new flags w = (r, w') \<Longrightarrow> uses w' = uses w"
  using modify_uses [of h new flags w] by simp

lemma to_init_uses: "modify_qp_to_init (i_modify_qp (p_ibv P) h) w = (r, w') \<Longrightarrow> uses w' = uses w"
  by (simp add: modify_qp_to_init_def modify_uses_eq)

lemma connect_uses: "connect_qp (i_modify_qp (p_ibv P) h) nb w = Inr (u, w') \<Longrightarrow> uses w' = uses w"
  by (auto simp: connect_qp_def modify_qp_to_rts_def modify_qp_to_rtr_uc_def modify_qp_to_rts_uc_def
      dest!: modify_uses_eq split: sum.splits check_error.splits prod.splits if_splits)

text \<open>The queue pair that the branches start with, and the one they lead to.\<close>

definition ready_qp :: "nat \<Rightarrow> 'w \<Rightarrow> bool" where
  "ready_qp h w \<longleftrightarrow>
     qp_type (qps w h) = IBV_QPT_UC \<and> at_qp_state (qp_attr (qps w h)) = IBV_QPS_INIT"

text \<open>
  The queue pair of a set-up that has got through: ready to send, unless the transition to RTS
  has failed with a positive error number, which \<open>CHECK(ret >= 0)\<close> lets through.
\<close>

definition connected_qp :: "QpInfo \<Rightarrow> nat \<Rightarrow> 'w \<Rightarrow> bool" where
  "connected_qp nb h w \<longleftrightarrow>
     qp_type (qps w h) = IBV_QPT_UC \<and> at_rq_psn (qp_attr (qps w h)) = qi_psn nb \<and>
     (connected_to nb IBV_MTU_256 (qp_attr (qps w h)) \<and> at_sq_psn (qp_attr (qps w h)) = 0 \<or>
      receives_from nb IBV_MTU_256 (qp_attr (qps w h)) \<and>
      (\<exists>v v' ret. modify_qp_to_rts_uc (i_modify_qp (p_ibv P) h) v = (ret, v') \<and> 0 < ret))"

lemma to_init_ready:
  assumes "fresh_qp_state IBV_QPT_UC (qps w h)"
    and "modify_qp_to_init (i_modify_qp (p_ibv P) h) w = (0, w')"
  shows "ready_qp h w'"
  using qp_modify_may_fail.init_succeeds [OF modify_qp assms(2)] assms(1)
  by (simp add: fresh_qp_state_def ready_qp_def)

lemma connect_connects:
  assumes "ready_qp h w" and "connect_qp (i_modify_qp (p_ibv P) h) nb w = Inr (u, w')"
  shows "connected_qp nb h w'"
proof -
  from assms(2) obtain ret where r: "modify_qp_to_rts (i_modify_qp (p_ibv P) h) nb IBV_MTU_256 0 w = Inr (ret, w')"
    "0 \<le> ret" by (auto simp: connect_qp_def split: sum.splits check_error.splits prod.splits if_splits)
  from qp_modify_may_fail.uc_gets_through [OF modify_qp r(1)] r(2) assms(1) show ?thesis
    unfolding connected_qp_def ready_qp_def by (cases "ret = 0") (simp, simp, fastforce)
qed

end

section \<open>The operation\<close>

text \<open>What the set-up leaves alone in the operation, and what it sets in both branches.\<close>

definition prepared :: "objects \<Rightarrow> 'f ProxyArgs \<Rightarrow> 'f ProxyArgs \<Rightarrow> bool" where
  "prepared objs a a' \<longleftrightarrow>
     pa_state a' = pa_state a \<and> pa_next a' = pa_next a \<and> pa_nextPeer a' = pa_nextPeer a \<and>
     pa_proxyTail a' = pa_proxyTail a \<and> pa_iterations a' = 0 \<and>
     ep_cq (pa_endpoint a') = o_cq objs \<and> ep_qp (pa_endpoint a') = qo_handle (o_qp objs)"

lemma prepared_send: "prepared objs a (prepare_send objs nb (assign_queues objs a))"
  by (simp add: prepared_def prepare_send_def assign_queues_def)

lemma post_recvs_frame:
  "post_recvs v is (a, w) = (a', w') \<Longrightarrow> links a' = links a \<and> pa_state a' = pa_state a \<and>
     pa_iterations a' = pa_iterations a \<and> ep_cq (pa_endpoint a') = ep_cq (pa_endpoint a) \<and>
     ep_qp (pa_endpoint a') = ep_qp (pa_endpoint a)"
  by (induction "is" arbitrary: a w)
    (fastforce simp: Let_def set_recv_id_def links_def split: prod.splits)+

lemma prepared_receives:
  assumes "prepare_receives v (assign_queues objs a, w) = (a', w')"
  shows "prepared objs a a' \<and> pa_progress a' = Some RecvBenchmark \<and>
     ep_available_wqes (pa_endpoint a') = int kReceiveQueueDepth"
  using assms
  by (auto simp: prepare_receives_def prepared_def links_def assign_queues_def
      dest!: post_recvs_frame split: prod.splits)

context verbs_objects
begin

lemma obs_eq: "(uses w', qps w') = (uses w, qps w) \<Longrightarrow> uses w' = uses w \<and> qps w' = qps w"
  by simp

lemma post_recvs_obs:
  "post_recvs (p_verbs P) is (a, w) = (a', w') \<Longrightarrow> uses w' = uses w \<and> qps w' = qps w"
proof (induction "is" arbitrary: a w)
  case (Cons i "is")
  let ?a = "set_recv_id (word_of_nat i) a"
  obtain r w1 where p: "v_post_recv (p_verbs P) (ep_qp (pa_endpoint ?a)) (ep_recv_wr (pa_endpoint ?a)) w = (r, w1)"
    by fastforce
  have "uses w1 = uses w" "qps w1 = qps w" using post_recv p by (metis snd_conv)+
  then show ?case using Cons p by (simp add: Let_def)
qed simp

lemma prepare_receives_obs:
  "prepare_receives (p_verbs P) (a, w) = (a', w') \<Longrightarrow> uses w' = uses w \<and> qps w' = qps w"
  by (auto simp: prepare_receives_def dest!: post_recvs_obs split: prod.splits)

text \<open>Both branches go through the same three stages: rendezvous, exchange, connection.\<close>

lemma connected_qp_cong: "qps w' = qps w \<Longrightarrow> connected_qp nb h w' = connected_qp nb h w"
  by (simp add: connected_qp_def)

lemma stages:
  assumes "ready_qp h w" and "(uses w1, qps w1) = (uses w, qps w)"
    and "exchange_info (p_os P) sock pad junk q w1 = (nb, w2)"
    and "connect_qp (i_modify_qp (p_ibv P) h) nb w2 = Inr (u, w3)"
  shows "uses w3 = uses w \<and> connected_qp nb h w3"
proof -
  have "(uses w2, qps w2) = (uses w, qps w)" using exchange_obs [OF assms(3)] assms(2) by simp
  moreover from this assms(1) have "ready_qp h w2" by (simp add: ready_qp_def)
  from connect_connects [OF this assms(4)] have "connected_qp nb h w3" .
  ultimately show ?thesis using connect_uses [OF assms(4)] by simp
qed

lemma server_branch_ok:
  assumes ready: "ready_qp (qo_handle (o_qp objs)) w"
    and run: "server_branch P pad junk objs (assign_queues objs a) w = Inr ((sock, nb, a'), w')"
  shows "uses w' = uses w \<and> connected_qp nb (qo_handle (o_qp objs)) w' \<and> prepared objs a a' \<and>
     pa_progress a' = Some RecvBenchmark \<and> ep_available_wqes (pa_endpoint a') = int kReceiveQueueDepth"
proof -
  from run obtain s0 w1 where c: "SocketEndpoint_server (p_os P) 12345 w = (Inr s0, w1)"
    by (auto simp: server_branch_def io_Inr)
  obtain nb0 w2 where e: "exchange_info (p_os P) s0 pad junk (local_info objs) w1 = (nb0, w2)"
    by fastforce
  from run c e obtain u w3 where q: "connect_qp (i_modify_qp (p_ibv P) (qo_handle (o_qp objs))) nb0 w2 = Inr (u, w3)"
    by (auto simp: server_branch_def io_Inr)
  obtain a0 w4 where r: "prepare_receives (p_verbs P) (assign_queues objs a, w3) = (a0, w4)" by fastforce
  obtain rc w5 where y: "syncReady (p_os P) s0 w4 = (rc, w5)" by fastforce
  from run c e q r y have "s0 = sock" "nb0 = nb" "a0 = a'" "w5 = w'"
    by (simp_all add: server_branch_def io_Inr)
  note s = c [unfolded this] e [unfolded this] q [unfolded this] r [unfolded this] y [unfolded this]
  have "uses w3 = uses w \<and> connected_qp nb (qo_handle (o_qp objs)) w3"
    using stages [OF ready server_obs [OF s(1)] s(2,3)] .
  moreover have "uses w' = uses w3" "qps w' = qps w3"
    using prepare_receives_obs [OF s(4)] syncReady_obs [OF s(5)] by simp_all
  ultimately show ?thesis using prepared_receives [OF s(4)] connected_qp_cong by metis
qed

lemma client_branch_ok:
  assumes ready: "ready_qp (qo_handle (o_qp objs)) w"
    and run: "client_branch P pad junk objs (assign_queues objs a) w = Inr ((sock, nb, a'), w')"
  shows "uses w' = uses w \<and> connected_qp nb (qo_handle (o_qp objs)) w' \<and>
     a' = prepare_send objs nb (assign_queues objs a)"
proof -
  from run obtain s0 w1 where c: "SocketEndpoint_client (p_os P) ''localhost'' 12345 w = (Inr s0, w1)"
    by (auto simp: client_branch_def io_Inr)
  obtain nb0 w2 where e: "exchange_info (p_os P) s0 pad junk (local_info objs) w1 = (nb0, w2)"
    by fastforce
  from run c e obtain u w3 where q: "connect_qp (i_modify_qp (p_ibv P) (qo_handle (o_qp objs))) nb0 w2 = Inr (u, w3)"
    by (auto simp: client_branch_def io_Inr)
  obtain rc w4 where y: "syncReady (p_os P) s0 w3 = (rc, w4)" by fastforce
  obtain rc' w5 where z: "syncReady (p_os P) s0 w4 = (rc', w5)" by fastforce
  from run c e q y z have eq: "s0 = sock" "nb0 = nb" "w5 = w'"
    and a': "a' = prepare_send objs nb (assign_queues objs a)"
    by (auto simp: client_branch_def io_Inr Let_def)
  note s = c [unfolded eq] e [unfolded eq] q [unfolded eq] y [unfolded eq] z [unfolded eq] a'
  have "uses w3 = uses w \<and> connected_qp nb (qo_handle (o_qp objs)) w3"
    using stages [OF ready client_obs [OF s(1)] s(2,3)] .
  moreover have "uses w' = uses w3" "qps w' = qps w3"
    using syncReady_obs [OF s(4)] syncReady_obs [OF s(5)] by simp_all
  ultimately show ?thesis using s(6) connected_qp_cong by metis
qed

lemma main_setup_ok:
  assumes run: "main_setup P server pad junk a w = Inr ((objs, sock, nb, a'), w')"
  shows "uses w' = with_objects objs (uses w) \<and> fresh_objects objs (uses w) \<and>
     connected_qp nb (qo_handle (o_qp objs)) w' \<and> prepared objs a a' \<and>
     (if server then pa_progress a' = Some RecvBenchmark \<and>
        ep_available_wqes (pa_endpoint a') = int kReceiveQueueDepth
      else a' = prepare_send objs nb (assign_queues objs a))"
proof -
  let ?h = "qo_handle (o_qp objs)"
  from run obtain w1 w2 where
    s: "setup_device (p_ibv P) w = Inr (objs, w1)"
      "modify_qp_to_init (i_modify_qp (p_ibv P) ?h) w1 = (0, w2)"
      "(if server then server_branch P pad junk objs (assign_queues objs a)
        else client_branch P pad junk objs (assign_queues objs a)) w2 = Inr ((sock, nb, a'), w')"
    unfolding main_setup_def Let_def io_Inr by fastforce
  note d = setup_device_objects [OF s(1)]
  then have ready: "ready_qp ?h w2" using to_init_ready [OF _ s(2)] by blast
  have u: "uses w2 = with_objects objs (uses w)" using to_init_uses [OF s(2)] d by simp
  show ?thesis
  proof (cases server)
    case True
    with server_branch_ok [OF ready, of pad junk a sock nb a' w'] s(3) u d show ?thesis by simp
  next
    case False
    with client_branch_ok [OF ready, of pad junk a sock nb a' w'] s(3) u d prepared_send [of objs a nb]
    show ?thesis by simp
  qed
qed

end

end
