(* ===== verification/Send_Recv_Process.thy ===== *)
theory Send_Recv_Process
  imports Send_Recv_Device
begin

text \<open>
  The process of \<^verbatim>\<open>examples/proxy_send_recv.cc\<close>, \<open>main\<close> and the proxy thread together: its
  invariant for every interleaving, and that it can always get to the end, when the uninitialised
  handler happens to be zero; and what happens when it does not.
\<close>

section \<open>Steps of the thread\<close>

lemma worker_run_world:
  assumes "worker_run run S = Inr S'"
  shows "world S' = world S \<or> (\<exists>f a. world S' = snd (run f (a, world S)))"
proof (cases "w_op S")
  case None
  with assms show ?thesis by (simp add: worker_run_def store_def)
next
  case (Some r)
  with assms show ?thesis
    by (auto simp: worker_run_def store_def call_progress_def sum_bind_eq_Inr
        split: option.splits if_splits prod.splits) (metis snd_conv)+
qed

lemma worker_check_frame [simp]:
  "mem (worker_check S) = mem S" "world (worker_check S) = world S" "log (worker_check S) = log S"
  "owned (worker_check S) = owned S" "destroyed (worker_check S) = destroyed S"
  by (simp_all add: worker_check_def)

lemma worker_fetch_frame [simp]:
  "mem (worker_fetch S) = mem S" "world (worker_fetch S) = world S" "log (worker_fetch S) = log S"
  "owned (worker_fetch S) = owned S" "destroyed (worker_fetch S) = destroyed S"
  by (simp_all add: worker_fetch_def Let_def)

text \<open>The thread of an empty ring only moves between the head of its loop, the fetch and the wait.\<close>

lemma idle_worker:
  assumes rep: "sys_rep S [] fs bl" and step: "worker_step run S = Inr S'"
  shows "sys_rep S' [] fs bl \<and> mem S' = mem S \<and> world S' = world S \<and> log S' = log S \<and>
     owned S' = owned S \<and> destroyed S' = destroyed S"
proof -
  from rep have "ops (mem S) = None" "w_op S = None"
    by (auto simp: sys_rep_def queue_inv_def ring_rep_def ops_in_def cursor_def split: option.splits)
  moreover from this rep have "wpc S \<noteq> W_run" "wpc S \<noteq> W_link" by (auto simp: sys_rep_def)
  ultimately show ?thesis
    using step sys_rep_check [OF rep] sys_rep_fetch [OF rep] rep
    by (cases "wpc S") auto
qed

lemma worker_exits:
  assumes "worker_step run S = Inr S'" and "wpc S' = W_exit" and "wpc S \<noteq> W_exit"
  shows "ph_abortFlag (handler (mem S)) \<noteq> 0 \<or> ph_stop (handler (mem S))"
  using assms
  by (cases "wpc S") (auto simp: worker_check_def worker_fetch_def Let_def
      dest: worker_run_wpc worker_link_wpc split: if_splits)

lemma worker_waits:
  assumes "worker_step run S = Inr S'" and "wpc S' = W_wait" and "wpc S \<noteq> W_wait"
  shows "ops (mem S') = None \<and> \<not> ph_stop (handler (mem S))"
  using assms
  by (cases "wpc S") (auto simp: worker_check_def worker_fetch_def Let_def
      dest: worker_run_wpc worker_link_wpc split: if_splits)

context verbs_objects
begin

lemma repost_uses: "uses (snd (repost (p_verbs P) wcs ks (a, w))) = uses w"
proof (induction ks arbitrary: a w)
  case (Cons k ks)
  let ?a = "set_recv_id (wc_id (wcs ! k)) a"
  obtain r w1 where p: "v_post_recv (p_verbs P) (ep_qp (pa_endpoint ?a)) (ep_recv_wr (pa_endpoint ?a)) w = (r, w1)"
    by fastforce
  have "uses w1 = uses w" using post_recv(1) p by (metis snd_conv)
  with Cons p show ?case by (simp add: Let_def)
qed simp

lemma call_uses:
  "v_poll_cq (p_verbs P) h n w = (r1, w') \<Longrightarrow> uses w' = uses w"
  "v_post_send (p_verbs P) h swr w = (r2, w') \<Longrightarrow> uses w' = uses w"
  "v_get_cycles (p_verbs P) w = (r3, w') \<Longrightarrow> uses w' = uses w"
  using poll_cq post_send get_cycles by (metis snd_conv)+

lemma send_uses: "uses (snd (send_benchmark (p_verbs P) (a, w))) = uses w"
  by (auto simp: send_benchmark_def Let_def dest: call_uses split: prod.split)

lemma first_uses: "uses (snd (recv_first_completion (p_verbs P) p)) = uses (snd p)"
  by (cases p) (auto simp: recv_first_completion_def dest: call_uses split: prod.split)

lemma finish_uses: "uses (snd (recv_finish (p_verbs P) p)) = uses (snd p)"
  by (cases p) (auto simp: recv_finish_def dest: call_uses split: prod.split)

lemma recv_uses: "uses (snd (recv_benchmark (p_verbs P) (a, w))) = uses w"
  by (auto simp: recv_benchmark_def Let_def finish_uses first_uses repost_uses dest: call_uses split: prod.split)

lemma run_uses: "uses (snd (progress_fn_run (p_verbs P) f (a, w))) = uses w"
  by (cases f) (simp_all add: send_uses recv_uses, simp add: exampleTask_def)

lemma worker_uses:
  assumes "worker_step (progress_fn_run (p_verbs P)) S = Inr S'"
  shows "uses (world S') = uses (world S)"
proof (cases "wpc S")
  case W_run
  with assms worker_run_world [of "progress_fn_run (p_verbs P)" S S'] run_uses show ?thesis by auto
next
  case W_link
  with assms worker_link_world [of S S'] show ?thesis by simp
qed (use assms in auto)

end

section \<open>The invariant of the process\<close>

text \<open>
  The system is in order: the queue is, nobody aborts, the stop flag is set in \<open>M_join\<close> only, the
  thread ends there only, and the operations in the ring are in order.
\<close>

definition sys_ok ::
  "(progress_fn \<Rightarrow> progress_fn ProxyArgs \<Rightarrow> bool) \<Rightarrow> main_pc \<Rightarrow> (progress_fn, 'w) sys \<Rightarrow> argref ring \<Rightarrow> argref list \<Rightarrow> nat list \<Rightarrow> bool" where
  "sys_ok good pc S ring fs bl \<longleftrightarrow>
     sys_rep S ring fs bl \<and> \<not> destroyed S \<and> ph_abortFlag (handler (mem S)) = 0 \<and>
     (ph_stop (handler (mem S)) \<longleftrightarrow> pc = M_join) \<and> (wpc S = W_exit \<longrightarrow> pc = M_join) \<and>
     all_good good S ring"

text \<open>\<open>main\<close> holds its operation: \<open>P\<close> says what is in it.\<close>

definition holds_args :: "(progress_fn ProxyArgs \<Rightarrow> bool) \<Rightarrow> 'w main_state \<Rightarrow> bool" where
  "holds_args P st \<longleftrightarrow>
     (\<exists>r a. ms_args st = Some r \<and> heap (mem (ms_sys st)) r = Some a \<and> owned (ms_sys st) = {r} \<and>
        pa_nextPeer a = None \<and> pa_proxyTail a = Some 0 \<and> 0 \<in> dom (tails (mem (ms_sys st))) \<and> P a)"

definition holds_objects ::
  "('w \<Rightarrow> obj \<rightharpoonup> obj set) \<Rightarrow> 'w \<Rightarrow> 'w main_state \<Rightarrow> bool" where
  "holds_objects uses w0 st \<longleftrightarrow>
     (\<exists>objs. ms_objs st = Some objs \<and> fresh_objects objs (uses w0) \<and>
        uses (world (ms_sys st)) = with_objects objs (uses w0))"

definition submittable ::
  "(progress_fn \<Rightarrow> progress_fn ProxyArgs \<Rightarrow> bool) \<Rightarrow> progress_fn ProxyArgs \<Rightarrow> bool" where
  "submittable good a \<longleftrightarrow> (\<exists>f. pa_progress a = Some f \<and> good f a)"

text \<open>What holds at each place of \<open>main\<close> while the thread runs.\<close>

fun phase_ok ::
  "('w \<Rightarrow> obj \<rightharpoonup> obj set) \<Rightarrow> 'w \<Rightarrow> (progress_fn \<Rightarrow> progress_fn ProxyArgs \<Rightarrow> bool) \<Rightarrow> 'w main_state \<Rightarrow>
   argref ring \<Rightarrow> main_pc \<Rightarrow> bool" where
  "phase_ok uses w0 good st ring M_alloc \<longleftrightarrow>
     ring = [] \<and> tails (mem (ms_sys st)) = Map.empty \<and> owned (ms_sys st) = {} \<and>
     world (ms_sys st) = w0"
| "phase_ok uses w0 good st ring M_setup \<longleftrightarrow>
     ring = [] \<and> holds_args (\<lambda>_. True) st \<and> world (ms_sys st) = w0"
| "phase_ok uses w0 good st ring M_append \<longleftrightarrow>
     ring = [] \<and> holds_args (submittable good) st \<and> holds_objects uses w0 st"
| "phase_ok uses w0 good st ring M_leave \<longleftrightarrow> holds_objects uses w0 st"
| "phase_ok uses w0 good st ring M_start \<longleftrightarrow> holds_objects uses w0 st"
| "phase_ok uses w0 good st ring M_wait \<longleftrightarrow>
     holds_objects uses w0 st \<and> \<not> sleeps_with_work (ms_sys st)"
| "phase_ok uses w0 good st ring M_release \<longleftrightarrow> ring = [] \<and> holds_objects uses w0 st"
| "phase_ok uses w0 good st ring M_destroy \<longleftrightarrow> ring = [] \<and> uses (world (ms_sys st)) = uses w0"
| "phase_ok uses w0 good st ring M_join \<longleftrightarrow>
     ring = [] \<and> uses (world (ms_sys st)) = uses w0 \<and> wpc (ms_sys st) \<noteq> W_wait"
| "phase_ok uses w0 good st ring _ \<longleftrightarrow> False"

definition released :: "('w \<Rightarrow> obj \<rightharpoonup> obj set) \<Rightarrow> 'w \<Rightarrow> (progress_fn, 'w) sys \<Rightarrow> bool" where
  "released uses w0 S \<longleftrightarrow>
     uses (world S) = uses w0 \<and> heap (mem S) = Map.empty \<and> blocks (mem S) = Map.empty"

definition process_inv ::
  "('a, 'w) platform \<Rightarrow> ('w \<Rightarrow> obj \<rightharpoonup> obj set) \<Rightarrow> 'w \<Rightarrow> (progress_fn \<Rightarrow> progress_fn ProxyArgs \<Rightarrow> bool) \<Rightarrow> 'w main_state \<Rightarrow> bool" where
  "process_inv P uses w0 good st \<longleftrightarrow>
     (case ms_pc st of
        M_create \<Rightarrow> \<exists>h. happens_zero h \<and> st = new_process h w0
      | M_return \<Rightarrow> released uses w0 (ms_sys st)
      | M_error e \<Rightarrow> \<forall>f. e = Main_fault f \<longrightarrow>
          f = ExitOutOfMemory \<or> f = NullDeref \<and> device_missing (i_device_list (p_ibv P) w0)
      | pc \<Rightarrow> \<exists>ring fs bl. sys_ok good pc (ms_sys st) ring fs bl \<and> phase_ok uses w0 good st ring pc)"

lemma process_invI:
  "sys_ok good (ms_pc st) (ms_sys st) ring fs bl \<Longrightarrow> phase_ok uses w0 good st ring (ms_pc st) \<Longrightarrow>
   process_inv P uses w0 good st"
  by (cases "ms_pc st") (auto simp: process_inv_def)

lemma process_invE:
  assumes "process_inv P uses w0 good st" and "\<not> main_ended (ms_pc st)" and "ms_pc st \<noteq> M_create"
  obtains ring fs bl where "sys_ok good (ms_pc st) (ms_sys st) ring fs bl"
    and "phase_ok uses w0 good st ring (ms_pc st)"
  using assms by (cases "ms_pc st") (auto simp: process_inv_def)

lemma sys_rep_world: "sys_rep S ring fs bl \<Longrightarrow> sys_rep (S\<lparr>world := w\<rparr>) ring fs bl"
  by (erule sys_rep_same_data) (simp add: same_data_def)

text \<open>
  The process that is looked at: \<open>good\<close> is what is known of the operations, and holds of the one that
  \<open>main\<close> makes.
\<close>

locale good_process =
  verbs_objects P uses qps + keeping_progress "progress_fn_run (p_verbs P)" good
  for P :: "('a, 'w) platform" and uses :: "'w \<Rightarrow> obj \<rightharpoonup> obj set" and qps :: "'w \<Rightarrow> nat \<Rightarrow> qp"
    and good :: "progress_fn \<Rightarrow> progress_fn ProxyArgs \<Rightarrow> bool" +
  fixes server :: bool
  assumes fresh_good: "pa_iterations a = 0 \<Longrightarrow> good (if server then RecvBenchmark else SendBenchmark) a"

text \<open>With nothing known of the operations, every process is one.\<close>

context verbs_objects
begin

lemma any_process: "good_process P uses qps (\<lambda>_ _. True) server"
  by unfold_locales simp_all

end

section \<open>The steps of the thread\<close>

lemma idle_ok:
  assumes "sys_ok good pc S [] fs bl" and "worker_step run S = Inr S'"
  shows "sys_ok good pc S' [] fs bl"
  using idle_worker [of S fs bl run S'] worker_exits [of run S S'] assms by (auto simp: sys_ok_def)

lemma holds_same:
  assumes "mem S = mem (ms_sys st)" and "owned S = owned (ms_sys st)"
  shows "holds_args Q (st\<lparr>ms_sys := S\<rparr>) = holds_args Q st"
  using assms by (simp add: holds_args_def)

lemma objects_same:
  assumes "uses (world S) = uses (world (ms_sys st))"
  shows "holds_objects uses w0 (st\<lparr>ms_sys := S\<rparr>) = holds_objects uses w0 st"
  using assms by (simp add: holds_objects_def)

context good_process
begin

lemma thread_inv:
  assumes ok: "sys_ok good (ms_pc st) (ms_sys st) ring fs bl"
    and ph: "phase_ok uses w0 good st ring (ms_pc st)"
    and step: "worker_step (progress_fn_run (p_verbs P)) (ms_sys st) = Inr S'"
  shows "process_inv P uses w0 good (st\<lparr>ms_sys := S'\<rparr>)"
proof -
  let ?S = "ms_sys st"
  note u = worker_uses [OF step]
  show ?thesis
  proof (cases "ring = []")
    case True
    note ok' = ok [unfolded True]
    from ok' have "sys_rep ?S [] fs bl" by (simp add: sys_ok_def)
    note i = idle_worker [OF this step]
    have w: "wpc S' = W_wait \<longrightarrow> wpc ?S = W_wait \<or> \<not> ph_stop (handler (mem ?S))"
      using worker_waits [OF step] by blast
    have "ops (mem ?S) = None"
      using ok' by (auto simp: sys_ok_def sys_rep_def queue_inv_def ops_in_def split: option.splits)
    then have "\<not> sleeps_with_work S'" using i by (simp add: sleeps_with_work_def)
    moreover have "ms_pc st = M_join \<longrightarrow> ph_stop (handler (mem ?S))" using ok by (simp add: sys_ok_def)
    ultimately have "phase_ok uses w0 good (st\<lparr>ms_sys := S'\<rparr>) [] (ms_pc st)"
      using ph i u w by (cases "ms_pc st") (auto simp: True holds_same objects_same)
    then show ?thesis using idle_ok [OF ok' step] by (intro process_invI) simp_all
  next
    case False
    from ok have rep: "sys_rep ?S ring fs bl" by (simp add: sys_ok_def)
    from worker_good [OF rep step] obtain ring' fs' where r: "sys_rep S' ring' fs' bl"
      "same_flags ?S S'" "destroyed S' = destroyed ?S"
      "all_good good ?S ring \<longrightarrow> all_good good S' ring'" by blast
    have "sys_ok good (ms_pc st) S' ring' fs' bl"
      using r ok worker_exits [OF step] by (auto simp: sys_ok_def same_flags_def)
    moreover have "sleeps_with_work S' \<longrightarrow> sleeps_with_work ?S"
      using step worker_waits [OF step] by (cases "wpc ?S = W_wait") (auto simp: sleeps_with_work_def)
    then have "phase_ok uses w0 good (st\<lparr>ms_sys := S'\<rparr>) ring' (ms_pc st)"
      using ph False u by (cases "ms_pc st") (auto simp: objects_same)
    ultimately show ?thesis by (intro process_invI) simp_all
  qed
qed

lemma signal_inv:
  assumes ok: "sys_ok good (ms_pc st) (ms_sys st) ring fs bl"
    and ph: "phase_ok uses w0 good st ring (ms_pc st)"
  shows "process_inv P uses w0 good (st\<lparr>ms_sys := signal (ms_sys st)\<rparr>)"
proof -
  let ?S = "ms_sys st"
  from ok have "sys_rep ?S ring fs bl" by (simp add: sys_ok_def)
  then have rep: "sys_rep (signal ?S) ring fs bl" by (rule sys_rep_same_data) simp
  have s: "mem (signal ?S) = mem ?S" "world (signal ?S) = world ?S" "owned (signal ?S) = owned ?S"
    "destroyed (signal ?S) = destroyed ?S" "wpc (signal ?S) \<noteq> W_wait"
    "wpc (signal ?S) = W_exit \<longleftrightarrow> wpc ?S = W_exit"
    by (simp_all add: signal_def)
  have "sys_ok good (ms_pc st) (signal ?S) ring fs bl"
    using rep s ok by (simp add: sys_ok_def all_good_def)
  moreover have "phase_ok uses w0 good (st\<lparr>ms_sys := signal ?S\<rparr>) ring (ms_pc st)"
    using ph s by (cases "ms_pc st") (auto simp: holds_same objects_same sleeps_with_work_def)
  ultimately show ?thesis by (intro process_invI) simp_all
qed

end

section \<open>The steps of \<open>main\<close>\<close>

lemma init_sys_ok: "sys_ok good M_alloc (init_sys w) [] [] []"
  by (simp add: sys_ok_def init_sys_def ProxyCreate_def zero_handler_def sys_rep_def queue_inv_def
      ring_rep_def pool_rep_def ops_in_def block_inv_def)

lemma store_eq: "heap s r = Some a \<Longrightarrow> store (Some r) u s = Inr (s\<lparr>heap := (heap s)(r \<mapsto> u a)\<rparr>)"
  by simp

lemma alloc_steps:
  assumes rep: "sys_rep S [] fs bl" and S: "\<not> destroyed S" "owned S = {}" "tails (mem S) = Map.empty"
    and m: "malloc_ok m (mem S)" "m \<noteq> None \<or> fs \<noteq> []"
  shows "\<exists>r s s1 s2 a fs' bl'. allocateArgs m (mem S) = Inr (Some r, s) \<and>
     store (Some r) (\<lambda>a. a\<lparr>pa_state := ProxyOpReady\<rparr>) s = Inr s1 \<and>
     store (Some r) (\<lambda>a. a\<lparr>pa_proxyTail := Some 0\<rparr>) (s1\<lparr>tails := (tails s1)(0 \<mapsto> None)\<rparr>) = Inr s2 \<and>
     sys_rep (S\<lparr>mem := s2, owned := {r}\<rparr>) [] fs' bl' \<and> heap s2 r = Some a \<and>
     pa_nextPeer a = None \<and> pa_proxyTail a = Some 0 \<and> tails s2 0 = Some None \<and>
     ph_stop (handler s2) = ph_stop (handler (mem S)) \<and>
     ph_abortFlag (handler s2) = ph_abortFlag (handler (mem S))"
proof -
  have "legal (Alloc m) S" using S m by simp
  from sys_rep_alloc [OF rep this m(2), of undefined] obtain S1 r fs' bl' where
    S1: "exec undefined (Alloc m) S = Some (Inr S1)" "sys_rep S1 [] fs' bl'"
      "allocateArgs m (mem S) = Inr (Some r, mem S1)" "owned S1 = insert r (owned S)"
      "taken (mem S) r (mem S1)" by blast
  then have eq1: "S1 = S\<lparr>mem := mem S1, owned := {r}\<rparr>" using S by auto
  from S1(5) obtain x where x: "heap (mem S1) r = Some x" "pa_nextPeer x = None"
    and t: "tails (mem S1) = Map.empty" and fl: "ph_stop (handler (mem S1)) = ph_stop (handler (mem S))"
      "ph_abortFlag (handler (mem S1)) = ph_abortFlag (handler (mem S))"
    using S by (auto simp: taken_def)
  let ?u = "\<lambda>a. a\<lparr>pa_state := ProxyOpReady\<rparr>"
  let ?v = "\<lambda>a. a\<lparr>pa_proxyTail := Some (0 :: nat)\<rparr>"
  let ?s1 = "(mem S1)\<lparr>heap := (heap (mem S1))(r \<mapsto> ?u x)\<rparr>"
  let ?s = "?s1\<lparr>tails := (tails ?s1)(0 \<mapsto> None)\<rparr>"
  let ?s2 = "?s\<lparr>heap := (heap ?s)(r \<mapsto> ?v (?u x))\<rparr>"
  have own: "r \<in> owned S1" "\<not> destroyed S1"
    by (simp add: S1(4), subst eq1, simp add: S(1))
  from sys_rep_fill [OF S1(2), of r ?u undefined] x own
  have r2: "sys_rep (S1\<lparr>mem := ?s1\<rparr>) [] fs' bl'" by (simp add: store_eq)
  from sys_rep_new_tail [OF r2, of 0 undefined] t own
  have r3: "sys_rep (S1\<lparr>mem := ?s\<rparr>) [] fs' bl'" by simp
  from sys_rep_fill [OF r3, of r ?v undefined] own
  have r4: "sys_rep (S1\<lparr>mem := ?s2\<rparr>) [] fs' bl'" by (simp add: store_eq)
  moreover have "S1\<lparr>mem := ?s2\<rparr> = S\<lparr>mem := ?s2, owned := {r}\<rparr>" by (subst eq1) simp
  ultimately have rep': "sys_rep (S\<lparr>mem := ?s2, owned := {r}\<rparr>) [] fs' bl'" by (simp only:)
  show ?thesis
    by (rule exI [of _ r], rule exI [of _ "mem S1"], rule exI [of _ ?s1], rule exI [of _ ?s2],
        rule exI [of _ "?v (?u x)"], rule exI [of _ fs'], rule exI [of _ bl'])
      (use S1(3) x rep' fl in \<open>simp add: store_eq del: fun_upd_upd\<close>)
qed

lemma alloc_args_world: "world (ms_sys (alloc_args m st)) = world (ms_sys st)"
  by (auto simp: alloc_args_def on_fault_def Let_def split: sum.split prod.split)

lemma alloc_args_inv:
  assumes ok: "sys_ok good M_alloc (ms_sys st) ring fs bl"
    and ph: "phase_ok uses w0 good st ring M_alloc" and pc: "ms_pc st = M_alloc"
    and m: "malloc_ok m (mem (ms_sys st))"
  shows "process_inv P uses w0 good (alloc_args m st) \<and>
    (m \<noteq> None \<longrightarrow> ms_pc (alloc_args m st) = M_setup)"
proof -
  let ?S = "ms_sys st"
  from ok ph have rep: "sys_rep ?S [] fs bl" and nd: "\<not> destroyed ?S"
    and ow: "owned ?S = {}" and ta: "tails (mem ?S) = Map.empty" by (auto simp: sys_ok_def)
  show ?thesis
  proof (cases "m \<noteq> None \<or> fs \<noteq> []")
    case False
    then have "exec undefined (Alloc m) ?S = Some (Inl ExitOutOfMemory)"
      using alloc_out_of_memory [of ?S "[]" bl undefined] rep by simp
    then have "allocateArgs m (mem ?S) = Inl ExitOutOfMemory" by (auto simp: sum_bind_eq_Inl)
    with False show ?thesis by (simp add: alloc_args_def on_fault_def Let_def process_inv_def)
  next
    case True
    from alloc_steps [OF rep nd ow ta m True] obtain r s s1 s2 a fs' bl' where
      s: "allocateArgs m (mem ?S) = Inr (Some r, s)"
      "store (Some r) (\<lambda>a. a\<lparr>pa_state := ProxyOpReady\<rparr>) s = Inr s1"
      "store (Some r) (\<lambda>a. a\<lparr>pa_proxyTail := Some 0\<rparr>) (s1\<lparr>tails := (tails s1)(0 \<mapsto> None)\<rparr>) = Inr s2"
      and rep': "sys_rep (?S\<lparr>mem := s2, owned := {r}\<rparr>) [] fs' bl'"
      and a: "heap s2 r = Some a" "pa_nextPeer a = None" "pa_proxyTail a = Some 0"
        "tails s2 0 = Some None" "ph_stop (handler s2) = ph_stop (handler (mem ?S))"
        "ph_abortFlag (handler s2) = ph_abortFlag (handler (mem ?S))"
      by (elim exE conjE) (rule that, assumption+)
    have eq: "alloc_args m st = st\<lparr>ms_pc := M_setup, ms_args := Some r,
        ms_sys := ?S\<lparr>mem := s2, owned := {r}\<rparr>\<rparr>"
      using s ow by (simp add: alloc_args_def on_fault_def Let_def)
    have "sys_ok good M_setup (?S\<lparr>mem := s2, owned := {r}\<rparr>) [] fs' bl'"
      using ok rep' a by (simp add: sys_ok_def)
    moreover have "phase_ok uses w0 good (alloc_args m st) [] M_setup"
      using ph a by (auto simp: eq holds_args_def)
    ultimately have "process_inv P uses w0 good (alloc_args m st)"
      by (intro process_invI [of _ _ "[]" fs' bl']) (simp_all add: eq)
    then show ?thesis by (simp add: eq)
  qed
qed

context good_process
begin

lemma append_args_inv:
  assumes ok: "sys_ok good M_append (ms_sys st) ring fs bl"
    and ph: "phase_ok uses w0 good st ring M_append"
  shows "process_inv P uses w0 good (append_args st) \<and> ms_pc (append_args st) = M_leave"
proof -
  let ?S = "ms_sys st"
  from ph obtain r a where a: "ms_args st = Some r" "heap (mem ?S) r = Some a" "owned ?S = {r}"
    "pa_nextPeer a = None" "pa_proxyTail a = Some 0" "0 \<in> dom (tails (mem ?S))" "submittable good a"
    and ring: "ring = []" and obj: "holds_objects uses w0 st" by (auto simp: holds_args_def)
  from ok ring have rep: "sys_rep ?S [] fs bl" and nd: "\<not> destroyed ?S" by (auto simp: sys_ok_def)
  have "legal (Append r) ?S" using a nd by (auto simp: link_at submittable_def)
  from sys_rep_append [OF rep this, of undefined] obtain S' ring' where
    S': "exec undefined (Append r) ?S = Some (Inr S')" "sys_rep S' ring' fs bl"
      "set (ring_ops ring') = insert r (set (ring_ops []))" "queue_step (mem ?S) (mem S')" by blast
  from S'(1) obtain s where s: "ProxyArgsAppend r (mem ?S) = Inr s"
    "S' = ?S\<lparr>mem := s, owned := owned ?S - {r}\<rparr>" by (auto simp: sum_bind_eq_Inr)
  then have eq: "append_args st = st\<lparr>ms_pc := M_leave, ms_sys := S'\<rparr>"
    using a by (simp add: append_args_def on_fault_def Let_def)
  have "same_payload (heap (mem ?S)) (heap (mem S'))" using S'(4) by (simp add: queue_step_def)
  from good_payload [OF this] have "all_good good S' ring'"
    using a S'(3) by (auto simp: all_good_def op_good_def submittable_def)
  moreover have "ph_stop (handler s) = ph_stop (handler (mem ?S))"
    "ph_abortFlag (handler s) = ph_abortFlag (handler (mem ?S))"
    using S'(4) s by (simp_all add: queue_step_def)
  ultimately have "sys_ok good M_leave S' ring' fs bl" using ok S'(2) s by (simp add: sys_ok_def)
  moreover have "phase_ok uses w0 good (append_args st) ring' M_leave"
    using obj by (simp add: eq holds_objects_def s(2))
  ultimately have "process_inv P uses w0 good (append_args st)"
    by (intro process_invI [of _ _ ring' fs bl]) (simp_all add: eq)
  then show ?thesis by (simp add: eq)
qed

lemma setup_args_inv:
  assumes ok: "sys_ok good M_setup (ms_sys st) ring fs bl"
    and ph: "phase_ok uses w0 good st ring M_setup"
  shows "process_inv P uses w0 good (setup_args P server pad junk st) \<and>
     (ms_pc (setup_args P server pad junk st) = M_append \<or>
      (\<exists>e. ms_pc (setup_args P server pad junk st) = M_error e \<and>
         main_setup P server pad junk
           (the (heap (mem (ms_sys st)) (the (ms_args st)))) (world (ms_sys st)) = Inl e))"
proof -
  let ?S = "ms_sys st"
  from ph obtain r a where a: "ms_args st = Some r" "heap (mem ?S) r = Some a" "owned ?S = {r}"
    "pa_nextPeer a = None" "pa_proxyTail a = Some 0" "0 \<in> dom (tails (mem ?S))"
    and ring: "ring = []" and u: "world ?S = w0" by (auto simp: holds_args_def)
  from ok ring have rep: "sys_rep ?S [] fs bl" and nd: "\<not> destroyed ?S" by (auto simp: sys_ok_def)
  show ?thesis
  proof (cases "main_setup P server pad junk a (world ?S)")
    case (Inl e)
    then have eq: "setup_args P server pad junk st = goto st (M_error e)"
      using a by (simp add: setup_args_def on_fault_def Let_def)
    have "\<forall>f. e = Main_fault f \<longrightarrow> f = NullDeref \<and> device_missing (i_device_list (p_ibv P) w0)"
      using main_setup_faults [of P server pad junk a "world ?S"] Inl u by auto
    then show ?thesis using a Inl by (simp add: eq process_inv_def)
  next
    case (Inr res)
    then obtain objs sock nb a' w' where run: "main_setup P server pad junk a (world ?S) = Inr ((objs, sock, nb, a'), w')"
      by (cases res) auto
    let ?s = "(mem ?S)\<lparr>heap := (heap (mem ?S))(r \<mapsto> a')\<rparr>"
    have eq: "setup_args P server pad junk st = st\<lparr>ms_pc := M_append, ms_objs := Some objs,
        ms_sock := Some sock, ms_sys := ?S\<lparr>mem := ?s, world := w'\<rparr>\<rparr>"
      using a run by (simp add: setup_args_def on_fault_def Let_def)
    note m = main_setup_ok [OF run]
    from sys_rep_fill [OF rep, of r "\<lambda>_. a'" undefined] a nd
    have "sys_rep (?S\<lparr>mem := ?s\<rparr>) [] fs bl" by (simp add: store_eq)
    then have "sys_rep (?S\<lparr>mem := ?s\<rparr>\<lparr>world := w'\<rparr>) [] fs bl" by (rule sys_rep_world)
    then have "sys_ok good M_append (?S\<lparr>mem := ?s, world := w'\<rparr>) [] fs bl"
      using ok by (simp add: sys_ok_def)
    moreover have "submittable good a'"
      using m fresh_good [of a'] by (cases server) (auto simp: submittable_def prepare_send_def prepared_def)
    then have "phase_ok uses w0 good (setup_args P server pad junk st) [] M_append"
      using m a u by (auto simp: eq holds_args_def holds_objects_def prepared_def)
    ultimately have "process_inv P uses w0 good (setup_args P server pad junk st)"
      by (intro process_invI [of _ _ "[]" fs bl]) (simp_all add: eq)
    then show ?thesis by (simp add: eq)
  qed
qed

lemma leave_inv:
  assumes ok: "sys_ok good M_leave S ring fs bl"
    and ph: "phase_ok uses w0 good st ring M_leave" and S: "S = ms_sys st"
  shows "process_inv P uses w0 good (st\<lparr>ms_pc := M_start,
     ms_sys := S\<lparr>world := SocketEndpoint_destructor (p_os P) ep (world S)\<rparr>\<rparr>)"
proof -
  have "uses (SocketEndpoint_destructor (p_os P) ep (world S)) = uses (world S)"
    using destructor_obs [of ep "world S"] by simp
  then show ?thesis using ok ph
    by (intro process_invI [of _ _ ring fs bl])
      (simp_all add: S sys_ok_def sys_rep_world all_good_def holds_objects_def)
qed

lemma start_inv:
  assumes ok: "sys_ok good M_start (ms_sys st) ring fs bl"
    and ph: "phase_ok uses w0 good st ring M_start"
  shows "process_inv P uses w0 good (st\<lparr>ms_pc := M_wait, ms_sys := ProxyStart (ms_sys st)\<rparr>)"
proof -
  let ?S = "ms_sys st" and ?T = "ProxyStart (ms_sys st)"
  have rep: "sys_rep ?T ring fs bl"
    by (rule sys_rep_same_data [of ?S]) (use ok in \<open>simp_all add: sys_ok_def\<close>)
  have "heap (mem ?T) = heap (mem ?S)" "world ?T = world ?S" "destroyed ?T = destroyed ?S"
    "ph_abortFlag (handler (mem ?T)) = ph_abortFlag (handler (mem ?S))"
    "ph_stop (handler (mem ?S)) = False \<longrightarrow> ph_stop (handler (mem ?T)) = False"
    "wpc ?T = W_exit \<longleftrightarrow> wpc ?S = W_exit" "\<not> sleeps_with_work ?T"
    by (auto simp: ProxyStart_def signal_def set_stop_def sleeps_with_work_def)
  with ok ph rep show ?thesis
    by (intro process_invI [of _ _ ring fs bl])
      (simp_all add: sys_ok_def all_good_def holds_objects_def)
qed

lemma wait_inv:
  assumes ok: "sys_ok good M_wait (ms_sys st) ring fs bl"
    and ph: "phase_ok uses w0 good st ring M_wait"
    and ret: "ProxyWaitAllOpFinished_returns (ms_sys st)"
  shows "process_inv P uses w0 good (goto st M_release)"
proof -
  from ok ret have "ring = []"
    by (auto simp: sys_ok_def sys_rep_def queue_inv_def ops_in_def ProxyWaitAllOpFinished_returns_def)
  with ok ph show ?thesis
    by (intro process_invI [of _ _ ring fs bl]) (simp_all add: sys_ok_def holds_objects_def)
qed

lemma release_inv:
  assumes ok: "sys_ok good M_release S ring fs bl"
    and ph: "phase_ok uses w0 good st ring M_release" and S: "S = ms_sys st"
  shows "process_inv P uses w0 good (st\<lparr>ms_pc := M_destroy,
     ms_sys := S\<lparr>world := release (p_ibv P) (the (ms_objs st)) (world S)\<rparr>\<rparr>)"
proof -
  from ph S obtain objs where o: "ms_objs st = Some objs" "fresh_objects objs (uses w0)"
    "uses (world S) = with_objects objs (uses w0)" and ring: "ring = []" by (auto simp: holds_objects_def)
  from release_objects [OF o(3,2) uses_closed]
  have "uses (release (p_ibv P) objs (world S)) = uses w0" by simp
  with ok o ring show ?thesis
    by (intro process_invI [of _ _ ring fs bl])
      (simp_all add: S sys_ok_def sys_rep_world all_good_def)
qed

lemma destroy_inv:
  assumes ok: "sys_ok good M_destroy (ms_sys st) ring fs bl"
    and ph: "phase_ok uses w0 good st ring M_destroy"
  shows "process_inv P uses w0 good (st\<lparr>ms_pc := M_join, ms_sys := ProxyDestroy_begin (ms_sys st)\<rparr>)"
proof -
  let ?S = "ms_sys st" and ?T = "ProxyDestroy_begin (ms_sys st)"
  have rep: "sys_rep ?T ring fs bl"
    by (rule sys_rep_same_data [of ?S]) (use ok in \<open>simp_all add: sys_ok_def\<close>)
  have "heap (mem ?T) = heap (mem ?S)" "world ?T = world ?S" "destroyed ?T = destroyed ?S"
    "ph_abortFlag (handler (mem ?T)) = ph_abortFlag (handler (mem ?S))" "ph_stop (handler (mem ?T))"
    "wpc ?T \<noteq> W_wait"
    by (auto simp: ProxyDestroy_begin_def signal_def set_stop_def)
  with ok ph rep show ?thesis
    by (intro process_invI [of _ _ ring fs bl]) (simp_all add: sys_ok_def all_good_def)
qed

lemma join_inv:
  assumes ok: "sys_ok good M_join (ms_sys st) ring fs bl"
    and ph: "phase_ok uses w0 good st ring M_join"
  shows "\<exists>S. ProxyDestroy_finish (ms_sys st) = Some (Inr S) \<and> released uses w0 S"
proof -
  let ?S = "ms_sys st"
  from ok have "sys_rep ?S ring fs bl" by (simp add: sys_ok_def)
  from sys_rep_destroy [OF this] obtain S where S: "ProxyDestroy_finish ?S = Some (Inr S)"
    "heap (mem S) = Map.empty" "blocks (mem S) = Map.empty" by blast
  moreover have "world S = world ?S"
    using S(1) by (auto simp: ProxyDestroy_finish_def split: option.splits sum.splits)
  ultimately show ?thesis using ph by (simp add: released_def)
qed

text \<open>
  The invariant holds in every state of the process, if the handler happens to be zero where it
  matters.
\<close>

lemma create_zero: "happens_zero h \<Longrightarrow> ProxyCreate (ms_sys (new_process h w)) = init_sys w"
  by (cases h) (simp add: happens_zero_def new_process_def init_sys_def ProxyCreate_def zero_handler_def)

lemma main_step_inv:
  assumes inv: "process_inv P uses w0 good st" and step: "main_step P server pad junk m st = Some st'"
  shows "process_inv P uses w0 good st'"
proof (cases "ms_pc st")
  case M_create
  with inv obtain h where h: "happens_zero h" and st: "st = new_process h w0"
    by (auto simp: process_inv_def)
  from step M_create have "st' = st\<lparr>ms_pc := M_alloc, ms_sys := ProxyCreate (ms_sys st)\<rparr>" by (simp add: Let_def)
  then have "st' = st\<lparr>ms_pc := M_alloc, ms_sys := init_sys w0\<rparr>"
    by (simp only: st create_zero [OF h])
  then show ?thesis
    using init_sys_ok [of good w0]
    by (intro process_invI [of _ _ "[]" "[]" "[]"])
      (simp_all add: init_sys_def ProxyCreate_def zero_handler_def)
next
  case M_return
  with step show ?thesis by simp
next
  case (M_error e)
  with step show ?thesis by simp
next
  case M_alloc
  then obtain ring fs bl where i: "sys_ok good M_alloc (ms_sys st) ring fs bl"
    "phase_ok uses w0 good st ring M_alloc" using process_invE [OF inv] by auto
  from step M_alloc have "malloc_ok m (mem (ms_sys st))" "st' = alloc_args m st"
    by (auto simp: Let_def split: if_splits)
  then show ?thesis using alloc_args_inv [OF i M_alloc] by blast
next
  case M_setup
  then obtain ring fs bl where i: "sys_ok good M_setup (ms_sys st) ring fs bl"
    "phase_ok uses w0 good st ring M_setup" using process_invE [OF inv] by auto
  then show ?thesis using setup_args_inv [OF i, of pad junk] step M_setup by simp
next
  case M_append
  then obtain ring fs bl where i: "sys_ok good M_append (ms_sys st) ring fs bl"
    "phase_ok uses w0 good st ring M_append" using process_invE [OF inv] by auto
  then show ?thesis using append_args_inv [OF i] step M_append by simp
next
  case M_leave
  then obtain ring fs bl where i: "sys_ok good M_leave (ms_sys st) ring fs bl"
    "phase_ok uses w0 good st ring M_leave" using process_invE [OF inv] by auto
  then show ?thesis using leave_inv [OF i refl] step M_leave by (auto simp: Let_def)
next
  case M_start
  then obtain ring fs bl where i: "sys_ok good M_start (ms_sys st) ring fs bl"
    "phase_ok uses w0 good st ring M_start" using process_invE [OF inv] by auto
  then show ?thesis using start_inv [OF i] step M_start by (auto simp: Let_def)
next
  case M_wait
  then obtain ring fs bl where i: "sys_ok good M_wait (ms_sys st) ring fs bl"
    "phase_ok uses w0 good st ring M_wait" using process_invE [OF inv] by auto
  then show ?thesis using wait_inv [OF i] step M_wait by (auto simp: Let_def split: if_splits)
next
  case M_release
  then obtain ring fs bl where i: "sys_ok good M_release (ms_sys st) ring fs bl"
    "phase_ok uses w0 good st ring M_release" using process_invE [OF inv] by auto
  then show ?thesis using release_inv [OF i refl] step M_release by (auto simp: Let_def)
next
  case M_destroy
  then obtain ring fs bl where i: "sys_ok good M_destroy (ms_sys st) ring fs bl"
    "phase_ok uses w0 good st ring M_destroy" using process_invE [OF inv] by auto
  then show ?thesis using destroy_inv [OF i] step M_destroy by (auto simp: Let_def)
next
  case M_join
  then obtain ring fs bl where i: "sys_ok good M_join (ms_sys st) ring fs bl"
    "phase_ok uses w0 good st ring M_join" using process_invE [OF inv] by auto
  from join_inv [OF i] step M_join show ?thesis
    by (auto simp: Let_def on_fault_def process_inv_def split: if_splits)
qed

lemma process_step_inv:
  assumes inv: "process_inv P uses w0 good st" and step: "process_step P server pad junk act st = Some st'"
  shows "process_inv P uses w0 good st'"
proof (cases act)
  case (Main m)
  with main_step_inv [OF inv] step show ?thesis by simp
next
  case Thread
  with step have ne: "\<not> main_ended (ms_pc st)" by (auto split: if_splits)
  show ?thesis
  proof (cases "ms_pc st = M_create")
    case True
    with inv obtain h where "st = new_process h w0" by (auto simp: process_inv_def)
    with step inv Thread show ?thesis by (simp add: new_process_def on_fault_def)
  next
    case False
    from process_invE [OF inv ne False] obtain ring fs bl where
      i: "sys_ok good (ms_pc st) (ms_sys st) ring fs bl" "phase_ok uses w0 good st ring (ms_pc st)" .
    from i(1) have "sys_rep (ms_sys st) ring fs bl" by (simp add: sys_ok_def)
    from sys_rep_worker [OF this] obtain S' where
      S': "worker_step (progress_fn_run (p_verbs P)) (ms_sys st) = Inr S'" by blast
    with step Thread ne have "st' = st\<lparr>ms_sys := S'\<rparr>" by (simp add: on_fault_def del: worker_step.simps)
    then show ?thesis using thread_inv [OF i S'] by simp
  qed
next
  case Spurious
  with step have ne: "\<not> main_ended (ms_pc st)" and st': "st' = st\<lparr>ms_sys := signal (ms_sys st)\<rparr>"
    by (auto split: if_splits)
  show ?thesis
  proof (cases "ms_pc st = M_create")
    case True
    with inv obtain h where "st = new_process h w0" by (auto simp: process_inv_def)
    with st' inv show ?thesis by (simp add: new_process_def signal_def)
  next
    case False
    from process_invE [OF inv ne False] obtain ring fs bl where
      "sys_ok good (ms_pc st) (ms_sys st) ring fs bl" "phase_ok uses w0 good st ring (ms_pc st)" .
    from signal_inv [OF this] st' show ?thesis by simp
  qed
qed

lemma process_holds:
  assumes "happens_zero h" and "process P server pad junk h w0 st"
  shows "process_inv P uses w0 good st"
  using assms(2)
proof (induction rule: process.induct)
  case process_new
  have "ms_pc (new_process h w0) = M_create" by (simp add: new_process_def)
  with assms(1) show ?case by (auto simp: process_inv_def)
next
  case (process_more st act st')
  then show ?case using process_step_inv by blast
qed

lemma process_run_inv:
  "process_inv P uses w0 good st \<Longrightarrow> process_run P server pad junk acts st = Some st' \<Longrightarrow>
   process_inv P uses w0 good st'"
proof (induction acts arbitrary: st)
  case (Cons act acts)
  then obtain st1 where "process_step P server pad junk act st = Some st1"
    "process_run P server pad junk acts st1 = Some st'"
    by (auto simp del: process_step.simps split: option.splits)
  with Cons process_step_inv show ?case by blast
qed simp

text \<open>Once \<open>main\<close> has begun to release, the thread no longer calls the device.\<close>

lemma no_device_after_wait:
  assumes inv: "process_inv P uses w0 good st"
    and pc: "ms_pc st \<in> {M_release, M_destroy, M_join}"
    and step: "process_step P server pad junk Thread st = Some st'"
  shows "world (ms_sys st') = world (ms_sys st) \<and> log (ms_sys st') = log (ms_sys st)"
proof -
  from pc have ne: "\<not> main_ended (ms_pc st)" "ms_pc st \<noteq> M_create" by auto
  from process_invE [OF inv this] obtain ring fs bl where
    i: "sys_ok good (ms_pc st) (ms_sys st) ring fs bl" "phase_ok uses w0 good st ring (ms_pc st)" .
  from i pc have "sys_rep (ms_sys st) [] fs bl" by (auto simp: sys_ok_def)
  moreover from this obtain S' where S': "worker_step (progress_fn_run (p_verbs P)) (ms_sys st) = Inr S'"
    using sys_rep_worker by blast
  moreover from S' step ne have "st' = st\<lparr>ms_sys := S'\<rparr>"
    by (simp add: on_fault_def del: worker_step.simps)
  ultimately show ?thesis using idle_worker [of "ms_sys st" fs bl _ S'] by (simp del: worker_step.simps)
qed

end

section \<open>A handler that is not zero\<close>

text \<open>
  When \<open>proxyThread\<close> is not zero by accident, \<open>ProxyCreate\<close> starts no thread, and no operation is ever
  taken off the queue.
\<close>

definition tail_free :: "'w main_state \<Rightarrow> bool" where
  "tail_free st \<longleftrightarrow> (\<exists>r a. ms_args st = Some r \<and> heap (mem (ms_sys st)) r = Some a \<and>
     pa_proxyTail a = Some 0 \<and> tails (mem (ms_sys st)) 0 = Some None)"

fun thread_missing :: "'w main_state \<Rightarrow> main_pc \<Rightarrow> bool" where
  "thread_missing st M_create \<longleftrightarrow> ph_proxyThread (handler (mem (ms_sys st)))"
| "thread_missing st M_alloc \<longleftrightarrow> True"
| "thread_missing st M_setup \<longleftrightarrow> tail_free st"
| "thread_missing st M_append \<longleftrightarrow> tail_free st"
| "thread_missing st M_leave \<longleftrightarrow> ops (mem (ms_sys st)) \<noteq> None"
| "thread_missing st M_start \<longleftrightarrow> ops (mem (ms_sys st)) \<noteq> None"
| "thread_missing st M_wait \<longleftrightarrow> ops (mem (ms_sys st)) \<noteq> None"
| "thread_missing st (M_error e) \<longleftrightarrow> True"
| "thread_missing st _ \<longleftrightarrow> False"

definition no_thread :: "'w main_state \<Rightarrow> bool" where
  "no_thread st \<longleftrightarrow> wpc (ms_sys st) = W_none \<and> thread_missing st (ms_pc st)"

lemma store_ops: "store p u s = Inr s' \<Longrightarrow> ops s' = ops s"
  by (auto simp: store_def split: option.splits)

lemma append_ops:
  assumes "ProxyArgsAppend r s = Inr s'" and "heap s r = Some a" and "pa_proxyTail a = Some 0"
    and "tails s 0 = Some None"
  shows "ops s' \<noteq> None"
  using assms
  by (auto simp: ProxyArgsAppend_def sum_bind_eq_Inr store_tail_def dest!: store_ops split: option.splits)

lemma alloc_args_tail:
  "ms_pc (alloc_args m st) = M_setup \<and> tail_free (alloc_args m st) \<and>
     wpc (ms_sys (alloc_args m st)) = wpc (ms_sys st) \<or>
   (\<exists>e. alloc_args m st = goto st (M_error e))"
  by (auto simp: alloc_args_def on_fault_def Let_def tail_free_def store_def split: sum.split option.split)

context verbs_objects
begin

lemma setup_args_tail:
  assumes "tail_free st"
  shows "ms_pc (setup_args P server pad junk st) = M_append \<and> tail_free (setup_args P server pad junk st) \<and>
     wpc (ms_sys (setup_args P server pad junk st)) = wpc (ms_sys st) \<or>
   (\<exists>e. setup_args P server pad junk st = goto st (M_error e))"
proof -
  let ?S = "ms_sys st"
  from assms obtain r a where a: "ms_args st = Some r" "heap (mem ?S) r = Some a"
    "pa_proxyTail a = Some 0" "tails (mem ?S) 0 = Some None" by (auto simp: tail_free_def)
  show ?thesis
  proof (cases "main_setup P server pad junk a (world ?S)")
    case (Inr res)
    then obtain objs sock nb a' w' where run: "main_setup P server pad junk a (world ?S) = Inr ((objs, sock, nb, a'), w')"
      by (cases res) auto
    from main_setup_ok [OF run] have "pa_proxyTail a' = Some 0" using a(3) by (simp add: prepared_def)
    then show ?thesis using run a
      by (simp add: setup_args_def on_fault_def Let_def tail_free_def)
  qed (use a in \<open>auto simp: setup_args_def on_fault_def Let_def\<close>)
qed

lemma append_args_tail:
  assumes "tail_free st"
  shows "ms_pc (append_args st) = M_leave \<and> ops (mem (ms_sys (append_args st))) \<noteq> None \<and>
     wpc (ms_sys (append_args st)) = wpc (ms_sys st) \<or> (\<exists>e. append_args st = goto st (M_error e))"
  using assms append_ops
  by (fastforce simp: append_args_def tail_free_def on_fault_def Let_def split: sum.split)

lemma no_thread_main:
  assumes "no_thread st" and "main_step P server pad junk m st = Some st'"
  shows "no_thread st'"
proof -
  have e: "no_thread (goto st (M_error e))" for e using assms(1) by (simp add: no_thread_def)
  show ?thesis
  proof (cases "ms_pc st")
    case M_alloc
    with assms have "st' = alloc_args m st" by (auto simp: Let_def split: if_splits)
    with alloc_args_tail [of m st] e assms(1) show ?thesis by (auto simp: no_thread_def)
  next
    case M_setup
    with assms have "st' = setup_args P server pad junk st" "tail_free st"
      by (auto simp: Let_def no_thread_def)
    with setup_args_tail [of st server pad junk] e assms(1) show ?thesis by (auto simp: no_thread_def)
  next
    case M_append
    with assms have "st' = append_args st" "tail_free st" by (auto simp: Let_def no_thread_def)
    with append_args_tail [of st] e assms(1) show ?thesis by (auto simp: no_thread_def)
  qed (use assms in \<open>auto simp: Let_def no_thread_def ProxyCreate_def ProxyStart_def signal_def set_stop_def
      ProxyWaitAllOpFinished_returns_def split: if_splits\<close>)
qed

lemma no_thread_step:
  assumes "no_thread st" and "process_step P server pad junk act st = Some st'"
  shows "no_thread st'"
proof (cases act)
  case (Main m)
  with assms no_thread_main show ?thesis by simp
next
  case Thread
  with assms show ?thesis by (auto simp: no_thread_def on_fault_def split: if_splits)
next
  case Spurious
  with assms show ?thesis by (auto simp: no_thread_def signal_def split: if_splits)
qed

lemma no_thread_never_returns:
  "no_thread st \<Longrightarrow> process_run P server pad junk acts st = Some st' \<Longrightarrow> no_thread st'"
proof (induction acts arbitrary: st)
  case (Cons act acts)
  then obtain st1 where "process_step P server pad junk act st = Some st1"
    "process_run P server pad junk acts st1 = Some st'"
    by (auto simp del: process_step.simps split: option.splits)
  with Cons no_thread_step show ?case by blast
qed simp

lemma process_no_thread:
  assumes "ph_proxyThread h" and "process P server pad junk h w st"
  shows "no_thread st"
  using assms(2)
proof (induction rule: process.induct)
  case process_new
  with assms(1) show ?case by (simp add: no_thread_def new_process_def)
next
  case (process_more st act st')
  then show ?case using no_thread_step by blast
qed

end

text \<open>When \<open>pool\<close> is not null by accident, \<open>allocateArgs\<close> follows the wild pointer.\<close>

lemma wild_pool:
  assumes "ph_pool h \<noteq> None"
  obtains st where "process_run P server pad junk [Main None, Main None] (new_process h w) = Some st"
    and "ms_pc st = M_error (Main_fault WildDeref)"
proof -
  let ?st = "new_process h w"
  obtain r where r: "ph_pool h = Some r" using assms by blast
  have "allocateArgs None (mem (ProxyCreate (ms_sys ?st))) = Inl WildDeref"
    by (simp add: allocateArgs_def new_process_def ProxyCreate_def r load_def)
  then show ?thesis
    using that [of "(?st\<lparr>ms_pc := M_alloc, ms_sys := ProxyCreate (ms_sys ?st)\<rparr>)\<lparr>ms_pc := M_error (Main_fault WildDeref)\<rparr>"]
    by (simp add: new_process_def Let_def malloc_ok_def alloc_args_def on_fault_def)
qed

section \<open>Getting to the end\<close>

lemma process_run_append:
  "process_run P server pad junk (as @ bs) st =
     (case process_run P server pad junk as st of
        None \<Rightarrow> None | Some st \<Rightarrow> process_run P server pad junk bs st)"
  by (induction as arbitrary: st) (auto split: option.split)

definition leads_to ::
  "('a, 'w) platform \<Rightarrow> bool \<Rightarrow> byte list \<Rightarrow> byte list \<Rightarrow> 'w main_state \<Rightarrow> 'w main_state \<Rightarrow> bool" where
  "leads_to P server pad junk st st' \<longleftrightarrow> (\<exists>acts. process_run P server pad junk acts st = Some st')"

lemma leads_to_refl: "leads_to P server pad junk st st"
  unfolding leads_to_def by (rule exI [of _ "[]"]) simp

lemma leads_to_step:
  assumes "process_step P server pad junk act st = Some st'" and "leads_to P server pad junk st' st''"
  shows "leads_to P server pad junk st st''"
proof -
  from assms(2) obtain acts where "process_run P server pad junk acts st' = Some st''"
    by (auto simp: leads_to_def)
  with assms(1) have "process_run P server pad junk (act # acts) st = Some st''" by simp
  then show ?thesis unfolding leads_to_def by blast
qed

lemma leads_to_trans:
  assumes "leads_to P server pad junk st st'" and "leads_to P server pad junk st' st''"
  shows "leads_to P server pad junk st st''"
proof -
  from assms obtain as bs where "process_run P server pad junk as st = Some st'"
    "process_run P server pad junk bs st' = Some st''" by (auto simp: leads_to_def)
  then have "process_run P server pad junk (as @ bs) st = Some st''" by (simp add: process_run_append)
  then show ?thesis unfolding leads_to_def by blast
qed

lemma run_threads:
  assumes "steps (progress_fn_run (p_verbs P)) n (ms_sys st) = Inr S'" and "\<not> main_ended (ms_pc st)"
    and "leads_to P server pad junk (st\<lparr>ms_sys := S'\<rparr>) st'"
  shows "leads_to P server pad junk st st'"
  using assms
proof (induction n arbitrary: st)
  case (Suc n)
  from Suc.prems(1) obtain S1 where S1: "worker_step (progress_fn_run (p_verbs P)) (ms_sys st) = Inr S1"
    "steps (progress_fn_run (p_verbs P)) n S1 = Inr S'" by (auto simp: sum_bind_eq_Inr simp del: worker_step.simps)
  have "process_step P server pad junk Thread st = Some (st\<lparr>ms_sys := S1\<rparr>)"
    using S1(1) Suc.prems(2) by (simp add: on_fault_def del: worker_step.simps)
  moreover have "leads_to P server pad junk (st\<lparr>ms_sys := S1\<rparr>) st'"
    using Suc.IH [of "st\<lparr>ms_sys := S1\<rparr>"] S1(2) Suc.prems(2,3) by simp
  ultimately show ?case by (rule leads_to_step)
qed auto

context good_process
begin

lemma join_returns:
  assumes ok: "sys_ok good M_join (ms_sys st) ring fs bl"
    and ph: "phase_ok uses w0 good st ring M_join" and pc: "ms_pc st = M_join"
  shows "\<exists>st'. leads_to P server pad junk st st' \<and> ms_pc st' = M_return"
proof -
  let ?S = "ms_sys st" and ?run = "progress_fn_run (p_verbs P)"
  from ok ph have rep: "sys_rep ?S [] fs bl" and w: "wpc ?S \<noteq> W_wait"
    and fl: "ph_stop (handler (mem ?S))" "ph_abortFlag (handler (mem ?S)) = 0"
    by (auto simp: sys_ok_def)
  from rep have op: "ops (mem ?S) = None" "w_op ?S = None"
    by (auto simp: sys_rep_def queue_inv_def ring_rep_def ops_in_def cursor_def split: option.splits)
  with rep w have "wpc ?S = W_check \<or> wpc ?S = W_fetch \<or> wpc ?S = W_exit"
    by (cases "wpc ?S") (auto simp: sys_rep_def)
  then have "\<exists>n S'. steps ?run n ?S = Inr S' \<and> wpc S' = W_exit"
  proof (elim disjE)
    assume "wpc ?S = W_check"
    then show ?thesis using fl op
      by (intro exI [of _ 2]) (simp add: numeral_2_eq_2 worker_check_def worker_fetch_def Let_def)
  next
    assume "wpc ?S = W_fetch"
    then show ?thesis using fl op by (intro exI [of _ 1]) (simp add: worker_fetch_def Let_def)
  next
    assume "wpc ?S = W_exit"
    then show ?thesis by (intro exI [of _ 0]) simp
  qed
  then obtain n S' where n: "steps ?run n ?S = Inr S'" "wpc S' = W_exit" by blast
  from sys_rep_steps [OF rep, of n] n obtain ring' fs' where "sys_rep S' ring' fs' bl"
    by auto
  from sys_rep_destroy [OF this] obtain S'' where "ProxyDestroy_finish S' = Some (Inr S'')" by blast
  then have "process_step P server pad junk (Main None) (st\<lparr>ms_sys := S'\<rparr>) =
      Some (st\<lparr>ms_sys := S', ms_pc := M_return, ms_sys := S''\<rparr>)"
    using n(2) pc by (simp add: Let_def on_fault_def)
  from run_threads [OF n(1) _ leads_to_step [OF this leads_to_refl]] pc show ?thesis by fastforce
qed

text \<open>A step of \<open>main\<close> is taken, the invariant goes along, and the rest is the next case.\<close>

lemma main_leads_to:
  assumes "process_inv P uses w0 good st" and "main_step P server pad junk m st = Some st1"
    and "process_inv P uses w0 good st1 \<Longrightarrow> \<exists>st'. leads_to P server pad junk st1 st' \<and> Q st'"
  shows "\<exists>st'. leads_to P server pad junk st st' \<and> Q st'"
proof -
  from assms(3) [OF main_step_inv [OF assms(1,2)]] obtain st' where
    "leads_to P server pad junk st1 st'" "Q st'" by blast
  with assms(2) leads_to_step [of P server pad junk "Main m" st st1 st'] show ?thesis by auto
qed

lemma from_join:
  assumes inv: "process_inv P uses w0 good st" and pc: "ms_pc st = M_join"
  shows "\<exists>st'. leads_to P server pad junk st st' \<and> ms_pc st' = M_return"
proof -
  from pc have "\<not> main_ended (ms_pc st)" "ms_pc st \<noteq> M_create" by auto
  from process_invE [OF inv this] obtain ring fs bl where
    "sys_ok good M_join (ms_sys st) ring fs bl" "phase_ok uses w0 good st ring M_join"
    unfolding pc .
  then show ?thesis using join_returns pc by blast
qed

lemma from_release:
  assumes inv: "process_inv P uses w0 good st" and pc: "ms_pc st = M_release \<or> ms_pc st = M_destroy"
  shows "\<exists>st'. leads_to P server pad junk st st' \<and> ms_pc st' = M_return"
proof -
  have d: "\<exists>st'. leads_to P server pad junk st st' \<and> ms_pc st' = M_return"
    if "process_inv P uses w0 good st" "ms_pc st = M_destroy" for st
    by (rule main_leads_to [OF that(1), where m = None]) (use that(2) from_join in \<open>auto simp: Let_def\<close>)
  show ?thesis
  proof (cases "ms_pc st = M_destroy")
    case True
    with d [OF inv] show ?thesis by simp
  next
    case False
    with pc have "ms_pc st = M_release" by simp
    then show ?thesis
      by (intro main_leads_to [OF inv, where m = None]) (use d in \<open>auto simp: Let_def\<close>)
  qed
qed

end

text \<open>
  The process on a device on which, for the server, completions keep arriving. Its operation
  finishes, so the wait ends.
\<close>

locale live_process =
  verbs_objects P uses qps + completing_device "p_verbs P" server patience
  for P :: "('a, 'w) platform" and uses :: "'w \<Rightarrow> obj \<rightharpoonup> obj set" and qps :: "'w \<Rightarrow> nat \<Rightarrow> qp"
    and server :: bool and patience :: "'w \<Rightarrow> nat"

sublocale live_process \<subseteq> good_process P uses qps "bench_good server" server
  by unfold_locales (simp add: bench_good_def)

context live_process
begin

lemma is_good: "good_process P uses qps (bench_good server) server"
  by unfold_locales

lemma from_wait:
  assumes inv: "process_inv P uses w0 (bench_good server) st" and pc: "ms_pc st = M_wait"
  shows "\<exists>st'. leads_to P server pad junk st st' \<and> ms_pc st' = M_return"
proof -
  let ?S = "ms_sys st" and ?run = "progress_fn_run (p_verbs P)"
  from pc have "\<not> main_ended (ms_pc st)" "ms_pc st \<noteq> M_create" by auto
  from process_invE [OF inv this] obtain ring fs bl where
    ok: "sys_ok (bench_good server) M_wait ?S ring fs bl" and ph: "phase_ok uses w0 (bench_good server) st ring M_wait"
    unfolding pc .
  have "\<exists>n S'. steps ?run n ?S = Inr S' \<and> ops (mem S') = None"
  proof (cases "ops (mem ?S) = None")
    case True
    then show ?thesis by (intro exI [of _ 0]) simp
  next
    case False
    with ph have "wpc ?S \<noteq> W_wait" by (auto simp: sleeps_with_work_def)
    moreover have "wpc ?S \<noteq> W_exit" "sys_rep ?S ring fs bl" "all_good (bench_good server) ?S ring"
      "ph_abortFlag (handler (mem ?S)) = 0" using ok by (auto simp: sys_ok_def)
    ultimately show ?thesis using drain [of ?S ring fs bl] by (auto simp: drained_def)
  qed
  then obtain n S' where n: "steps ?run n ?S = Inr S'" "ops (mem S') = None" by blast
  let ?st = "st\<lparr>ms_sys := S'\<rparr>"
  have run: "leads_to P server pad junk st ?st"
    using run_threads [OF n(1) _ leads_to_refl] pc by simp
  then obtain acts where acts: "process_run P server pad junk acts st = Some ?st"
    by (auto simp: leads_to_def)
  have "process_inv P uses w0 (bench_good server) ?st" using process_run_inv [OF inv acts] .
  moreover have "main_step P server pad junk None ?st = Some (goto ?st M_release)"
    using pc n(2) by (simp add: Let_def ProxyWaitAllOpFinished_returns_def)
  ultimately obtain st' where st': "leads_to P server pad junk ?st st'" "ms_pc st' = M_return"
    using main_leads_to [of w0 ?st pad junk None "goto ?st M_release" "\<lambda>st. ms_pc st = M_return"]
      from_release by auto
  from run st'(1) have "leads_to P server pad junk st st'" by (rule leads_to_trans)
  with st'(2) show ?thesis by blast
qed

lemma from_append:
  assumes inv: "process_inv P uses w0 (bench_good server) st"
    and pc: "ms_pc st = M_append \<or> ms_pc st = M_leave \<or> ms_pc st = M_start"
  shows "\<exists>st'. leads_to P server pad junk st st' \<and> ms_pc st' = M_return"
proof -
  have start: "\<exists>st'. leads_to P server pad junk st st' \<and> ms_pc st' = M_return"
    if "process_inv P uses w0 (bench_good server) st" "ms_pc st = M_start" for st
    by (rule main_leads_to [OF that(1), where m = None]) (use that(2) from_wait in \<open>auto simp: Let_def\<close>)
  have leave: "\<exists>st'. leads_to P server pad junk st st' \<and> ms_pc st' = M_return"
    if "process_inv P uses w0 (bench_good server) st" "ms_pc st = M_leave" for st
    by (rule main_leads_to [OF that(1), where m = None]) (use that(2) start in \<open>auto simp: Let_def\<close>)
  show ?thesis
  proof (cases "ms_pc st = M_append")
    case True
    then have "\<not> main_ended (ms_pc st)" "ms_pc st \<noteq> M_create" by auto
    from process_invE [OF inv this] obtain ring fs bl where
      "sys_ok (bench_good server) M_append (ms_sys st) ring fs bl" "phase_ok uses w0 (bench_good server) st ring M_append"
      unfolding True .
    from append_args_inv [OF this] have "ms_pc (append_args st) = M_leave" by simp
    with True show ?thesis
      by (intro main_leads_to [OF inv, where m = None]) (use leave in \<open>auto simp: Let_def\<close>)
  next
    case False
    with pc inv start leave show ?thesis by blast
  qed
qed

text \<open>Before that, only the set-up can end the process.\<close>

definition finishes :: "byte list \<Rightarrow> byte list \<Rightarrow> 'w main_state \<Rightarrow> 'w main_state \<Rightarrow> bool" where
  "finishes pad junk st st' \<longleftrightarrow> ms_pc st' = M_return \<or>
     (\<exists>a e. main_setup P server pad junk a (world (ms_sys st)) = Inl e \<and> ms_pc st' = M_error e)"

lemma from_setup:
  assumes inv: "process_inv P uses w0 (bench_good server) st" and pc: "ms_pc st = M_setup"
  shows "\<exists>st'. leads_to P server pad junk st st' \<and> finishes pad junk st st'"
proof -
  from pc have "\<not> main_ended (ms_pc st)" "ms_pc st \<noteq> M_create" by auto
  from process_invE [OF inv this] obtain ring fs bl where
    "sys_ok (bench_good server) M_setup (ms_sys st) ring fs bl" "phase_ok uses w0 (bench_good server) st ring M_setup"
    unfolding pc .
  from setup_args_inv [OF this, of pad junk]
  have "ms_pc (setup_args P server pad junk st) = M_append \<or> finishes pad junk st (setup_args P server pad junk st)"
    unfolding finishes_def by blast
  moreover have "main_step P server pad junk None st = Some (setup_args P server pad junk st)"
    using pc by (simp add: Let_def)
  note main_leads_to [OF inv this, of "finishes pad junk st"]
  ultimately show ?thesis using from_append leads_to_refl unfolding finishes_def by blast
qed

lemma fresh_block:
  assumes "sys_rep S ring fs bl"
  obtains b where "malloc_ok (Some b) (mem S)"
proof -
  from assms have "dom (blocks (mem S)) = set bl" by (simp add: sys_rep_def block_inv_def)
  then have "finite (dom (blocks (mem S)))" by simp
  then obtain b where "b \<notin> dom (blocks (mem S))" using ex_new_if_finite infinite_UNIV_nat by blast
  then show ?thesis using that by (simp add: malloc_ok_def)
qed

lemma from_alloc:
  assumes inv: "process_inv P uses w0 (bench_good server) st" and pc: "ms_pc st = M_alloc"
  shows "\<exists>st'. leads_to P server pad junk st st' \<and> finishes pad junk st st'"
proof -
  from pc have "\<not> main_ended (ms_pc st)" "ms_pc st \<noteq> M_create" by auto
  from process_invE [OF inv this] obtain ring fs bl where
    i: "sys_ok (bench_good server) M_alloc (ms_sys st) ring fs bl" "phase_ok uses w0 (bench_good server) st ring M_alloc"
    unfolding pc .
  from i(1) have "sys_rep (ms_sys st) ring fs bl" by (simp add: sys_ok_def)
  then obtain b where b: "malloc_ok (Some b) (mem (ms_sys st))" by (rule fresh_block)
  have "ms_pc (alloc_args (Some b) st) = M_setup" using alloc_args_inv [OF i pc b, where P = P] by simp
  moreover have "main_step P server pad junk (Some b) st = Some (alloc_args (Some b) st)"
    using pc b by (simp add: Let_def)
  note main_leads_to [OF inv this, of "finishes pad junk st"]
  moreover have "finishes pad junk (alloc_args (Some b) st) = finishes pad junk st"
    by (simp add: fun_eq_iff finishes_def alloc_args_world)
  ultimately show ?thesis using from_setup by metis
qed

lemma process_gets_there:
  assumes inv: "process_inv P uses w0 (bench_good server) st" and ne: "\<not> main_ended (ms_pc st)"
  shows "\<exists>st'. leads_to P server pad junk st st' \<and>
     (if ms_pc st \<in> {M_create, M_alloc, M_setup} then finishes pad junk st st' else ms_pc st' = M_return)"
proof (cases "ms_pc st")
  case M_create
  let ?st = "st\<lparr>ms_pc := M_alloc, ms_sys := ProxyCreate (ms_sys st)\<rparr>"
  have "finishes pad junk ?st = finishes pad junk st"
    by (simp add: fun_eq_iff finishes_def ProxyCreate_def)
  then have "\<exists>st'. leads_to P server pad junk st st' \<and> finishes pad junk st st'"
    using from_alloc [of w0 ?st pad junk] M_create
    by (intro main_leads_to [OF inv, where m = None]) (auto simp: Let_def)
  with M_create show ?thesis by simp
qed (use inv ne from_alloc from_setup from_append from_wait from_release from_join in auto)

end

end
