(* ===== verification/Send_Recv_Host.thy ===== *)
theory Send_Recv_Host
  imports Send_Recv_Process
begin

text \<open>
  A platform that behaves as the manual pages say: the objects a process holds, one queue pair, and
  the sockets of \<open>tcp_os\<close>. It shows that the laws of \<open>verbs_objects\<close> can hold together, and the
  examples run on it.
\<close>

section \<open>The state\<close>

record host =
  h_uses :: "obj \<rightharpoonup> obj set"
  h_qp :: qp
  h_tcp :: tcp
  h_polls :: nat

definition closed_uses :: "(obj \<rightharpoonup> obj set) \<Rightarrow> bool" where
  "closed_uses D \<longleftrightarrow> (\<forall>x us. D x = Some us \<longrightarrow> us \<subseteq> dom D)"

lemma closed_empty [simp]: "closed_uses Map.empty"
  by (simp add: closed_uses_def)

lemma closed_insert [simp]: "closed_uses D \<Longrightarrow> us \<subseteq> dom D \<Longrightarrow> closed_uses (D(x \<mapsto> us))"
  unfolding closed_uses_def by (metis dom_fun_upd fun_upd_apply insertCI option.distinct(1) option.inject subset_iff)

lemma closed_remove: "closed_uses D \<Longrightarrow> removable x D \<Longrightarrow> closed_uses (D(x := None))"
proof -
  assume D: "closed_uses D" "removable x D"
  have "us \<subseteq> dom D - {x}" if "D y = Some us" for y us
    using D that unfolding closed_uses_def removable_def by blast
  then show ?thesis by (auto simp: closed_uses_def split: if_splits)
qed

text \<open>\<open>h_polls\<close> is the number of polls until the next completion. The objects of a state; a map that mentions objects that do not exist counts as empty.\<close>

definition host_uses :: "host \<Rightarrow> obj \<rightharpoonup> obj set" where
  "host_uses w = (if closed_uses (h_uses w) then h_uses w else Map.empty)"

lemma closed_host_uses [simp]: "closed_uses (host_uses w)"
  by (simp add: host_uses_def)

lemma host_uses_upd [simp]: "closed_uses D \<Longrightarrow> host_uses (w\<lparr>h_uses := D\<rparr>) = D"
  by (simp add: host_uses_def)

lemma host_uses_frame [simp]:
  "host_uses (w\<lparr>h_qp := q\<rparr>) = host_uses w" "host_uses (w\<lparr>h_tcp := t\<rparr>) = host_uses w"
  "host_uses (w\<lparr>h_polls := k\<rparr>) = host_uses w"
  by (simp_all add: host_uses_def)

section \<open>The calls\<close>

definition new_obj :: "obj \<Rightarrow> obj set \<Rightarrow> 'x \<Rightarrow> host \<Rightarrow> 'x option \<times> host" where
  "new_obj x us r w =
     (if host_uses w x = None \<and> us \<subseteq> dom (host_uses w)
      then (Some r, w\<lparr>h_uses := (host_uses w)(x \<mapsto> us)\<rparr>) else (None, w))"

definition drop_obj :: "obj \<Rightarrow> host \<Rightarrow> int \<times> host" where
  "drop_obj x w =
     (if removable x (host_uses w) then (0, w\<lparr>h_uses := (host_uses w)(x := None)\<rparr>) else (16, w))"

definition via_tcp :: "(tcp \<Rightarrow> 'r \<times> tcp) \<Rightarrow> host \<Rightarrow> 'r \<times> host" where
  "via_tcp f w = (let (r, t) = f (h_tcp w) in (r, w\<lparr>h_tcp := t\<rparr>))"

definition host_ibv :: "host ibv" where
  "host_ibv =
     \<lparr>i_device_list = (\<lambda>w. Some [(0, ''mlx5_0'')]),
      i_open_device = (\<lambda>d. new_obj (Context 1) {} 1),
      i_query_port = (\<lambda>_ _ w. ((0, 5), w)),
      i_query_gid = (\<lambda>_ _ _ w. ((0, \<lparr>subnet_prefix = 1, interface_id = 2\<rparr>), w)),
      i_alloc_pd = (\<lambda>c. new_obj (PD 1) {Context c} 1),
      i_malloc = (\<lambda>_. new_obj (Buffer 4096) {} 4096),
      i_reg_mr = (\<lambda>pd b _ _. new_obj (MR 1) {PD pd, Buffer b} \<lparr>mr_handle = 1, mr_lkey = 8, mr_rkey = 9\<rparr>),
      i_create_cq = (\<lambda>c _. new_obj (CQ 1) {Context c} 1),
      i_create_qp = (\<lambda>pd attr w.
        let (q, w) = new_obj (QP 1) {PD pd, CQ (ia_send_cq attr), CQ (ia_recv_cq attr)}
              \<lparr>qo_handle = 1, qo_qp_num = 17\<rparr> w
        in (q, if q = None then w else w\<lparr>h_qp := \<lparr>qp_type = ia_qp_type attr, qp_attr = zero_qp_attr\<rparr>\<rparr>)),
      i_modify_qp = (\<lambda>_ new flags w. let (r, q) = doc_modify new flags (h_qp w) in (r, w\<lparr>h_qp := q\<rparr>)),
      i_destroy_qp = (\<lambda>h. drop_obj (QP h)), i_destroy_cq = (\<lambda>h. drop_obj (CQ h)),
      i_dereg_mr = (\<lambda>h. drop_obj (MR h)), i_free = (\<lambda>b w. snd (drop_obj (Buffer b) w)),
      i_dealloc_pd = (\<lambda>h. drop_obj (PD h)), i_close_device = (\<lambda>h. drop_obj (Context h))\<rparr>"

definition host_verbs :: "host verbs" where
  "host_verbs = \<lparr>v_poll_cq = (\<lambda>_ _ w.
       if h_polls w = 0 then ((1, [\<lparr>wc_id = 0, wc_success = True\<rparr>]), w\<lparr>h_polls := 2\<rparr>)
       else ((0, []), w\<lparr>h_polls := h_polls w - 1\<rparr>)),
     v_post_send = (\<lambda>_ _ w. (0, w)),
     v_post_recv = (\<lambda>_ _ w. (0, w)), v_get_cycles = (\<lambda>w. (0, w))\<rparr>"

definition host_os :: "(unit, host) sockets" where
  "host_os =
     \<lparr>s_asprintf = (\<lambda>p. via_tcp (s_asprintf tcp_os p)),
      s_getaddrinfo = (\<lambda>h p. via_tcp (s_getaddrinfo tcp_os h p)),
      s_socket = (\<lambda>a. via_tcp (s_socket tcp_os a)),
      s_setsockopt = (\<lambda>fd. via_tcp (s_setsockopt tcp_os fd)),
      s_bind = (\<lambda>fd a. via_tcp (s_bind tcp_os fd a)),
      s_connect = (\<lambda>fd a. via_tcp (s_connect tcp_os fd a)),
      s_listen = (\<lambda>fd. via_tcp (s_listen tcp_os fd)),
      s_accept = (\<lambda>fd. via_tcp (s_accept tcp_os fd)),
      s_close = (\<lambda>fd w. w\<lparr>h_tcp := s_close tcp_os fd (h_tcp w)\<rparr>),
      s_sleep = (\<lambda>n w. w\<lparr>h_tcp := s_sleep tcp_os n (h_tcp w)\<rparr>),
      s_send = (\<lambda>fd bs. via_tcp (s_send tcp_os fd bs)),
      s_recv = (\<lambda>fd n. via_tcp (s_recv tcp_os fd n))\<rparr>"

definition host_platform :: "(unit, host) platform" where
  "host_platform = \<lparr>p_ibv = host_ibv, p_verbs = host_verbs, p_os = host_os\<rparr>"

section \<open>It behaves as documented\<close>

lemma new_obj_created:
  "new_obj x us r w = (y, w') \<Longrightarrow>
     created (if y = None then None else Some x) us (host_uses w) (host_uses w') \<and> h_qp w' = h_qp w \<and>
     (y = None \<or> y = Some r)"
  by (auto simp: new_obj_def created_def split: if_splits)

lemma drop_obj_removes:
  "removable x (host_uses w) \<Longrightarrow> drop_obj x w = (r, w') \<Longrightarrow>
     r = 0 \<and> host_uses w' = (host_uses w)(x := None)"
  by (auto simp: drop_obj_def closed_remove)

lemma via_tcp_frame [simp]:
  "host_uses (snd (via_tcp f w)) = host_uses w" "h_qp (snd (via_tcp f w)) = h_qp w"
  by (auto simp: via_tcp_def split: prod.split)

lemma map_option_if: "map_option f y = (if y = None then None else Some (f (the y)))"
  by (cases y) auto

lemma created_by:
  assumes "new_obj x us r w = (y, w')" and "f r = x"
  shows "created (map_option f y) us (host_uses w) (host_uses w')"
  using new_obj_created [OF assms(1)] assms(2) by (auto simp: map_option_if split: if_splits)

interpretation host_io: socket_frame host_os "\<lambda>w. (host_uses w, \<lambda>_ :: nat. h_qp w)"
  by unfold_locales (simp_all add: host_os_def)

lemma host_sockets: "socket_frame (p_os host_platform) (\<lambda>w. (host_uses w, \<lambda>_ :: nat. h_qp w))"
  using host_io.socket_frame_axioms by (simp add: host_platform_def)

lemma host_modify: "qp_modify_spec (i_modify_qp (p_ibv host_platform) h) h_qp"
  by unfold_locales (simp_all add: host_platform_def host_ibv_def doc_modify_def)

lemma host_modify_uses: "host_uses (snd (i_modify_qp (p_ibv host_platform) h new flags w)) = host_uses w"
  by (simp add: host_platform_def host_ibv_def split: prod.split)

lemma host_closed: "host_uses w x = Some us \<Longrightarrow> us \<subseteq> dom (host_uses w)"
  using closed_host_uses [of w] unfolding closed_uses_def by blast

lemmas host_calls = host_platform_def host_ibv_def host_verbs_def

interpretation host: verbs_objects host_platform host_uses "\<lambda>w _. h_qp w"
proof (intro verbs_objects.intro verbs_objects_axioms.intro host_sockets host_modify_uses)
  fix w w' :: host and d c ctx port i pd sz b pd0 b0 access mr cq attr q
  show "created (map_option Context c) {} (host_uses w) (host_uses w')"
    if "i_open_device (p_ibv host_platform) d w = (c, w')"
    using that by (intro created_by) (auto simp: host_platform_def host_ibv_def)
  show "created (map_option PD pd) {Context ctx} (host_uses w) (host_uses w')"
    if "i_alloc_pd (p_ibv host_platform) ctx w = (pd, w')"
    using that by (intro created_by) (auto simp: host_platform_def host_ibv_def)
  show "created (map_option Buffer b) {} (host_uses w) (host_uses w')"
    if "i_malloc (p_ibv host_platform) sz w = (b, w')"
    using that by (intro created_by) (auto simp: host_platform_def host_ibv_def)
  show "created (map_option (\<lambda>m. MR (mr_handle m)) mr) {PD pd0, Buffer b0} (host_uses w) (host_uses w')"
    if "i_reg_mr (p_ibv host_platform) pd0 b0 sz access w = (mr, w')"
    using that
    by (intro created_by [where r = "\<lparr>mr_handle = 1, mr_lkey = 8, mr_rkey = 9\<rparr>"])
      (simp_all add: host_platform_def host_ibv_def)
  show "created (map_option CQ cq) {Context ctx} (host_uses w) (host_uses w')"
    if "i_create_cq (p_ibv host_platform) ctx sz w = (cq, w')"
    using that by (intro created_by) (auto simp: host_platform_def host_ibv_def)
  show "created (map_option (\<lambda>q. QP (qo_handle q)) q)
        {PD pd0, CQ (ia_send_cq attr), CQ (ia_recv_cq attr)} (host_uses w) (host_uses w') \<and>
      (case q of None \<Rightarrow> True | Some q \<Rightarrow> fresh_qp_state (ia_qp_type attr) (h_qp w'))"
    if run: "i_create_qp (p_ibv host_platform) pd0 attr w = (q, w')"
  proof -
    obtain q1 w1 where n: "new_obj (QP 1) {PD pd0, CQ (ia_send_cq attr), CQ (ia_recv_cq attr)}
        \<lparr>qo_handle = 1, qo_qp_num = 17\<rparr> w = (q1, w1)" by fastforce
    then have "created (map_option (\<lambda>q. QP (qo_handle q)) q1)
        {PD pd0, CQ (ia_send_cq attr), CQ (ia_recv_cq attr)} (host_uses w) (host_uses w1)"
      by (rule created_by) simp
    with run n show ?thesis
      by (auto simp: host_platform_def host_ibv_def fresh_qp_state_def zero_qp_attr_def split: option.split)
  qed
  show "qp_modify_may_fail (i_modify_qp (p_ibv host_platform) h) (\<lambda>w. h_qp w)" for h
    by (rule qp_modify_spec.may_fail [OF host_modify])
  show "us \<subseteq> dom (host_uses w)" if "host_uses w x = Some us" for x us using that by (rule host_closed)
qed (simp_all add: host_calls drop_obj_removes, simp add: drop_obj_def closed_remove)

text \<open>Completions arrive at every third poll, so both processes come to their end on it.\<close>

interpretation host_live: live_process host_platform host_uses "\<lambda>w _. h_qp w" server h_polls for server
  by unfold_locales (auto simp: host_platform_def host_verbs_def split: if_splits)

end
