(* ===== verification/Send_Recv_Properties.thy ===== *)
theory Send_Recv_Properties
  imports Send_Recv_Host
begin

text \<open>
  The properties of \<^verbatim>\<open>examples/proxy_send_recv.cc\<close>, for every platform whose verbs and sockets
  treat objects and queue pairs as documented (\<open>verbs_objects\<close>).
\<close>

section \<open>The example: a process whose peer answers\<close>

definition peer_info :: QpInfo where
  "peer_info = \<lparr>qi_rkey = 77, qi_raddr = 8192, qi_qp_num = 42, qi_psn = 0,
     qi_gid = \<lparr>subnet_prefix = 3, interface_id = 4\<rparr>, qi_lid = 6\<rparr>"

definition zero_pad :: "byte list" where "zero_pad = replicate 10 0"
definition zero_junk :: "byte list" where "zero_junk = replicate 48 0"

text \<open>What the peer will send: its record, and the byte of its \<open>syncReady\<close>.\<close>

definition paired_host :: host where
  "paired_host =
     \<lparr>h_uses = Map.empty, h_qp = \<lparr>qp_type = IBV_QPT_RC, qp_attr = zero_qp_attr\<rparr>,
      h_tcp = \<lparr>tcp_fds = [], tcp_connects = [True], tcp_in = qp_info_bytes zero_pad peer_info @ [0x61],
        tcp_out = [], tcp_slept = 0\<rparr>, h_polls = 1\<rparr>"

lemma host_objects: "verbs_objects host_platform host_uses (\<lambda>w _. h_qp w)"
  by (rule host.verbs_objects_axioms)

definition host_objs :: objects where
  "host_objs = \<lparr>o_context = 1, o_lid = 5, o_gid = \<lparr>subnet_prefix = 1, interface_id = 2\<rparr>, o_pd = 1,
     o_buffer = 4096, o_mr = \<lparr>mr_handle = 1, mr_lkey = 8, mr_rkey = 9\<rparr>, o_cq = 1,
     o_qp = \<lparr>qo_handle = 1, qo_qp_num = 17\<rparr>\<rparr>"

lemma io_bind_run: "f w = Inr (x, w') \<Longrightarrow> io_bind f g w = g x w'"
  by (simp add: io_bind_def)

lemma host_setup_device:
  "\<exists>w. setup_device host_ibv paired_host = Inr (host_objs, w) \<and> h_tcp w = h_tcp paired_host \<and>
     qp_type (h_qp w) = IBV_QPT_UC \<and> at_qp_state (qp_attr (h_qp w)) = IBV_QPS_RESET"
  by (simp add: setup_device_def io_bind_def io_return_def check_ptr_def check_get_def open_device_def device_missing_def
      init_ibv_device_def host_ibv_def new_obj_def paired_host_def host_uses_def host_objs_def
      init_attributes_def zero_qp_attr_def)

lemma host_init:
  "h_tcp (snd (modify_qp_to_init (i_modify_qp host_ibv h) w)) = h_tcp w"
  by (simp add: modify_qp_to_init_def host_ibv_def split: prod.split)

lemma host_client:
  assumes "h_tcp w = h_tcp paired_host"
  shows "SocketEndpoint_client host_os ''localhost'' 12345 w =
     (Inr \<lparr>se_sockfd = 3, se_isDaemon = False\<rparr>,
      w\<lparr>h_tcp := (h_tcp paired_host)\<lparr>tcp_fds := [3], tcp_connects := []\<rparr>\<rparr>)"
  using assms
  by (simp add: SocketEndpoint_client_def host_os_def tcp_os_def via_tcp_def paired_host_def new_fd_def
      fresh_fd_def eval_nat_numeral)

lemma host_server:
  assumes "h_tcp w = h_tcp paired_host"
  shows "SocketEndpoint_server host_os 12345 w =
     (Inr \<lparr>se_sockfd = 4, se_isDaemon = True\<rparr>, w\<lparr>h_tcp := (h_tcp paired_host)\<lparr>tcp_fds := [4]\<rparr>\<rparr>)"
  using assms
  by (simp add: SocketEndpoint_server_def startListening_def host_os_def tcp_os_def via_tcp_def
      paired_host_def new_fd_def fresh_fd_def)

lemma exchanges:
  assumes "length pad = 10" and "length pad' = 10" and "length junk = sizeof_QpInfo"
    and "if se_isDaemon ep
      then s_send os (se_sockfd ep) (qp_info_bytes pad mine) w = (48, w1) \<and>
           s_recv os (se_sockfd ep) 48 w1 = ((48, qp_info_bytes pad' theirs), w2)
      else s_recv os (se_sockfd ep) 48 w = ((48, qp_info_bytes pad' theirs), w1) \<and>
           s_send os (se_sockfd ep) (qp_info_bytes pad mine) w1 = (48, w2)"
  shows "exchange_info os ep pad junk mine w = (theirs, w2)"
proof -
  have len: "length (qp_info_bytes pad mine) = 48" "length (qp_info_bytes pad' theirs) = 48"
    using length_qp_info_bytes assms(1,2) by (simp_all add: sizeof_QpInfo_def)
  then show ?thesis using assms(3,4) qp_info_of_bytes [OF assms(2), of theirs]
    by (auto simp: exchange_info_def syncData_def recv_into_def sizeof_QpInfo_def split: if_splits)
qed

lemma host_exchange:
  assumes "tcp_in (h_tcp w) = qp_info_bytes zero_pad peer_info @ [0x61]"
  shows "\<exists>w'. exchange_info host_os ep zero_pad zero_junk q w = (peer_info, w')"
proof -
  have len: "length (qp_info_bytes zero_pad q) = 48" for q
    using length_qp_info_bytes [of zero_pad q] by (simp add: zero_pad_def sizeof_QpInfo_def)
  let ?sent = "\<lambda>w. w\<lparr>h_tcp := (h_tcp w)\<lparr>tcp_out := tcp_out (h_tcp w) @ qp_info_bytes zero_pad q\<rparr>\<rparr>"
  let ?got = "\<lambda>w. w\<lparr>h_tcp := (h_tcp w)\<lparr>tcp_in := [0x61]\<rparr>\<rparr>"
  have send: "s_send host_os fd (qp_info_bytes zero_pad q) v = (48, ?sent v)" for fd v
    by (simp add: host_os_def tcp_os_def via_tcp_def len)
  have recv: "s_recv host_os fd 48 v = ((48, qp_info_bytes zero_pad peer_info), ?got v)"
    if "tcp_in (h_tcp v) = qp_info_bytes zero_pad peer_info @ [0x61]" for fd v
    by (simp add: host_os_def tcp_os_def via_tcp_def len that)
  have pads: "length zero_pad = 10" "length zero_junk = sizeof_QpInfo"
    by (simp_all add: zero_pad_def zero_junk_def sizeof_QpInfo_def)
  show ?thesis
  proof (cases "se_isDaemon ep")
    case True
    with exchanges [OF pads(1,1,2), of ep host_os q w "?sent w" peer_info "?got (?sent w)"] send recv assms
    show ?thesis by simp
  next
    case False
    with exchanges [OF pads(1,1,2), of ep host_os q w "?got w" peer_info "?sent (?got w)"] send recv assms
    show ?thesis by simp
  qed
qed

lemma host_main_setup:
  "\<exists>sock a' w. main_setup host_platform server zero_pad zero_junk a paired_host =
     Inr ((host_objs, sock, peer_info, a'), w)"
proof -
  let ?api = "p_ibv host_platform" and ?h = "qo_handle (o_qp host_objs)"
  obtain w where w: "setup_device ?api paired_host = Inr (host_objs, w)" "h_tcp w = h_tcp paired_host"
    and q: "qp_type (h_qp w) = IBV_QPT_UC" "at_qp_state (qp_attr (h_qp w)) = IBV_QPS_RESET"
    using host_setup_device by (auto simp: host_platform_def)
  obtain w1 where w1: "modify_qp_to_init (i_modify_qp ?api ?h) w = (0, w1)"
    and ready: "qp_type (h_qp w1) = IBV_QPT_UC" "at_qp_state (qp_attr (h_qp w1)) = IBV_QPS_INIT"
    using qp_modify_spec.to_init [OF host_modify q(2), of ?h] q(1) by metis
  have t1: "h_tcp w1 = h_tcp paired_host" using host_init [of ?h w] w1 w(2) by (simp add: host_platform_def)
  have stage: "\<exists>w3 w4. exchange_info (p_os host_platform) ep zero_pad zero_junk (local_info host_objs) w2 =
      (peer_info, w3) \<and> connect_qp (i_modify_qp ?api ?h) peer_info w3 = Inr ((), w4)"
    if w2: "tcp_in (h_tcp w2) = qp_info_bytes zero_pad peer_info @ [0x61]" "h_qp w2 = h_qp w1" for w2 ep
  proof -
    obtain w3 where e: "exchange_info (p_os host_platform) ep zero_pad zero_junk (local_info host_objs) w2 =
        (peer_info, w3)"
      using host_exchange [OF w2(1)] by (auto simp: host_platform_def)
    from host.exchange_obs [OF e] have "(\<lambda>_ :: nat. h_qp w3) = (\<lambda>_. h_qp w1)" using w2(2) by simp
    then have "h_qp w3 = h_qp w1" by (rule fun_cong)
    with ready have "qp_type (h_qp w3) = IBV_QPT_UC" "at_qp_state (qp_attr (h_qp w3)) = IBV_QPS_INIT"
      by simp_all
    from qp_modify_spec.uc_to_rts [OF host_modify this, of ?h peer_info IBV_MTU_256] obtain w4 where
      "modify_qp_to_rts (i_modify_qp ?api ?h) peer_info IBV_MTU_256 0 w3 = Inr (0, w4)" by metis
    with e show ?thesis by (auto simp: connect_qp_def)
  qed
  show ?thesis
  proof (cases server)
    case True
    let ?w2 = "w1\<lparr>h_tcp := (h_tcp paired_host)\<lparr>tcp_fds := [4]\<rparr>\<rparr>"
    have "SocketEndpoint_server (p_os host_platform) 12345 w1 = (Inr \<lparr>se_sockfd = 4, se_isDaemon = True\<rparr>, ?w2)"
      using host_server [OF t1] by (simp add: host_platform_def)
    moreover obtain w3 w4 where "exchange_info (p_os host_platform) \<lparr>se_sockfd = 4, se_isDaemon = True\<rparr>
        zero_pad zero_junk (local_info host_objs) ?w2 = (peer_info, w3)"
      "connect_qp (i_modify_qp ?api ?h) peer_info w3 = Inr ((), w4)"
      using stage [of ?w2 "\<lparr>se_sockfd = 4, se_isDaemon = True\<rparr>"] by (auto simp: paired_host_def)
    ultimately show ?thesis using w(1) w1 True
      by (simp add: main_setup_def server_branch_def io_bind_def io_return_def check_zero_def lift_exn_def
          Let_def case_prod_unfold)
  next
    case False
    let ?w2 = "w1\<lparr>h_tcp := (h_tcp paired_host)\<lparr>tcp_fds := [3], tcp_connects := []\<rparr>\<rparr>"
    have "SocketEndpoint_client (p_os host_platform) ''localhost'' 12345 w1 =
        (Inr \<lparr>se_sockfd = 3, se_isDaemon = False\<rparr>, ?w2)"
      using host_client [OF t1] by (simp add: host_platform_def)
    moreover obtain w3 w4 where "exchange_info (p_os host_platform) \<lparr>se_sockfd = 3, se_isDaemon = False\<rparr>
        zero_pad zero_junk (local_info host_objs) ?w2 = (peer_info, w3)"
      "connect_qp (i_modify_qp ?api ?h) peer_info w3 = Inr ((), w4)"
      using stage [of ?w2 "\<lparr>se_sockfd = 3, se_isDaemon = False\<rparr>"] by (auto simp: paired_host_def)
    ultimately show ?thesis using w(1) w1 False
      by (simp add: main_setup_def client_branch_def io_bind_def io_return_def check_zero_def lift_exn_def
          Let_def case_prod_unfold)
  qed
qed

section \<open>The properties\<close>



text \<open>
  C38. The process is safe and releases everything, if the memory of the uninitialised \<open>handler\<close>
  happens to be zero in \<open>proxyThread\<close>, \<open>pool\<close> and \<open>pools\<close>, which \<open>main\<close> relies on without establishing
  it: when \<open>pool\<close> is not, the first \<open>allocateArgs\<close> follows a wild pointer. If it is, then in every
  state of \<open>main\<close> and the proxy thread, however they interleave: a fault has only happened if it is
  \<open>exit\<close> after a failed allocation, or the null pointer \<open>ibv_open_device\<close> is given when there is no
  device with the name; when \<open>main\<close> has left the wait, no step of the thread calls the device any
  more; and when \<open>main\<close> returns, the process holds exactly the objects of the platform it held at the
  start (the order of the release never destroys one that is in use), and the pool is freed.
\<close>

theorem process_safe:
  assumes "verbs_objects P uses qps" and "process P server pad junk h w st"
  shows "(happens_zero h \<longrightarrow>
      (ms_pc st = M_error (Main_fault e) \<longrightarrow>
         e = ExitOutOfMemory \<or> e = NullDeref \<and> device_missing (i_device_list (p_ibv P) w)) \<and>
      (ms_pc st \<in> {M_release, M_destroy, M_join} \<longrightarrow> process_step P server pad junk Thread st = Some st' \<longrightarrow>
         world (ms_sys st') = world (ms_sys st) \<and> sys.log (ms_sys st') = sys.log (ms_sys st)) \<and>
      (ms_pc st = M_return \<longrightarrow> uses (world (ms_sys st)) = uses w \<and>
         heap (mem (ms_sys st)) = Map.empty \<and> blocks (mem (ms_sys st)) = Map.empty)) \<and>
     (ph_pool h \<noteq> None \<longrightarrow> (\<exists>stf. process_run P server pad junk [Main None, Main None] (new_process h w) = Some stf \<and>
        ms_pc stf = M_error (Main_fault WildDeref)))"
proof (intro conjI impI)
  assume z: "happens_zero h"
  note proc = verbs_objects.any_process [OF assms(1), of server]
  note inv = good_process.process_holds [OF proc z assms(2)]
  show "ms_pc st = M_error (Main_fault e) \<Longrightarrow>
      e = ExitOutOfMemory \<or> e = NullDeref \<and> device_missing (i_device_list (p_ibv P) w)"
    using inv by (auto simp: process_inv_def)
  have "ms_pc st = M_return \<longrightarrow> released uses w (ms_sys st)" using inv by (auto simp: process_inv_def)
  then show "uses (world (ms_sys st)) = uses w" "heap (mem (ms_sys st)) = Map.empty"
    "blocks (mem (ms_sys st)) = Map.empty" if "ms_pc st = M_return"
    using that by (simp_all add: released_def)
  show "world (ms_sys st') = world (ms_sys st)" "sys.log (ms_sys st') = sys.log (ms_sys st)"
    if "ms_pc st \<in> {M_release, M_destroy, M_join}" "process_step P server pad junk Thread st = Some st'"
    using good_process.no_device_after_wait [OF proc inv that] by simp_all
next
  assume "ph_pool h \<noteq> None"
  then show "\<exists>stf. process_run P server pad junk [Main None, Main None] (new_process h w) = Some stf \<and>
      ms_pc stf = M_error (Main_fault WildDeref)"
    by (rule wild_pool) blast
qed

lemma process_run_process:
  assumes "process P server pad junk h w st" and "process_run P server pad junk acts st = Some st'"
  shows "process P server pad junk h w st'"
  using assms
proof (induction acts arbitrary: st)
  case (Cons act acts)
  then obtain st1 where st1: "process_step P server pad junk act st = Some st1"
    "process_run P server pad junk acts st1 = Some st'"
    by (auto simp del: process_step.simps split: option.splits)
  show ?case by (rule Cons.IH [OF process_more [OF Cons.prems(1) st1(1)] st1(2)])
qed simp

text \<open>Both processes of the example get from the start to the end.\<close>

lemma zero_happens: "happens_zero zero_handler"
  by (simp add: happens_zero_def zero_handler_def)

lemma host_setup_succeeds: "main_setup host_platform server zero_pad zero_junk a paired_host \<noteq> Inl e"
  using host_main_setup [of server a] by auto

lemma host_process:
  "\<exists>st. process host_platform server zero_pad zero_junk zero_handler paired_host st \<and> ms_pc st = M_return"
proof -
  let ?st = "new_process zero_handler paired_host"
  have p: "process host_platform server zero_pad zero_junk zero_handler paired_host ?st" by (rule process_new)
  have pc: "ms_pc ?st = M_create" "world (ms_sys ?st) = paired_host" by (simp_all add: new_process_def)
  from host_live.process_gets_there [OF host_live.process_holds [OF zero_happens p], of zero_pad zero_junk] pc
  obtain st' where "leads_to host_platform server zero_pad zero_junk ?st st'"
    "host_live.finishes server zero_pad zero_junk ?st st'" by auto
  then show ?thesis using process_run_process [OF p] host_setup_succeeds pc
    by (auto simp: leads_to_def host_live.finishes_def)
qed

theorem process_safe_witness:
  "\<exists>st. process host_platform False zero_pad zero_junk zero_handler paired_host st \<and> ms_pc st = M_return \<and>
     host_uses (world (ms_sys st)) = Map.empty \<and> heap (mem (ms_sys st)) = Map.empty"
proof -
  obtain st where st: "process host_platform False zero_pad zero_junk zero_handler paired_host st" "ms_pc st = M_return"
    using host_process by blast
  from process_safe [OF host_objects st(1)] st zero_happens show ?thesis
    by (auto simp: paired_host_def host_uses_def)
qed

text \<open>
  C39. Whether the processes finish. If the memory of the uninitialised \<open>handler\<close> happens to be zero
  where it matters, then from every state of the process in which \<open>main\<close> has not ended, some schedule
  of \<open>main\<close> and the thread leads to its return; before the set-up is over the only other end is the
  error with which the set-up fails there. So the process never waits for something that cannot
  happen: the thread is awake when there is work, the operation finishes, and \<open>ProxyDestroy\<close> joins.
  The server depends on its peer: it needs a device on which completions keep arriving, however
  many polls find nothing in between. If \<open>proxyThread\<close> happens not to be zero, \<open>ProxyCreate\<close> starts no
  thread, and under no schedule does \<open>main\<close> return.
\<close>

theorem main_finishes:
  assumes "verbs_objects P uses qps" and "completing_device (p_verbs P) server patience"
    and "process P server pad junk h w st" and "\<not> main_ended (ms_pc st)"
  shows "(happens_zero h \<longrightarrow> (\<exists>acts st'. process_run P server pad junk acts st = Some st' \<and>
      (ms_pc st' = M_return \<or>
       ms_pc st \<in> {M_create, M_alloc, M_setup} \<and>
       (\<exists>a e. main_setup P server pad junk a (world (ms_sys st)) = Inl e \<and> ms_pc st' = M_error e)))) \<and>
     (ph_proxyThread h \<longrightarrow> (\<forall>acts st'. process_run P server pad junk acts st = Some st' \<longrightarrow>
       ms_pc st' \<noteq> M_return))"
proof (intro conjI impI allI)
  assume z: "happens_zero h"
  have live: "live_process P uses qps server patience" using assms(1,2) by (rule live_process.intro)
  note proc = good_process.process_holds [OF live_process.is_good [OF live] z assms(3)]
  obtain st' where st': "leads_to P server pad junk st st'" and
    e: "if ms_pc st \<in> {M_create, M_alloc, M_setup} then live_process.finishes P server pad junk st st'
      else ms_pc st' = M_return"
    using live_process.process_gets_there [OF live proc assms(4)] by blast
  then obtain acts where acts: "process_run P server pad junk acts st = Some st'" by (auto simp: leads_to_def)
  from e have "ms_pc st' = M_return \<or> ms_pc st \<in> {M_create, M_alloc, M_setup} \<and>
      (\<exists>a e. main_setup P server pad junk a (world (ms_sys st)) = Inl e \<and> ms_pc st' = M_error e)"
    unfolding live_process.finishes_def [OF live] by meson
  with acts show "\<exists>acts st'. process_run P server pad junk acts st = Some st' \<and>
      (ms_pc st' = M_return \<or> ms_pc st \<in> {M_create, M_alloc, M_setup} \<and>
       (\<exists>a e. main_setup P server pad junk a (world (ms_sys st)) = Inl e \<and> ms_pc st' = M_error e))" by blast
next
  fix acts st'
  assume "ph_proxyThread h" "process_run P server pad junk acts st = Some st'"
  from verbs_objects.no_thread_never_returns [OF assms(1)
      verbs_objects.process_no_thread [OF assms(1) this(1) assms(3)] this(2)]
  show "ms_pc st' \<noteq> M_return" by (auto simp: no_thread_def)
qed

theorem main_finishes_witness:
  "\<exists>acts st'. process_run host_platform True zero_pad zero_junk acts (new_process zero_handler paired_host) = Some st' \<and>
     ms_pc st' = M_return"
proof -
  have "\<not> main_ended (ms_pc (new_process zero_handler paired_host))"
    "world (ms_sys (new_process zero_handler paired_host)) = paired_host"
    by (simp_all add: new_process_def)
  with main_finishes [where server = True and pad = zero_pad and junk = zero_junk,
      OF host_objects host_live.completing_device_axioms process_new this(1)] host_setup_succeeds [of True] zero_happens
  show ?thesis by auto
qed

text \<open>
  C40. The exchange of the \<open>QpInfo\<close>s. When both calls of \<open>syncData\<close> move the whole record, each
  side ends up with the other's \<open>QpInfo\<close>, field for field, whatever the padding bytes of the two
  structures and the uninitialised variable hold.
\<close>

theorem info_exchange:
  assumes "length pad = 10" and "length pad' = 10" and "length junk = sizeof_QpInfo"
    and "if se_isDaemon ep
      then s_send os (se_sockfd ep) (qp_info_bytes pad mine) w = (48, w1) \<and>
           s_recv os (se_sockfd ep) 48 w1 = ((48, qp_info_bytes pad' theirs), w2)
      else s_recv os (se_sockfd ep) 48 w = ((48, qp_info_bytes pad' theirs), w1) \<and>
           s_send os (se_sockfd ep) (qp_info_bytes pad mine) w1 = (48, w2)"
  shows "exchange_info os ep pad junk mine w = (theirs, w2)"
  using assms by (rule exchanges)

definition idle_host :: "byte list \<Rightarrow> tcp" where
  "idle_host bytes = \<lparr>tcp_fds = [3], tcp_connects = [], tcp_in = bytes, tcp_out = [], tcp_slept = 0\<rparr>"

theorem info_exchange_witness:
  "\<exists>w. exchange_info tcp_os \<lparr>se_sockfd = 3, se_isDaemon = False\<rparr> zero_pad zero_junk (local_info host_objs)
     (idle_host (qp_info_bytes (replicate 10 7) peer_info)) = (peer_info, w)"
proof -
  let ?pad = "replicate 10 7 :: byte list"
  let ?bs = "qp_info_bytes ?pad peer_info" and ?out = "qp_info_bytes zero_pad (local_info host_objs)"
  have "length ?bs = 48" "length ?out = 48"
    using length_qp_info_bytes [of ?pad] length_qp_info_bytes [of zero_pad]
    by (simp_all add: sizeof_QpInfo_def zero_pad_def)
  then have "s_recv tcp_os 3 48 (idle_host ?bs) = ((48, ?bs), idle_host [])"
    "s_send tcp_os 3 ?out (idle_host []) = (48, (idle_host [])\<lparr>tcp_out := ?out\<rparr>)"
    by (simp_all add: tcp_os_def idle_host_def)
  then show ?thesis
    using info_exchange [of zero_pad ?pad zero_junk "\<lparr>se_sockfd = 3, se_isDaemon = False\<rparr>" tcp_os
        "local_info host_objs" "idle_host ?bs" "idle_host []" peer_info]
    by (simp add: zero_pad_def zero_junk_def sizeof_QpInfo_def)
qed

text \<open>
  Nobody looks at the result of \<open>syncData\<close>: when its first call fails or the peer has closed, \<open>main\<close>
  goes on with what the uninitialised variable held.
\<close>

lemma exchange_unnoticed:
  assumes "rc \<le> 0" and "s_recv os (se_sockfd ep) 48 w = ((rc, []), w1)" and "\<not> se_isDaemon ep"
  shows "exchange_info os ep pad junk mine w = (qp_info_of junk, w1)"
  using assms by (simp add: exchange_info_def syncData_def recv_into_def sizeof_QpInfo_def)

text \<open>
  Nor is a failed transition to RTS noticed: \<open>ibv_modify_qp\<close> returns a positive error number, and
  only a negative result is checked for.
\<close>

lemma failed_rts_unnoticed:
  assumes "modify (rtr_attr_uc nb IBV_MTU_256)
      [IBV_QP_STATE, IBV_QP_PATH_MTU, IBV_QP_DEST_QPN, IBV_QP_RQ_PSN, IBV_QP_AV] w = (0, w1)"
    and "modify rts_attr_uc [IBV_QP_STATE, IBV_QP_SQ_PSN] w1 = (22, w2)"
  shows "connect_qp modify nb w = Inr ((), w2)"
  using assms
  by (simp add: connect_qp_def modify_qp_to_rts_def modify_qp_to_rtr_uc_def modify_qp_to_rts_uc_def)

end
