(* ===== verification/Spec2Isabelle.thy ===== *)
theory Spec2Isabelle
  imports Proxy_Properties Rdma_Properties Socket_Properties Clock_Properties
    Cluster_Properties Send_Recv_Properties
begin

text \<open>
  FlashReduce: a library that drives RDMA transfers from a background thread, the rendezvous of the
  processes that use it, and a program that measures the throughput of a transfer.

  \<^bold>\<open>The parts of the program, and how they interact.\<close>

  \<^item> \<^verbatim>\<open>csrc/proxy.cc\<close>: operations (\<open>ProxyArgs\<close>) are taken from a pool (\<open>allocateArgs\<close>), filled in by the
    client and put on a queue (\<open>ProxyArgsAppend\<close>). A thread (\<open>persistentThread\<close>) goes round the
    queue, calls the progress function of each operation and unlinks those that are done.
    \<open>ProxyStart\<close>, \<open>ProxyWaitAllOpFinished\<close> and \<open>ProxyDestroy\<close> start, await and end its work.
  \<^item> \<^verbatim>\<open>csrc/rdma_utils.cc\<close>: opens a device by name, prints the attributes of its port, and takes a queue
    pair through the states INIT, RTR and RTS towards the neighbour that a \<open>QpInfo\<close> describes.
  \<^item> \<^verbatim>\<open>csrc/socket_endpoint.cc\<close>: a TCP connection on which two processes exchange such records.
  \<^item> \<^verbatim>\<open>csrc/grpc_client.cc\<close> and \<^verbatim>\<open>controller/controller.py\<close>: workers meet, broadcast a value and
    exchange \<open>QpInfo\<close>s through a controller, a gRPC service with a pool of threads.
  \<^item> \<^verbatim>\<open>csrc/get_clock.cc\<close>: the cycle counter of the CPU and its frequency.
  \<^item> \<^verbatim>\<open>examples/proxy_send_recv.cc\<close>: the program that puts the proxy, the set-up of the queue pair and the
    TCP exchange together; one process sends and the other receives.

  \<^bold>\<open>Theories and the code they model.\<close>

  \<^item> \<open>Prelude\<close>: errors as \<open>fault + 'a\<close> with \<open>sum_bind\<close>, lists, partial maps; the collections \<open>frame\<close> and
    \<open>rep_defs\<close>.
  \<^item> \<open>Proxy_Types\<close>: the structures of \<^verbatim>\<open>proxy.h\<close> as records, a memory of operations (\<open>heap\<close>), of tail
    cells (\<open>tails\<close>) and of pool blocks (\<open>blocks\<close>). A pointer is an \<open>argref option\<close>, \<open>Elem b i\<close> is the
    element \<open>i\<close> of the block \<open>b\<close>; reading and writing through a bad pointer is a fault.
  \<^item> \<open>Channel_Ring\<close>: the abstract specification of the queue, a ring of first-in first-out channels.
    \<open>Proxy_Queue\<close>: \<open>ProxyArgsAppend\<close> and the unlinking in \<open>persistentThread\<close> (\<open>replace_next\<close>,
    \<open>recycle\<close>, \<open>unlink_next\<close>), and that they implement the ring (\<open>queue_inv\<close>).
  \<^item> \<open>Proxy_Pool\<close>: \<open>allocateArgs\<close>, \<open>CALLOC\<close>, the freeing loop of \<open>ProxyDestroy\<close>.
  \<^item> \<open>Proxy_Thread\<close>: \<open>persistentThread\<close> as a step function (\<open>worker_step\<close>) on the state \<open>sys\<close>, one step
    per critical section or call, and the client's functions as steps (\<open>exec\<close>); \<open>reachable\<close> are the
    states of all interleavings that respect the rules of the interface (\<open>legal\<close>).
  \<^item> \<open>Proxy_Safety\<close>: the invariant \<open>sys_rep\<close> and that every step keeps it, for the progress functions of
    the locale \<open>progress_functions\<close>. \<open>Proxy_Passes\<close>: an observer of the thread's passes over its
    ring (\<open>watched\<close>), who knows when it yields. \<open>Proxy_Drain\<close>: the thread empties the queue when the progress
    functions keep their operations in order (locale \<open>keeping_progress\<close>) and finish
    (\<open>terminating_progress\<close>).
  \<^item> \<open>Benchmarks\<close>: \<open>exampleTask\<close>, \<open>send_benchmark\<close>, \<open>recv_benchmark\<close>, and that they fit these locales,
    \<open>recv_benchmark\<close> on a device on which completions keep arriving (\<open>completing_device\<close>).
  \<^item> \<open>Rdma_Utils\<close>, \<open>Rdma_Print\<close>: \<^verbatim>\<open>rdma_utils.cc\<close>. \<open>ibv_modify_qp\<close> is a parameter with the law
    \<open>qp_modify_spec\<close>, which states the documented requirements of the transitions (\<open>doc_modify\<close> is an
    instance), or with the weaker \<open>qp_modify_may_fail\<close>, under which any call may return an error
    (\<open>starved_modify\<close> is one).
  \<^item> \<open>Socket_Endpoint\<close>: \<^verbatim>\<open>socket_endpoint.cc\<close>. The socket calls are a parameter with laws about file
    descriptors (locale \<open>descriptors\<close>); \<open>tcp_os\<close> is an instance.
  \<^item> \<open>Double_Arith\<close>: IEEE double precision, every operation rounded to nearest even (\<open>round_rat\<close>,
    \<open>to_double\<close>), with the error of one rounding.
  \<^item> \<open>Get_Clock\<close>: \<^verbatim>\<open>get_clock.h\<close> and \<^verbatim>\<open>get_clock.cc\<close>, for every CPU and system the sources distinguish.
  \<^item> \<open>Grpc_Client\<close>: the messages of \<^verbatim>\<open>proto/flashreduce.proto\<close> and the class \<open>gRPCClient\<close>.
  \<^item> \<open>Controller\<close>: the handlers of \<^verbatim>\<open>controller.py\<close>, cut into steps where they take and release the
    lock, wait, or read shared state outside of it (\<open>thread_step\<close>), and the pool (\<open>serve\<close>); \<open>served\<close>
    are the states of all interleavings. \<open>Controller_Barrier\<close> holds the invariant of the rendezvous,
    \<open>Controller_Rounds\<close> rounds of equal size, \<open>Controller_Session\<close> what \<open>RdmaSession\<close> answers,
    \<open>Controller_Broadcast\<close> one round of \<open>Broadcast\<close>.
  \<^item> \<open>Send_Recv\<close>: \<open>main\<close> of \<^verbatim>\<open>proxy_send_recv.cc\<close> as steps (\<open>main_step\<close>) that interleave with the proxy
    thread (\<open>process_step\<close>); \<open>process\<close> are the states of all interleavings, from what the memory of
    the uninitialised \<open>handler\<close> holds. \<open>Send_Recv_Device\<close> states the
    laws of the platform (\<open>socket_frame\<close>, \<open>verbs_objects\<close>) and what the set-up does to it,
    \<open>Send_Recv_Process\<close> the invariant of the process (\<open>good_process\<close>) and its progress
    (\<open>live_process\<close>), \<open>Send_Recv_Host\<close> a platform that keeps the laws and on which both processes run.

  \<^bold>\<open>The properties.\<close>

  \<^item> \<open>Proxy_Properties\<close> (C1 to C14): no fault in any reachable state; waiting and destroying end; the
    channels are first in, first out, and only their heads run; refinement of append and unlink;
    allocation on every branch; no lost wakeup; yielding after ten idle passes; what remains after
    \<open>ProxyDestroy\<close>; the benchmark functions end, and their counters stay in their ranges.
  \<^item> \<open>Rdma_Properties\<close> (C15 to C19): reset queue pairs of both transports come up connected; the
    transport must match; the choice of the device; the printed attributes are faithful.
  \<^item> \<open>Socket_Properties\<close> (C20 to C23): the constructors leak no descriptor on any path; what the exchange
    gives, and the error it hides.
  \<^item> \<open>Clock_Properties\<close> (C24 to C28): on linear data the regression gives the double nearest to the
    slope, all rounding included; the sampling ends; the
    frequency listed and the one chosen; the counters.
  \<^item> \<open>Controller_Properties\<close> (C29 to C35): a barrier raises no exception, holds until all have come,
    completes when the workers fit the pool and starves when they do not; a broadcast delivers the
    value of the root; a session exchanges the data of its two workers; dropping finished broadcasts
    is a filter. \<open>Cluster_Properties\<close> (C36): two workers that meet at the controller connect.
  \<^item> \<open>Send_Recv_Properties\<close> (C37 to C40): the set-up creates its objects and connects the queue pair to
    the neighbour; when the memory of the handler happens to be zero (\<open>happens_zero\<close>) the process
    has no fault but for a missing device or memory, releases its objects in order, and sender and
    receiver can always finish, and when it does not, a wild pointer is followed or \<open>main\<close> never
    returns; the exchanged records arrive field for field.
  \<^item> Behaviour that looks unintended is stated too: the tables of the barrier grow for ever
    (\<open>barrier_entries_leak\<close>), two broadcasts can mix (\<open>broadcast_rounds_mix\<close>), a failed exchange or
    transition goes unnoticed in \<open>main\<close> (\<open>exchange_unnoticed\<close>, \<open>failed_rts_unnoticed\<close>), a missing
    device is a null pointer (\<open>device_missing_faults\<close>), and with the progress functions of the
    examples, which never report that they were idle, the thread never yields
    (\<open>examples_never_yield\<close>).

  \<^bold>\<open>Bounds.\<close> A pool block has 32 elements and the idle counter runs to 10, as in the code. The thread's
  work is bounded by a well-founded order (\<open>before\<close>: the calls its operations still need, then the
  patience of the device), not by fuel; \<open>steps n\<close> is a run of \<open>n\<close> steps whose existence the
  theorems state. The connection is tried five times, the clock is sampled 200 times,
  the pool of the controller has 10 threads, and a handler makes at most five steps. The waiting
  loop of the clock is a \<open>partial_function\<close>, and that it returns is proved. A \<open>QpInfo\<close> has the 48
  bytes of the x86-64 layout.

  \<^bold>\<open>Not modelled.\<close>

  \<^item> Log messages but for their fixed texts; \<open>main\<close> is given its argument as a truth value.
  \<^item> Mutex and condition variable are the atomicity of the steps and a waiting state, with spurious
    wakeups; the unlocked reads of the thread and of \<open>ProxyWaitAllOpFinished\<close> are atomic.
  \<^item> The sign of a zero \<open>double\<close>, and compilers that contract or widen \<open>double\<close> operations. The
    frequencies listed in \<^verbatim>\<open>/proc/cpuinfo\<close> are the decimal numbers of the file, and \<open>proc_line\<close> and
    \<open>choose_mhz\<close> compare them without rounding. Of the numbers \<open>%lf\<close> reads, exponents and
    hexadecimal fractions.
  \<^item> The code that \<open>protoc\<close> generates, the gRPC transport, and \<open>run\<close> and \<open>stop\<close> of the controller: the stubs
    and the arrival of a call are parameters of the models on both sides.
  \<^item> \<^verbatim>\<open>controller/controller_.py\<close>, which nothing imports, the macros \<open>ALLOC\<close> and \<open>ALLOC_ALIGNED\<close>, which
    nothing uses, and the \<open>main\<close> functions of the other examples, which call the parts above in
    the same order and print.
\<close>

end
